(* ===== verification/Prelude.thy ===== *)
theory Prelude
  imports Main "HOL-Library.Word"
begin

text \<open>
  Shared vocabulary of the development.

  \<^item> Rust's fixed-width integers are \<open>w word\<close>s where the source wraps, shifts or masks them;
    a \<open>usize\<close> that only ever counts elements of a slice is a \<open>nat\<close>.
  \<^item> A Rust expression that may panic (an index out of range, a failed assertion, an arithmetic
    overflow in a checked build) has the type \<open>'a outcome\<close>: \<open>Panic\<close> or \<open>Return x\<close>.
  \<^item> \<open>Result<T, E>\<close> is \<open>'e + 't\<close> with \<open>Inl\<close> for \<open>Err\<close>; \<open>Option<T>\<close> is \<open>'t option\<close>.
  \<^item> \<open>Vec<T>\<close> is a list whose last element is the top of the stack.
\<close>

named_theorems model_defs \<open>definitions of the model that proofs unfold\<close>
named_theorems inv_intros \<open>facts saying that an operation keeps an invariant\<close>

type_synonym byte = "8 word"
type_synonym bytes = "byte list"
type_synonym u16 = "16 word"
type_synonym u32 = "32 word"
type_synonym u64 = "64 word"

datatype 'a outcome = Panic | Return 'a

primrec bind_outcome :: "'a outcome \<Rightarrow> ('a \<Rightarrow> 'b outcome) \<Rightarrow> 'b outcome" where
  "bind_outcome Panic f = Panic"
| "bind_outcome (Return x) f = f x"

lemma bind_outcome_Return_iff [simp]:
  "bind_outcome m f = Return y \<longleftrightarrow> (\<exists>x. m = Return x \<and> f x = Return y)"
  by (cases m) auto

text \<open>An ASCII literal \<open>b"..."\<close> as bytes. \<open>CR\<close> and \<open>LF\<close> are the octets of the line end.\<close>

definition ascii :: "string \<Rightarrow> bytes" where
  "ascii s = map of_char s"

abbreviation CR :: byte where "CR \<equiv> 13"
abbreviation LF :: byte where "LF \<equiv> 10"
abbreviation SP :: byte where "SP \<equiv> 32"
abbreviation HTAB :: byte where "HTAB \<equiv> 9"

abbreviation CRLF :: bytes where "CRLF \<equiv> [CR, LF]"

lemma ascii_simps [simp]:
  "ascii [] = []" "ascii (c # s) = of_char c # ascii s"
  by (simp_all add: ascii_def)

lemma ascii_append [simp]: "ascii (s @ t) = ascii s @ ascii t"
  by (simp add: ascii_def)

lemma length_ascii [simp]: "length (ascii s) = length s"
  by (simp add: ascii_def)

subsection \<open>Vectors\<close>

text \<open>\<open>Vec::pop\<close>: the last element and what is left.\<close>

definition vec_pop :: "'a list \<Rightarrow> ('a \<times> 'a list) option" where
  "vec_pop xs = (if xs = [] then None else Some (last xs, butlast xs))"

lemma vec_pop_eq_Some_iff [simp]: "vec_pop xs = Some (x, ys) \<longleftrightarrow> xs = ys @ [x]"
  by (auto simp: vec_pop_def) 

lemma vec_pop_eq_None_iff [simp]: "vec_pop xs = None \<longleftrightarrow> xs = []"
  by (auto simp: vec_pop_def)

text \<open>\<open>slice.get(i)\<close>: \<open>None\<close> out of range.\<close>

definition nth_opt :: "'a list \<Rightarrow> nat \<Rightarrow> 'a option" where
  "nth_opt xs i = (if i < length xs then Some (xs ! i) else None)"

lemma nth_opt_eq_Some_iff [simp]: "nth_opt xs i = Some x \<longleftrightarrow> i < length xs \<and> xs ! i = x"
  by (auto simp: nth_opt_def)

lemma nth_opt_eq_None_iff [simp]: "nth_opt xs i = None \<longleftrightarrow> length xs \<le> i"
  by (auto simp: nth_opt_def)

lemma nth_list_update_if: "list_update xs i x ! j = (if i = j \<and> j < length xs then x else xs ! j)"
  by (cases "i < length xs") (auto simp: nth_list_update not_less list_update_beyond)

lemma upt_0_Suc: "[0..<Suc n] = 0 # map Suc [0..<n]"
  by (simp add: map_Suc_upt upt_conv_Cons del: upt_Suc)

text \<open>\<open>checked_add\<close> on an unsigned integer.\<close>

definition checked_add :: "'w::len word \<Rightarrow> 'w word \<Rightarrow> 'w word option" where
  "checked_add a b = (if unat a + unat b < 2 ^ LENGTH('w) then Some (a + b) else None)"

lemma checked_add_Some_unat:
  fixes a b :: "'w::len word"
  assumes "checked_add a b = Some c"
  shows "unat c = unat a + unat b"
  using assms by (auto simp: checked_add_def unat_word_ariths split: if_splits)

lemma checked_add_None_unat:
  fixes a b :: "'w::len word"
  shows "checked_add a b = None \<longleftrightarrow> 2 ^ LENGTH('w) \<le> unat a + unat b"
  by (auto simp: checked_add_def)

end
