(* ===== verification/Completion_Table.thy ===== *)
theory Completion_Table
  imports Prelude
begin

text \<open>
  The contract a reactor relies on when it routes completions by token: a table hands out a
  token per stored value, a token resolves to that value until it is taken out, and once taken
  out the token is \<^emph>\<open>spent\<close>, for good. The clients' lemmas are proved from the contract; the
  slab of \<^verbatim>\<open>crates/dn-runtime\<close> discharges it in the theory \<open>Slab\<close>.
\<close>

datatype ('t, 'v) table_op = Insert 'v | Mutate 't "'v \<Rightarrow> 'v" | Remove 't

fun names_token :: "('t, 'v) table_op \<Rightarrow> 't \<Rightarrow> bool" where
  "names_token (Insert v) t \<longleftrightarrow> False"
| "names_token (Mutate u f) t \<longleftrightarrow> u = t"
| "names_token (Remove u) t \<longleftrightarrow> u = t"

text \<open>One call, with the token it issued if any; a history of calls, with the tokens it issued in
  order. A panic ends the history.\<close>

fun table_step ::
  "('s \<Rightarrow> 'v \<Rightarrow> (('v + 't) \<times> 's) outcome) \<Rightarrow>
   ('s \<Rightarrow> 't \<Rightarrow> ('v \<Rightarrow> 'v) \<Rightarrow> ('v \<times> 's) option) \<Rightarrow>
   ('s \<Rightarrow> 't \<Rightarrow> ('v \<times> 's) option) \<Rightarrow>
   's \<Rightarrow> ('t, 'v) table_op \<Rightarrow> ('t option \<times> 's) outcome" where
  "table_step ins upd del s (Insert v) =
     (case ins s v of
        Panic \<Rightarrow> Panic
      | Return (Inl _, s') \<Rightarrow> Return (None, s')
      | Return (Inr t, s') \<Rightarrow> Return (Some t, s'))"
| "table_step ins upd del s (Mutate t f) =
     Return (None, case upd s t f of None \<Rightarrow> s | Some (_, s') \<Rightarrow> s')"
| "table_step ins upd del s (Remove t) =
     Return (None, case del s t of None \<Rightarrow> s | Some (_, s') \<Rightarrow> s')"

fun table_exec ::
  "('s \<Rightarrow> 'v \<Rightarrow> (('v + 't) \<times> 's) outcome) \<Rightarrow>
   ('s \<Rightarrow> 't \<Rightarrow> ('v \<Rightarrow> 'v) \<Rightarrow> ('v \<times> 's) option) \<Rightarrow>
   ('s \<Rightarrow> 't \<Rightarrow> ('v \<times> 's) option) \<Rightarrow>
   's \<Rightarrow> ('t, 'v) table_op list \<Rightarrow> ('t list \<times> 's) outcome" where
  "table_exec ins upd del s [] = Return ([], s)"
| "table_exec ins upd del s (op # ops) =
     (case table_step ins upd del s op of
        Panic \<Rightarrow> Panic
      | Return (r, s') \<Rightarrow>
          (case table_exec ins upd del s' ops of
             Panic \<Rightarrow> Panic
           | Return (ts, s'') \<Rightarrow> Return (case_option ts (\<lambda>t. t # ts) r, s'')))"

locale completion_table =
  fixes ins :: "'s \<Rightarrow> 'v \<Rightarrow> (('v + 't) \<times> 's) outcome"
    and look :: "'s \<Rightarrow> 't \<Rightarrow> 'v option"
    and upd :: "'s \<Rightarrow> 't \<Rightarrow> ('v \<Rightarrow> 'v) \<Rightarrow> ('v \<times> 's) option"
    and del :: "'s \<Rightarrow> 't \<Rightarrow> ('v \<times> 's) option"
    and inv :: "'s \<Rightarrow> bool"
    and spent :: "'s \<Rightarrow> 't \<Rightarrow> bool"
  assumes ins_returns: "inv s \<Longrightarrow> ins s v \<noteq> Panic"
    and ins_full: "inv s \<Longrightarrow> ins s v = Return (Inl w, s') \<Longrightarrow> w = v \<and> s' = s"
    and ins_inv: "inv s \<Longrightarrow> ins s v = Return (Inr t, s') \<Longrightarrow> inv s'"
    and ins_fresh: "inv s \<Longrightarrow> ins s v = Return (Inr t, s') \<Longrightarrow> look s t = None \<and> \<not> spent s t"
    and ins_look: "inv s \<Longrightarrow> ins s v = Return (Inr t, s') \<Longrightarrow> look s' = (look s)(t \<mapsto> v)"
    and ins_spent: "inv s \<Longrightarrow> ins s v = Return (Inr t, s') \<Longrightarrow> spent s u \<Longrightarrow> spent s' u"
    and upd_none: "inv s \<Longrightarrow> upd s t f = None \<longleftrightarrow> look s t = None"
    and upd_some: "inv s \<Longrightarrow> upd s t f = Some (v, s') \<Longrightarrow>
          inv s' \<and> look s t = Some v \<and> look s' = (look s)(t \<mapsto> f v)"
    and upd_spent: "inv s \<Longrightarrow> upd s t f = Some (v, s') \<Longrightarrow> spent s u \<Longrightarrow> spent s' u"
    and del_none: "inv s \<Longrightarrow> del s t = None \<longleftrightarrow> look s t = None"
    and del_some: "inv s \<Longrightarrow> del s t = Some (v, s') \<Longrightarrow>
          inv s' \<and> look s t = Some v \<and> look s' = (look s)(t := None) \<and> spent s' t"
    and del_spent: "inv s \<Longrightarrow> del s t = Some (v, s') \<Longrightarrow> spent s u \<Longrightarrow> spent s' u"
    and spent_look: "inv s \<Longrightarrow> spent s t \<Longrightarrow> look s t = None"
begin

text \<open>A token is \<^emph>\<open>known\<close> when the table has handed it out: it resolves, or it is spent.\<close>

definition known :: "'s \<Rightarrow> 't \<Rightarrow> bool" where
  "known s t \<longleftrightarrow> look s t \<noteq> None \<or> spent s t"

lemma step_facts:
  assumes "inv s"
  obtains r s' where "table_step ins upd del s op = Return (r, s')" and "inv s'"
    and "\<And>t. known s t \<Longrightarrow> known s' t \<and> r \<noteq> Some t" and "\<And>t. r = Some t \<Longrightarrow> known s' t"
    and "\<And>t. spent s t \<Longrightarrow> spent s' t"
    and "\<And>t v. look s t = Some v \<Longrightarrow> \<not> names_token op t \<Longrightarrow> look s' t = Some v"
proof (cases op)
  case (Insert v)
  from ins_returns [OF assms, of v] obtain r s1 where st: "ins s v = Return (r, s1)"
    by (cases "ins s v") auto
  show ?thesis
  proof (cases r)
    case (Inl w)
    with st Insert assms ins_full [OF assms, of v w s1] show ?thesis by (intro that) auto
  next
    case (Inr t)
    note ok = assms st [unfolded Inr]
    show ?thesis
      using Inr st Insert ins_inv [OF ok] ins_fresh [OF ok] ins_look [OF ok] ins_spent [OF ok]
      by (intro that [of "Some t" s1]) (auto simp: known_def)
  qed
next
  case (Mutate t f)
  show ?thesis
  proof (cases "upd s t f")
    case None
    with Mutate assms show ?thesis by (intro that) auto
  next
    case (Some p)
    then obtain v s1 where "upd s t f = Some (v, s1)" by (cases p) auto
    with Mutate assms upd_some [OF assms, of t f v s1] upd_spent [OF assms, of t f v s1]
    show ?thesis by (intro that [of None s1]) (auto simp: known_def)
  qed
next
  case (Remove t)
  show ?thesis
  proof (cases "del s t")
    case None
    with Remove assms show ?thesis by (intro that) auto
  next
    case (Some p)
    then obtain v s1 where "del s t = Some (v, s1)" by (cases p) auto
    with Remove assms del_some [OF assms, of t v s1] del_spent [OF assms, of t v s1]
    show ?thesis by (intro that [of None s1]) (auto simp: known_def)
  qed
qed

text \<open>
  One induction gives everything a client needs of a history: it does not panic, it keeps the
  invariant, tokens known before stay known and are never issued again, spent tokens stay spent,
  and a value whose token no call names is still there.
\<close>

lemma exec_facts:
  assumes "inv s"
  shows "\<exists>ts s'. table_exec ins upd del s ops = Return (ts, s') \<and> inv s' \<and> distinct ts \<and>
           (\<forall>t. known s t \<longrightarrow> known s' t \<and> t \<notin> set ts) \<and> (\<forall>t. spent s t \<longrightarrow> spent s' t) \<and>
           (\<forall>t v. look s t = Some v \<longrightarrow> (\<forall>op \<in> set ops. \<not> names_token op t) \<longrightarrow> look s' t = Some v)"
  using assms
proof (induction ops arbitrary: s)
  case Nil
  then show ?case by simp
next
  case (Cons op ops)
  obtain r s1 where st: "table_step ins upd del s op = Return (r, s1)" and "inv s1"
    and k: "\<And>t. known s t \<Longrightarrow> known s1 t \<and> r \<noteq> Some t" "\<And>t. r = Some t \<Longrightarrow> known s1 t"
    and sp: "\<And>t. spent s t \<Longrightarrow> spent s1 t"
    and lk: "\<And>t v. look s t = Some v \<Longrightarrow> \<not> names_token op t \<Longrightarrow> look s1 t = Some v"
    using Cons.prems by (rule step_facts) blast
  from Cons.IH [OF \<open>inv s1\<close>] obtain ts s' where
    run: "table_exec ins upd del s1 ops = Return (ts, s')" and i: "inv s'" "distinct ts"
    and k': "\<And>t. known s1 t \<Longrightarrow> known s' t \<and> t \<notin> set ts"
    and sp': "\<And>t. spent s1 t \<Longrightarrow> spent s' t"
    and lk': "\<And>t v. look s1 t = Some v \<Longrightarrow> \<forall>op \<in> set ops. \<not> names_token op t \<Longrightarrow> look s' t = Some v"
    by blast
  let ?ts = "case_option ts (\<lambda>t. t # ts) r"
  have "table_exec ins upd del s (op # ops) = Return (?ts, s')" by (simp add: st run)
  moreover have "distinct ?ts" using i k(2) k' by (auto split: option.split)
  moreover have "known s t \<Longrightarrow> known s' t \<and> t \<notin> set ?ts" for t
    using k(1) k' by (auto split: option.split)
  moreover have "look s t = Some v \<Longrightarrow> \<forall>op \<in> set (op # ops). \<not> names_token op t \<Longrightarrow> look s' t = Some v"
    for t v using lk lk' by simp
  ultimately show ?case using i(1) sp sp' by blast
qed

lemma tokens_unique:
  assumes "inv s"
  shows "\<exists>ts s'. table_exec ins upd del s ops = Return (ts, s') \<and> inv s' \<and> distinct ts"
  using exec_facts [OF assms, of ops] by blast

lemma issued_satisfy:
  assumes "\<And>s v t s'. inv s \<Longrightarrow> ins s v = Return (Inr t, s') \<Longrightarrow> P t"
  shows "inv s \<Longrightarrow> table_exec ins upd del s ops = Return (ts, s') \<Longrightarrow> t \<in> set ts \<Longrightarrow> P t"
proof (induction ops arbitrary: s ts)
  case Nil
  then show ?case by simp
next
  case (Cons op ops)
  obtain r s1 where st: "table_step ins upd del s op = Return (r, s1)" and "inv s1"
    using Cons.prems(1) by (rule step_facts) blast
  moreover have "r = Some u \<Longrightarrow> P u" for u
    using st assms [OF Cons.prems(1)] by (cases op) (auto split: outcome.splits prod.splits sum.splits)
  ultimately show ?case using Cons.prems Cons.IH [OF \<open>inv s1\<close>]
    by (auto split: outcome.splits option.splits)
qed

lemma removed_stays_dead:
  assumes "inv s" "del s t = Some (v, s1)" "table_exec ins upd del s1 ops = Return (ts, s')"
  shows "look s' t = None \<and> del s' t = None \<and> t \<notin> set ts"
proof -
  from del_some [OF assms(1,2)] have "inv s1" "spent s1 t" by auto
  with exec_facts [OF \<open>inv s1\<close>, of ops] assms(3) have "inv s'" "spent s' t" "t \<notin> set ts"
    by (auto simp: known_def)
  then show ?thesis by (simp add: spent_look del_none)
qed

lemma inserted_stays:
  assumes "inv s" "ins s v = Return (Inr t, s1)" "table_exec ins upd del s1 ops = Return (ts, s')"
    and "\<forall>op \<in> set ops. \<not> names_token op t"
  shows "look s' t = Some v \<and> t \<notin> set ts"
proof -
  have "inv s1" "look s1 t = Some v" using ins_inv ins_look assms(1,2) by fastforce+
  with exec_facts [OF \<open>inv s1\<close>, of ops] assms(3,4) show ?thesis by (auto simp: known_def)
qed

end

end
