(* ===== verification/Slab.thy ===== *)
theory Slab
  imports Completion_Table
begin

text \<open>
  The fixed-capacity completion table of \<^verbatim>\<open>crates/dn-runtime/src/slab.rs\<close>: slots with a
  generation counter, a free stack, and tokens that name a slot at one generation.
\<close>

section \<open>The table\<close>

record token =
  tok_index :: nat
  tok_generation :: u64

record 'a slot =
  slot_generation :: u64
  slot_value :: "'a option"

record 'a slab =
  slots :: "'a slot list"
  free :: "nat list"

definition slab_new :: "nat \<Rightarrow> 'a slab" where
  "slab_new capacity =
     \<lparr> slots = map (\<lambda>_. \<lparr> slot_generation = 0, slot_value = None \<rparr>) [0..<Suc capacity],
       free = rev [1..<Suc capacity] \<rparr>"

text \<open>\<open>self.slots.len() - 1\<close> underflows, and so panics, only on a table with no slot at all.\<close>

definition slab_capacity :: "'a slab \<Rightarrow> nat outcome" where
  "slab_capacity s = (if slots s = [] then Panic else Return (length (slots s) - 1))"

definition slab_insert :: "'a slab \<Rightarrow> 'a \<Rightarrow> (('a + token) \<times> 'a slab) outcome" where
  "slab_insert s v =
     (case vec_pop (free s) of
        None \<Rightarrow> Return (Inl v, s)
      | Some (index, rest) \<Rightarrow>
          (case nth_opt (slots s) index of
             None \<Rightarrow> Panic
           | Some slot \<Rightarrow>
               Return (Inr \<lparr> tok_index = index, tok_generation = slot_generation slot \<rparr>,
                       s\<lparr> slots := list_update (slots s) index (slot\<lparr> slot_value := Some v \<rparr>),
                          free := rest \<rparr>)))"

definition slab_get :: "'a slab \<Rightarrow> token \<Rightarrow> 'a option" where
  "slab_get s tok =
     (case nth_opt (slots s) (tok_index tok) of
        None \<Rightarrow> None
      | Some slot \<Rightarrow>
          if slot_generation slot = tok_generation tok then slot_value slot else None)"

text \<open>
  \<open>get_mut\<close> lends the value to the caller, who may overwrite it: the write-back \<open>f\<close> is the
  caller's use of the borrow.
\<close>

definition slab_get_mut :: "'a slab \<Rightarrow> token \<Rightarrow> ('a \<Rightarrow> 'a) \<Rightarrow> ('a \<times> 'a slab) option" where
  "slab_get_mut s tok f =
     (case nth_opt (slots s) (tok_index tok) of
        None \<Rightarrow> None
      | Some slot \<Rightarrow>
          if slot_generation slot \<noteq> tok_generation tok then None
          else case slot_value slot of
                 None \<Rightarrow> None
               | Some v \<Rightarrow>
                   Some (v, s\<lparr> slots := list_update (slots s) (tok_index tok) (slot\<lparr> slot_value := Some (f v) \<rparr>) \<rparr>))"

definition slab_remove :: "'a slab \<Rightarrow> token \<Rightarrow> ('a \<times> 'a slab) option" where
  "slab_remove s tok =
     (case nth_opt (slots s) (tok_index tok) of
        None \<Rightarrow> None
      | Some slot \<Rightarrow>
          if slot_generation slot \<noteq> tok_generation tok then None
          else case slot_value slot of
                 None \<Rightarrow> None
               | Some v \<Rightarrow>
                   let taken = slot\<lparr> slot_value := None \<rparr> in
                   (case checked_add (slot_generation slot) 1 of
                      Some nxt \<Rightarrow>
                        Some (v, s\<lparr> slots := list_update (slots s) (tok_index tok) (taken\<lparr> slot_generation := nxt \<rparr>),
                                    free := free s @ [tok_index tok] \<rparr>)
                    | None \<Rightarrow>
                        Some (v, s\<lparr> slots := list_update (slots s) (tok_index tok) taken \<rparr>)))"

section \<open>Invariant\<close>

text \<open>
  Slot 0 is never free and never holds a value; free slots are empty; an empty slot that is not
  free has used up its generations.
\<close>

definition slab_inv :: "'a slab \<Rightarrow> bool" where
  "slab_inv s \<longleftrightarrow>
     slots s \<noteq> [] \<and> distinct (free s) \<and> 0 \<notin> set (free s) \<and> slot_value (slots s ! 0) = None \<and>
     (\<forall>i \<in> set (free s). i < length (slots s) \<and> slot_value (slots s ! i) = None) \<and>
     (\<forall>i. 0 < i \<longrightarrow> i < length (slots s) \<longrightarrow> i \<notin> set (free s) \<longrightarrow>
        slot_value (slots s ! i) = None \<longrightarrow> slot_generation (slots s ! i) = - 1)"

text \<open>
  A token that can never resolve again: its slot has moved to a later generation, or the slot is
  empty, at the token's generation, and not free (it was retired).
\<close>

definition slab_spent :: "'a slab \<Rightarrow> token \<Rightarrow> bool" where
  "slab_spent s tok \<longleftrightarrow>
     tok_index tok < length (slots s) \<and>
     (let slot = slots s ! tok_index tok in
      tok_generation tok < slot_generation slot \<or>
      (tok_generation tok = slot_generation slot \<and> slot_value slot = None \<and>
       tok_index tok \<notin> set (free s)))"

lemmas slab_defs = slab_insert_def slab_get_def slab_get_mut_def slab_remove_def

lemma slab_new_inv: "slab_inv (slab_new c)"
  by (auto simp: slab_inv_def slab_new_def nth_append)

text \<open>What each call does when it succeeds, in terms of the slot it names.\<close>

lemma slab_insert_Inr:
  "slab_insert s v = Return (Inr tok, s') \<longleftrightarrow>
     (\<exists>rest. free s = rest @ [tok_index tok] \<and> tok_index tok < length (slots s) \<and>
        tok_generation tok = slot_generation (slots s ! tok_index tok) \<and>
        s' = s\<lparr> slots := list_update (slots s) (tok_index tok)
                  ((slots s ! tok_index tok)\<lparr> slot_value := Some v \<rparr>), free := rest \<rparr>)"
  by (auto simp: slab_insert_def split: option.splits)

lemma slab_insert_Inl:
  "slab_insert s v = Return (Inl w, s') \<longleftrightarrow> free s = [] \<and> w = v \<and> s' = s"
  by (auto simp: slab_insert_def split: option.splits)

lemma slab_get_Some:
  "slab_get s tok = Some v \<longleftrightarrow>
     tok_index tok < length (slots s) \<and> slot_generation (slots s ! tok_index tok) = tok_generation tok \<and>
     slot_value (slots s ! tok_index tok) = Some v"
  by (auto simp: slab_get_def split: option.splits if_splits)

lemma slab_get_mut_Some:
  "slab_get_mut s tok f = Some (v, s') \<longleftrightarrow>
     slab_get s tok = Some v \<and>
     s' = s\<lparr> slots := list_update (slots s) (tok_index tok)
               ((slots s ! tok_index tok)\<lparr> slot_value := Some (f v) \<rparr>) \<rparr>"
  by (auto simp: slab_get_mut_def slab_get_def split: option.splits if_splits)

lemma slab_get_mut_None: "slab_get_mut s tok f = None \<longleftrightarrow> slab_get s tok = None"
  by (auto simp: slab_get_mut_def slab_get_def split: option.splits if_splits)

lemma slab_remove_None: "slab_remove s tok = None \<longleftrightarrow> slab_get s tok = None"
  by (auto simp: slab_remove_def slab_get_def Let_def split: option.splits if_splits)

lemma generation_step:
  "checked_add (g :: u64) 1 = Some g' \<Longrightarrow> g' = g + 1 \<and> g < g + 1"
  by (auto simp: checked_add_def word_less_nat_alt unat_word_ariths split: if_splits)

lemma generation_spent: "checked_add (g :: u64) 1 = None \<Longrightarrow> g = - 1"
  using unsigned_less [of g, where ?'a = nat]
  by (simp add: checked_add_def word_unat_eq_iff unsigned_minus_1_eq_mask mask_eq_exp_minus_1 split: if_splits)

lemma slab_remove_Some:
  "slab_remove s tok = Some (v, s') \<longleftrightarrow>
     slab_get s tok = Some v \<and>
     s' = (let slot = slots s ! tok_index tok in
           case checked_add (slot_generation slot) 1 of
             Some nxt \<Rightarrow> s\<lparr> slots := list_update (slots s) (tok_index tok)
                              (slot\<lparr> slot_value := None, slot_generation := nxt \<rparr>),
                           free := free s @ [tok_index tok] \<rparr>
           | None \<Rightarrow> s\<lparr> slots := list_update (slots s) (tok_index tok)
                          (slot\<lparr> slot_value := None \<rparr>) \<rparr>)"
  by (auto simp: slab_remove_def slab_get_def Let_def split: option.splits if_splits)

lemma slab_insert_returns: "slab_inv s \<Longrightarrow> slab_insert s v \<noteq> Panic"
  by (auto simp: slab_inv_def slab_insert_def split: option.splits)

lemma slab_insert_inv:
  assumes "slab_inv s" "slab_insert s v = Return (Inr tok, s')"
  shows "slab_inv s'"
  using assms unfolding slab_insert_Inr
  by (auto simp: slab_inv_def nth_list_update_if split: if_splits)

text \<open>A slot that a token resolves to is neither slot 0 nor free.\<close>

lemma slab_get_occupied:
  assumes "slab_inv s" "slab_get s tok = Some v"
  shows "tok_index tok \<noteq> 0" "tok_index tok \<notin> set (free s)"
  using assms by (auto simp: slab_inv_def slab_get_Some intro: gr0I)

lemma slab_get_mut_inv:
  assumes "slab_inv s" "slab_get_mut s tok f = Some (v, s')"
  shows "slab_inv s'"
proof -
  from assms(2) have get: "slab_get s tok = Some v"
    and s': "s' = s\<lparr> slots := list_update (slots s) (tok_index tok)
                ((slots s ! tok_index tok)\<lparr> slot_value := Some (f v) \<rparr>) \<rparr>"
    by (simp_all add: slab_get_mut_Some)
  show ?thesis
    using assms(1) slab_get_occupied [OF assms(1) get]
    by (auto simp: s' slab_inv_def nth_list_update_if)
qed

lemma slab_remove_inv:
  assumes "slab_inv s" "slab_remove s tok = Some (v, s')"
  shows "slab_inv s'"
proof -
  from assms(2) have get: "slab_get s tok = Some v" by (simp add: slab_remove_Some)
  then have "tok_index tok < length (slots s)" by (simp add: slab_get_Some)
  then show ?thesis
    using assms slab_get_occupied [OF assms(1) get]
    by (auto simp: slab_remove_Some slab_inv_def nth_list_update_if Let_def
          split: option.splits dest: generation_spent)
qed

lemma token_eq_iff:
  "t = u \<longleftrightarrow> tok_index t = tok_index u \<and> tok_generation t = tok_generation (u :: token)"
  by (auto intro: token.equality)

text \<open>Writing one slot changes what the tokens of that slot resolve to, and nothing else.\<close>

lemma slab_get_write:
  assumes "i < length (slots s)"
  shows "slab_get (s\<lparr> slots := list_update (slots s) i slot \<rparr>) u =
     (if tok_index u = i
      then if slot_generation slot = tok_generation u then slot_value slot else None
      else slab_get s u)"
  using assms by (simp add: slab_get_def nth_opt_def nth_list_update_if)

lemma slab_get_free [simp]: "slab_get (s\<lparr> free := fr \<rparr>) = slab_get s"
  by (simp add: fun_eq_iff slab_get_def)

lemma slab_insert_get:
  assumes "slab_inv s" "slab_insert s v = Return (Inr tok, s')"
  shows "slab_get s' = (slab_get s)(tok \<mapsto> v)"
proof
  fix u
  let ?i = "tok_index tok"
  from assms(2) obtain rest where fr: "free s = rest @ [?i]" and i: "?i < length (slots s)"
    and g: "tok_generation tok = slot_generation (slots s ! ?i)"
    and s': "s' = s\<lparr> slots := list_update (slots s) ?i ((slots s ! ?i)\<lparr> slot_value := Some v \<rparr>) \<rparr>\<lparr> free := rest \<rparr>"
    by (auto simp: slab_insert_Inr)
  have "slot_value (slots s ! ?i) = None" using assms(1) fr by (simp add: slab_inv_def)
  then have "tok_index u = ?i \<Longrightarrow> slab_get s u = None" using i by (simp add: slab_get_def nth_opt_def)
  then show "slab_get s' u = ((slab_get s)(tok \<mapsto> v)) u"
    unfolding s' slab_get_free slab_get_write [OF i] by (auto simp: g token_eq_iff)
qed

lemma slab_get_mut_get:
  assumes "slab_get_mut s tok f = Some (v, s')"
  shows "slab_get s' = (slab_get s)(tok \<mapsto> f v)"
proof
  fix u
  let ?i = "tok_index tok"
  from assms have get: "slab_get s tok = Some v"
    and s': "s' = s\<lparr> slots := list_update (slots s) ?i ((slots s ! ?i)\<lparr> slot_value := Some (f v) \<rparr>) \<rparr>"
    by (simp_all add: slab_get_mut_Some)
  from get have i: "?i < length (slots s)" and g: "slot_generation (slots s ! ?i) = tok_generation tok"
    by (simp_all add: slab_get_Some)
  have "tok_index u = ?i \<Longrightarrow> tok_generation u \<noteq> tok_generation tok \<Longrightarrow> slab_get s u = None"
    using g i by (simp add: slab_get_def nth_opt_def)
  then show "slab_get s' u = ((slab_get s)(tok \<mapsto> f v)) u"
    unfolding s' slab_get_write [OF i] by (auto simp: g token_eq_iff)
qed

lemma slab_remove_get:
  assumes "slab_remove s tok = Some (v, s')"
  shows "slab_get s' = (slab_get s)(tok := None)"
proof
  fix u
  let ?i = "tok_index tok"
  from assms have get: "slab_get s tok = Some v" by (simp add: slab_remove_Some)
  then have i: "?i < length (slots s)" and g: "slot_generation (slots s ! ?i) = tok_generation tok"
    by (simp_all add: slab_get_Some)
  have same: "tok_index u = ?i \<Longrightarrow> tok_generation u \<noteq> tok_generation tok \<Longrightarrow> slab_get s u = None"
    using g i by (simp add: slab_get_def nth_opt_def)
  obtain slot fr where "slot_value slot = None"
    and "s' = s\<lparr> slots := list_update (slots s) ?i slot \<rparr>\<lparr> free := fr \<rparr>"
  proof (cases "checked_add (slot_generation (slots s ! ?i)) 1")
    case None
    with assms that [of "(slots s ! ?i)\<lparr> slot_value := None \<rparr>" "free s"] show ?thesis
      by (simp add: slab_remove_Some Let_def)
  next
    case (Some g')
    with assms that [of "(slots s ! ?i)\<lparr> slot_value := None, slot_generation := g' \<rparr>" "free s @ [?i]"]
    show ?thesis by (simp add: slab_remove_Some Let_def)
  qed
  then show "slab_get s' u = ((slab_get s)(tok := None)) u"
    using same by (auto simp: slab_get_write [OF i] token_eq_iff)
qed

lemma slab_insert_spent:
  assumes "slab_inv s" "slab_insert s v = Return (Inr tok, s')" "slab_spent s u"
  shows "slab_spent s' u"
  using assms unfolding slab_insert_Inr
  by (auto simp: slab_spent_def Let_def nth_list_update_if split: if_splits)

lemma slab_get_mut_spent:
  assumes "slab_get_mut s tok f = Some (v, s')" "slab_spent s u"
  shows "slab_spent s' u"
  using assms unfolding slab_get_mut_Some
  by (auto simp: slab_spent_def slab_get_Some Let_def nth_list_update_if)

lemma slab_remove_spent:
  assumes "slab_inv s" "slab_remove s tok = Some (v, s')" "slab_spent s u \<or> u = tok"
  shows "slab_spent s' u"
proof -
  from assms(2) have get: "slab_get s tok = Some v" by (simp add: slab_remove_Some)
  note occ = slab_get_occupied(2) [OF assms(1) get]
  show ?thesis
  proof (cases "checked_add (slot_generation (slots s ! tok_index tok)) 1")
    case None
    with assms(2,3) occ show ?thesis
      by (auto simp: slab_remove_Some slab_spent_def slab_get_Some Let_def nth_list_update_if)
  next
    case (Some g)
    note g = generation_step [OF Some]
    have "u = tok \<or> tok_index u \<noteq> tok_index tok \<or> tok_generation u < slot_generation (slots s ! tok_index tok)"
      using assms(3) get by (auto simp: slab_spent_def slab_get_Some Let_def)
    with assms(2,3) Some g show ?thesis
      by (auto simp: slab_remove_Some slab_spent_def slab_get_Some Let_def nth_list_update_if)
  qed
qed

interpretation slab: completion_table slab_insert slab_get slab_get_mut slab_remove slab_inv slab_spent
proof (unfold_locales, goal_cases)
  case (1 s v)
  then show ?case by (rule slab_insert_returns)
next
  case (2 s v w s')
  then show ?case by (simp add: slab_insert_Inl)
next
  case (3 s v t s')
  then show ?case by (rule slab_insert_inv)
next
  case (4 s v t s')
  then show ?case unfolding slab_insert_Inr
    by (auto simp: slab_inv_def slab_spent_def slab_get_def nth_opt_def Let_def)
next
  case (5 s v t s')
  then show ?case by (rule slab_insert_get)
next
  case (6 s v t s' u)
  then show ?case by (rule slab_insert_spent)
next
  case (7 s t f)
  show ?case by (rule slab_get_mut_None)
next
  case (8 s t f v s')
  then have "slab_get s t = Some v" by (simp add: slab_get_mut_Some)
  with 8 show ?case using slab_get_mut_inv [OF 8] slab_get_mut_get [OF 8(2)] by simp
next
  case (9 s t f v s' u)
  from 9(2,3) show ?case by (rule slab_get_mut_spent)
next
  case (10 s t)
  show ?case by (rule slab_remove_None)
next
  case (11 s t v s')
  then have "slab_get s t = Some v" by (simp add: slab_remove_Some)
  with 11 show ?case using slab_remove_inv [OF 11] slab_remove_get [OF 11(2)] slab_remove_spent [OF 11] by simp
next
  case (12 s t v s' u)
  then show ?case using slab_remove_spent [OF 12(1,2)] by simp
next
  case (13 s t)
  then show ?case by (auto simp: slab_spent_def slab_get_def nth_opt_def Let_def split: if_splits)
qed

section \<open>Properties\<close>

text \<open>C1: From an empty slab of any capacity, no sequence of insertions, borrows and removals
  panics, every token handed out is different from every other one ever handed out (a slot is
  reused only under a new generation, and retired rather than wrapped), and no token names the
  reserved slot 0.\<close>

theorem slab_tokens_never_repeat:
  "\<exists>ts s. table_exec slab_insert slab_get_mut slab_remove (slab_new capacity) ops = Return (ts, s) \<and>
     slab_inv s \<and> distinct ts \<and> 0 \<notin> tok_index ` set ts"
proof -
  obtain ts s where run: "table_exec slab_insert slab_get_mut slab_remove (slab_new capacity) ops = Return (ts, s)"
    and "slab_inv s" "distinct ts"
    using slab.tokens_unique [OF slab_new_inv] by blast
  moreover have "tok_index t \<noteq> 0" if "t \<in> set ts" for t
    by (rule slab.issued_satisfy [OF _ slab_new_inv run that]) (auto simp: slab_insert_Inr slab_inv_def)
  ultimately show ?thesis by (metis imageE)
qed

text \<open>C2: Once a token has been removed, it never resolves again, whatever calls follow: lookup and
  removal through it answer \<open>None\<close>, and it is not issued a second time. This is the guarantee
  that a late completion cannot touch the connection that reuses the slot.\<close>

theorem slab_stale_token_is_dead:
  assumes "slab_inv s" "slab_remove s tok = Some (v, s1)"
    and "table_exec slab_insert slab_get_mut slab_remove s1 ops = Return (ts, s')"
  shows "slab_get s' tok = None \<and> slab_remove s' tok = None \<and> tok \<notin> set ts"
  using assms by (rule slab.removed_stays_dead)

theorem slab_stale_token_is_dead_witness:
  "\<exists>s s1 s' ts tok. slab_remove s tok = Some (7 :: nat, s1) \<and>
     table_exec slab_insert slab_get_mut slab_remove s1 [Insert 8] = Return (ts, s') \<and> ts \<noteq> [] \<and>
     slab_get s' tok = None \<and> slab_remove s' tok = None \<and> tok \<notin> set ts"
proof -
  let ?tok = "\<lparr> tok_index = 1, tok_generation = 0 \<rparr>"
  let ?s = "\<lparr> slots = [\<lparr> slot_generation = 0, slot_value = None \<rparr>,
                      \<lparr> slot_generation = 0, slot_value = Some (7 :: nat) \<rparr>], free = [] \<rparr>"
  let ?s1 = "\<lparr> slots = [\<lparr> slot_generation = 0, slot_value = None \<rparr>,
                       \<lparr> slot_generation = 1, slot_value = None \<rparr>], free = [1] \<rparr>"
  have inv: "slab_inv ?s" by (auto simp: slab_inv_def less_Suc_eq)
  have rem: "slab_remove ?s ?tok = Some (7, ?s1)"
    by (simp add: slab_remove_def nth_opt_def checked_add_def)
  obtain ts s' where "ts \<noteq> []"
    and run: "table_exec slab_insert slab_get_mut slab_remove ?s1 [Insert (8 :: nat)] = Return (ts, s')"
    by (auto simp: slab_insert_def vec_pop_def nth_opt_def)
  with slab_stale_token_is_dead [OF inv rem run] rem show ?thesis by blast
qed

text \<open>C3: A slab implements a partial map from tokens to values. An insertion never panics: it adds
  exactly one fresh binding, or hands the value back with the slab unchanged, and then every slot
  is occupied or retired at the last generation. A borrow updates exactly the binding it names and
  a removal deletes exactly it; both answer \<open>None\<close> exactly on a token that does not resolve.\<close>

theorem slab_refines_map:
  assumes "slab_inv s"
  shows "(case slab_insert s v of
            Panic \<Rightarrow> False
          | Return (Inl w, s') \<Rightarrow> w = v \<and> s' = s \<and>
              (\<forall>i. 0 < i \<and> i < length (slots s) \<longrightarrow>
                 slot_value (slots s ! i) \<noteq> None \<or> slot_generation (slots s ! i) = - 1)
          | Return (Inr t, s') \<Rightarrow>
              slab_inv s' \<and> slab_get s t = None \<and> slab_get s' = (slab_get s)(t \<mapsto> v)) \<and>
         (case slab_get_mut s tok f of
            None \<Rightarrow> slab_get s tok = None
          | Some (w, s') \<Rightarrow>
              slab_inv s' \<and> slab_get s tok = Some w \<and> slab_get s' = (slab_get s)(tok \<mapsto> f w)) \<and>
         (case slab_remove s tok of
            None \<Rightarrow> slab_get s tok = None
          | Some (w, s') \<Rightarrow>
              slab_inv s' \<and> slab_get s tok = Some w \<and> slab_get s' = (slab_get s)(tok := None))"
proof -
  have "free s = [] \<Longrightarrow> \<forall>i. 0 < i \<and> i < length (slots s) \<longrightarrow>
          slot_value (slots s ! i) \<noteq> None \<or> slot_generation (slots s ! i) = - 1"
    using assms by (auto simp: slab_inv_def)
  then show ?thesis
    using slab.ins_returns [OF assms, of v] slab.ins_inv [OF assms, of v] slab.ins_fresh [OF assms, of v]
      slab.ins_look [OF assms, of v] slab.upd_none [OF assms, of tok f] slab.upd_some [OF assms, of tok f]
      slab.del_none [OF assms, of tok] slab.del_some [OF assms, of tok]
    by (auto simp: slab_insert_Inl split: outcome.splits sum.splits option.splits)
qed

theorem slab_refines_map_witness:
  "slab_inv (slab_new 2 :: nat slab) \<and>
   (case slab_insert (slab_new 2) (5 :: nat) of
      Return (Inr t, s') \<Rightarrow> slab_get (slab_new 2 :: nat slab) t = None \<and> slab_get s' t = Some (5 :: nat)
    | _ \<Rightarrow> False)"
proof -
  have "\<exists>t s'. slab_insert (slab_new 2) (5 :: nat) = Return (Inr t, s')"
    by (simp add: slab_insert_def slab_new_def vec_pop_def nth_opt_def upt_rec)
  then obtain t s' where "slab_insert (slab_new 2) (5 :: nat) = Return (Inr t, s')" by blast
  with slab_refines_map [OF slab_new_inv [of 2], of "5 :: nat" t id] slab_new_inv [of 2] show ?thesis by simp
qed

end
