(* ===== verification/Admission.thy ===== *)
theory Admission
  imports Prelude "HOL-Library.Multiset"
begin

text \<open>
  The contract of an admission gate: a bounded counter with an atomic reservation that either
  takes one slot or refuses, and a release that gives one slot back. The process-wide connection
  permits of \<^verbatim>\<open>crates/dn-runtime/src/limit.rs\<close> and the process ceiling of
  \<^verbatim>\<open>standing.rs\<close> both implement it.
\<close>

datatype gate_op = Acquire | Release

text \<open>
  A history of the gate together with the number of slots its callers hold. A release is only
  ever made by a holder (the permit's \<open>Drop\<close>, the close funnel), so a history without a holder
  skips it.
\<close>

fun gate_exec :: "('s \<Rightarrow> 's option) \<Rightarrow> ('s \<Rightarrow> 's) \<Rightarrow> 's \<times> nat \<Rightarrow> gate_op list \<Rightarrow> 's \<times> nat" where
  "gate_exec acq rel (s, held) [] = (s, held)"
| "gate_exec acq rel (s, held) (Acquire # ops) =
     (case acq s of
        None \<Rightarrow> gate_exec acq rel (s, held) ops
      | Some s' \<Rightarrow> gate_exec acq rel (s', Suc held) ops)"
| "gate_exec acq rel (s, held) (Release # ops) =
     (if held = 0 then gate_exec acq rel (s, held) ops
      else gate_exec acq rel (rel s, held - 1) ops)"

locale admission_gate =
  fixes acq :: "'s \<Rightarrow> 's option"
    and rel :: "'s \<Rightarrow> 's"
    and level :: "'s \<Rightarrow> nat"
    and bound :: "nat option"
    and inv :: "'s \<Rightarrow> bool"
  assumes acq_None: "inv s \<Longrightarrow> acq s = None \<longleftrightarrow> (\<exists>m. bound = Some m \<and> m \<le> level s)"
    and acq_Some: "inv s \<Longrightarrow> acq s = Some s' \<Longrightarrow> inv s' \<and> level s' = Suc (level s)"
    and rel_level: "inv s \<Longrightarrow> 0 < level s \<Longrightarrow> inv (rel s) \<and> level (rel s) = level s - 1"
begin

definition within :: "'s \<Rightarrow> bool" where
  "within s \<longleftrightarrow> inv s \<and> (\<forall>m. bound = Some m \<longrightarrow> level s \<le> m)"

lemma acq_within: "within s \<Longrightarrow> acq s = Some s' \<Longrightarrow> within s'"
  using acq_Some [of s s'] acq_None [of s] by (fastforce simp: within_def)

lemma rel_within: "within s \<Longrightarrow> 0 < level s \<Longrightarrow> within (rel s)"
  using rel_level [of s] by (fastforce simp: within_def)

text \<open>The counter is exactly the number of holders, and never above the bound.\<close>

lemma exec_exact:
  assumes "within s" "level s = held" "gate_exec acq rel (s, held) ops = (s', held')"
  shows "within s' \<and> level s' = held'"
  using assms
proof (induction ops arbitrary: s held)
  case (Cons op ops)
  then have "inv s" by (simp add: within_def)
  show ?case
  proof (cases op)
    case Acquire
    with Cons show ?thesis
      using acq_Some [OF \<open>inv s\<close>] acq_within [of s] by (auto split: option.splits)
  next
    case Release
    with Cons show ?thesis
      using rel_level [OF \<open>inv s\<close>] rel_within [of s] by (auto split: if_splits)
  qed
qed simp

lemma exec_bounded:
  assumes "within s" "level s = held" "gate_exec acq rel (s, held) ops = (s', held')"
    and "bound = Some m"
  shows "held' \<le> m \<and> (acq s' = None \<longleftrightarrow> held' = m)"
proof -
  from exec_exact [OF assms(1-3)] have i: "inv s'" and l: "level s' = held'"
    and m: "\<And>m. bound = Some m \<Longrightarrow> level s' \<le> m"
    unfolding within_def by blast+
  from m [OF assms(4)] acq_None [OF i] show ?thesis using l assms(4) by auto
qed

end

end
