(* ===== verification/Conn_Limit.thy ===== *)
theory Conn_Limit
  imports Admission
begin

text \<open>
  The process-wide connection permits of \<^verbatim>\<open>crates/dn-runtime/src/limit.rs\<close>. First the gate as
  its callers see it (one atomic update per call), then the same code at the granularity of its
  atomic instructions: \<open>fetch_update\<close> is a load followed by a compare-exchange loop, and any
  number of threads interleave.
\<close>

section \<open>The gate\<close>

record connection_limit =
  limit_maximum :: nat
  limit_used :: nat

definition limit_new :: "nat \<Rightarrow> connection_limit" where
  "limit_new m = \<lparr> limit_maximum = m, limit_used = 0 \<rparr>"

text \<open>The closure passed to \<open>fetch_update\<close>: the next count, or \<open>None\<close> at the limit.\<close>

definition limit_next :: "connection_limit \<Rightarrow> nat \<Rightarrow> nat option" where
  "limit_next l used = (if used < limit_maximum l then Some (used + 1) else None)"

definition try_acquire :: "connection_limit \<Rightarrow> connection_limit option" where
  "try_acquire l =
     (case limit_next l (limit_used l) of
        None \<Rightarrow> None
      | Some n \<Rightarrow> Some (l\<lparr> limit_used := n \<rparr>))"

text \<open>
  \<open>Permit::drop\<close>: \<open>fetch_sub(1)\<close>, and the assertion that the previous value was not 0.
\<close>

definition permit_drop :: "connection_limit \<Rightarrow> connection_limit outcome" where
  "permit_drop l =
     (if limit_used l = 0 then Panic else Return (l\<lparr> limit_used := limit_used l - 1 \<rparr>))"

definition permit_release :: "connection_limit \<Rightarrow> connection_limit" where
  "permit_release l = (case permit_drop l of Panic \<Rightarrow> l | Return l' \<Rightarrow> l')"

interpretation limit: admission_gate try_acquire permit_release limit_used "Some m" "\<lambda>l. limit_maximum l = m" for m
  by unfold_locales
     (auto simp: try_acquire_def limit_next_def permit_release_def permit_drop_def
        split: option.splits if_splits)

section \<open>The gate under interleaving\<close>

text \<open>
  A thread is idle, inside \<open>fetch_update\<close> with the value it last observed, or holds a permit.
\<close>

datatype limit_pc = Idle | Observed nat | Holding

record limit_sys =
  gate :: connection_limit
  pcs :: "nat \<Rightarrow> limit_pc"

inductive limit_step :: "limit_sys \<Rightarrow> limit_sys \<Rightarrow> bool" where
  load: "pcs s i = Idle \<Longrightarrow>
     limit_step s (s\<lparr> pcs := (pcs s)(i := Observed (limit_used (gate s))) \<rparr>)"
| refuse: "pcs s i = Observed u \<Longrightarrow> limit_next (gate s) u = None \<Longrightarrow>
     limit_step s (s\<lparr> pcs := (pcs s)(i := Idle) \<rparr>)"
| exchange: "pcs s i = Observed u \<Longrightarrow> limit_next (gate s) u = Some n \<Longrightarrow> limit_used (gate s) = u \<Longrightarrow>
     limit_step s (s\<lparr> gate := (gate s)\<lparr> limit_used := n \<rparr>, pcs := (pcs s)(i := Holding) \<rparr>)"
| retry: "pcs s i = Observed u \<Longrightarrow> limit_next (gate s) u = Some n \<Longrightarrow>
     limit_step s (s\<lparr> pcs := (pcs s)(i := Observed (limit_used (gate s))) \<rparr>)"
| drop: "pcs s i = Holding \<Longrightarrow> permit_drop (gate s) = Return g \<Longrightarrow>
     limit_step s (s\<lparr> gate := g, pcs := (pcs s)(i := Idle) \<rparr>)"

inductive limit_reachable :: "nat \<Rightarrow> limit_sys \<Rightarrow> bool" for m where
  limit_start: "limit_reachable m \<lparr> gate = limit_new m, pcs = (\<lambda>_. Idle) \<rparr>"
| limit_next_state: "limit_reachable m s \<Longrightarrow> limit_step s t \<Longrightarrow> limit_reachable m t"

definition holders :: "(nat \<Rightarrow> limit_pc) \<Rightarrow> nat set" where
  "holders pc = {i. pc i = Holding}"

definition limit_inv :: "nat \<Rightarrow> limit_sys \<Rightarrow> bool" where
  "limit_inv m s \<longleftrightarrow>
     finite (holders (pcs s)) \<and> limit_used (gate s) = card (holders (pcs s)) \<and>
     limit_maximum (gate s) = m \<and> card (holders (pcs s)) \<le> m"

lemma holders_upd [simp]:
  "holders (pc(i := Holding)) = insert i (holders pc)"
  "p \<noteq> Holding \<Longrightarrow> holders (pc(i := p)) = holders pc - {i}"
  by (auto simp: holders_def)

lemma limit_step_inv: "limit_step s t \<Longrightarrow> limit_inv m s \<Longrightarrow> limit_inv m t"
proof (induction rule: limit_step.induct)
  case (load s i)
  then have "i \<notin> holders (pcs s)" by (simp add: holders_def)
  with load show ?case by (simp add: limit_inv_def)
next
  case (refuse s i u)
  then have "i \<notin> holders (pcs s)" by (simp add: holders_def)
  with refuse show ?case by (simp add: limit_inv_def)
next
  case (exchange s i u n)
  then have "i \<notin> holders (pcs s)" by (simp add: holders_def)
  with exchange show ?case
    by (auto simp: limit_inv_def limit_next_def split: if_splits)
next
  case (retry s i u n)
  then have "i \<notin> holders (pcs s)" by (simp add: holders_def)
  with retry show ?case by (simp add: limit_inv_def)
next
  case (drop s i g)
  then have "i \<in> holders (pcs s)" by (simp add: holders_def)
  moreover from drop have "g = (gate s)\<lparr> limit_used := limit_used (gate s) - 1 \<rparr>"
    by (simp add: permit_drop_def split: if_splits)
  ultimately show ?case
    using drop.prems by (auto simp: limit_inv_def card_Diff_singleton)
qed

lemma limit_reachable_inv: "limit_reachable m s \<Longrightarrow> limit_inv m s"
proof (induction rule: limit_reachable.induct)
  case limit_start
  show ?case by (simp add: limit_inv_def limit_new_def holders_def)
next
  case (limit_next_state s t)
  then show ?case by (blast intro: limit_step_inv)
qed

section \<open>Properties\<close>

text \<open>C9: However the atomic instructions of any number of threads interleave, the counter equals
  the number of permits held, never exceeds the maximum, and a permit's drop never releases a slot
  that is not held (its assertion cannot fail).\<close>

theorem connection_limit_exact:
  assumes "limit_reachable m s"
  shows "limit_used (gate s) = card (holders (pcs s)) \<and> card (holders (pcs s)) \<le> m \<and>
         (pcs s i = Holding \<longrightarrow> permit_drop (gate s) \<noteq> Panic)"
proof -
  from assms have inv: "limit_inv m s" by (rule limit_reachable_inv)
  then have "pcs s i = Holding \<Longrightarrow> limit_used (gate s) \<noteq> 0"
    by (auto simp: limit_inv_def holders_def)
  with inv show ?thesis by (auto simp: limit_inv_def permit_drop_def)
qed

theorem connection_limit_exact_witness:
  "\<exists>s. limit_reachable 1 s \<and> pcs s 0 = Holding \<and> limit_used (gate s) = card (holders (pcs s)) \<and>
       card (holders (pcs s)) \<le> 1 \<and> permit_drop (gate s) \<noteq> Panic"
proof -
  let ?s0 = "\<lparr> gate = limit_new 1, pcs = (\<lambda>_. Idle) \<rparr>"
  let ?s1 = "?s0\<lparr> pcs := (pcs ?s0)(0 := Observed 0) \<rparr>"
  let ?s2 = "?s1\<lparr> gate := (gate ?s1)\<lparr> limit_used := 1 \<rparr>, pcs := (pcs ?s1)(0 := Holding) \<rparr>"
  have "limit_step ?s0 ?s1" using limit_step.load [of ?s0 0] by (simp add: limit_new_def)
  moreover have "limit_step ?s1 ?s2"
    by (rule limit_step.exchange [of _ _ 0]) (simp_all add: limit_new_def limit_next_def)
  ultimately have r: "limit_reachable 1 ?s2"
    using limit_next_state [OF limit_next_state [OF limit_start]] by blast
  have h: "pcs ?s2 0 = Holding" by simp
  show ?thesis using connection_limit_exact [OF r, of 0] r h by blast
qed

text \<open>Over any history of acquisitions and releases by holders, the gate refuses exactly when
  all \<open>m\<close> slots are held, and never admits more than \<open>m\<close>.\<close>

theorem try_acquire_refuses_exactly_when_full:
  assumes "gate_exec try_acquire permit_release (limit_new m, 0) ops = (l, held)"
  shows "limit_used l = held \<and> held \<le> m \<and> (try_acquire l = None \<longleftrightarrow> held = m)"
proof -
  have w: "limit.within m (limit_new m)" "limit_used (limit_new m) = 0"
    by (simp_all add: limit.within_def limit_new_def)
  from limit.exec_exact [OF w assms] limit.exec_bounded [OF w assms refl]
  show ?thesis by simp
qed

theorem try_acquire_refuses_exactly_when_full_witness:
  "\<exists>l. gate_exec try_acquire permit_release (limit_new 2, 0) [Acquire, Acquire, Acquire, Release] = (l, 1) \<and>
     limit_used l = 1 \<and> try_acquire l \<noteq> None"
proof -
  let ?l = "\<lparr> limit_maximum = 2, limit_used = 1 \<rparr>"
  have run: "gate_exec try_acquire permit_release (limit_new 2, 0) [Acquire, Acquire, Acquire, Release] = (?l, 1)"
    by (simp add: try_acquire_def limit_next_def limit_new_def permit_release_def permit_drop_def)
  from try_acquire_refuses_exactly_when_full [OF run] have "try_acquire ?l \<noteq> None" by simp
  with run show ?thesis by (intro exI [of _ ?l]) simp
qed

end
