(* ===== verification/Output_Cursor.thy ===== *)
theory Output_Cursor
  imports Prelude
begin

text \<open>
  The partial-write cursor of \<^verbatim>\<open>crates/dn-runtime/src/output.rs\<close>.
\<close>

datatype over_completion = OverCompletion

record output_cursor =
  cursor_bytes :: bytes
  cursor_sent :: nat

definition cursor_new :: "bytes \<Rightarrow> output_cursor" where
  "cursor_new bs = \<lparr> cursor_bytes = bs, cursor_sent = 0 \<rparr>"

text \<open>\<open>&self.bytes[self.sent..]\<close> panics when \<open>sent\<close> is past the end.\<close>

definition cursor_remaining :: "output_cursor \<Rightarrow> bytes outcome" where
  "cursor_remaining c =
     (if length (cursor_bytes c) < cursor_sent c then Panic
      else Return (drop (cursor_sent c) (cursor_bytes c)))"

definition cursor_is_complete :: "output_cursor \<Rightarrow> bool" where
  "cursor_is_complete c \<longleftrightarrow> cursor_sent c = length (cursor_bytes c)"

text \<open>\<open>self.bytes.len() - self.sent\<close> underflows, and so panics, when \<open>sent\<close> is past the end.\<close>

definition cursor_complete :: "output_cursor \<Rightarrow> nat \<Rightarrow> ((over_completion + unit) \<times> output_cursor) outcome" where
  "cursor_complete c count =
     (if length (cursor_bytes c) < cursor_sent c then Panic
      else if length (cursor_bytes c) - cursor_sent c < count then Return (Inl OverCompletion, c)
      else Return (Inr (), c\<lparr> cursor_sent := cursor_sent c + count \<rparr>))"

text \<open>
  A send loop: the adapter submits what remains, the kernel reports a count, the adapter reports
  it to the cursor. The bytes that went out are the reported prefixes of what was submitted; a
  rejected report sends nothing on.
\<close>

fun send_loop :: "output_cursor \<Rightarrow> nat list \<Rightarrow> (bytes \<times> output_cursor) outcome" where
  "send_loop c [] = Return ([], c)"
| "send_loop c (n # ns) =
     bind_outcome (cursor_remaining c) (\<lambda>rest.
     bind_outcome (cursor_complete c n) (\<lambda>(r, c').
     bind_outcome (send_loop c' ns) (\<lambda>(out, c'').
     Return ((case r of Inl _ \<Rightarrow> [] | Inr _ \<Rightarrow> take n rest) @ out, c''))))"

lemma send_loop_split:
  assumes "cursor_sent c \<le> length (cursor_bytes c)"
  shows "\<exists>out c'. send_loop c ns = Return (out, c') \<and>
     cursor_bytes c' = cursor_bytes c \<and> cursor_sent c' = cursor_sent c + length out \<and>
     cursor_sent c' \<le> length (cursor_bytes c') \<and>
     out @ drop (cursor_sent c') (cursor_bytes c) = drop (cursor_sent c) (cursor_bytes c)"
  using assms
proof (induction ns arbitrary: c)
  case Nil
  then show ?case by simp
next
  case (Cons n ns)
  show ?case
  proof (cases "length (cursor_bytes c) - cursor_sent c < n")
    case True
    with Cons.IH [OF Cons.prems] Cons.prems show ?thesis
      by (auto simp: cursor_remaining_def cursor_complete_def)
  next
    case False
    let ?c = "c\<lparr> cursor_sent := cursor_sent c + n \<rparr>"
    from False Cons.prems have le: "cursor_sent ?c \<le> length (cursor_bytes ?c)" by simp
    from Cons.IH [OF le] obtain out c' where run: "send_loop ?c ns = Return (out, c')"
      and f: "cursor_bytes c' = cursor_bytes c" "cursor_sent c' = cursor_sent c + n + length out"
        "cursor_sent c' \<le> length (cursor_bytes c')"
        "out @ drop (cursor_sent c') (cursor_bytes c) = drop (cursor_sent c + n) (cursor_bytes c)"
      by auto
    let ?pre = "take n (drop (cursor_sent c) (cursor_bytes c))"
    have "send_loop c (n # ns) = Return (?pre @ out, c')"
      using False Cons.prems run by (simp add: cursor_remaining_def cursor_complete_def)
    moreover have "length ?pre = n" using False by simp
    moreover have "?pre @ drop (cursor_sent c + n) (cursor_bytes c) = drop (cursor_sent c) (cursor_bytes c)"
      by (metis add.commute append_take_drop_id drop_drop)
    ultimately show ?thesis using f by auto
  qed
qed

text \<open>Whatever sequence of completion counts the kernel reports, a send loop over a fresh cursor
  does not panic, the bytes sent so far followed by the bytes remaining are exactly the output
  (nothing lost, repeated or reordered, over-reports included), and the cursor is complete exactly
  when all of the output was sent.\<close>

theorem send_loop_preserves_output:
  "\<exists>out c rest. send_loop (cursor_new bs) ns = Return (out, c) \<and>
     cursor_remaining c = Return rest \<and> out @ rest = bs \<and> cursor_sent c = length out \<and>
     (cursor_is_complete c \<longleftrightarrow> out = bs)"
proof -
  have "cursor_sent (cursor_new bs) \<le> length (cursor_bytes (cursor_new bs))"
    by (simp add: cursor_new_def)
  from send_loop_split [OF this, of ns] obtain out c where
    run: "send_loop (cursor_new bs) ns = Return (out, c)"
    and f: "cursor_bytes c = bs" "cursor_sent c = length out" "cursor_sent c \<le> length bs"
      "out @ drop (cursor_sent c) bs = bs"
    by (auto simp: cursor_new_def)
  have "cursor_remaining c = Return (drop (cursor_sent c) bs)"
    using f by (simp add: cursor_remaining_def)
  moreover have "cursor_is_complete c \<longleftrightarrow> out = bs"
    using f by (metis append_eq_conv_conj append_take_drop_id cursor_is_complete_def drop_all le_refl
        append.right_neutral)
  ultimately show ?thesis using run f by blast
qed

end
