(* ===== verification/Refinement.thy ===== *)
theory Refinement
  imports Prelude
begin

text \<open>
  Functional refinement of a component by an abstract machine. A component step may panic and may
  give back a result; the abstract machine is total. The client of the contract runs sequences of
  operations and compares the results one by one.
\<close>

fun run_steps :: "('op \<Rightarrow> 's \<Rightarrow> ('r \<times> 's) outcome) \<Rightarrow> 'op list \<Rightarrow> 's \<Rightarrow> ('r list \<times> 's) outcome" where
  "run_steps step [] s = Return ([], s)"
| "run_steps step (op # ops) s =
     bind_outcome (step op s) (\<lambda>(r, s').
     bind_outcome (run_steps step ops s') (\<lambda>(rs, s''). Return (r # rs, s'')))"

fun run_spec :: "('op \<Rightarrow> 'a \<Rightarrow> 'r \<times> 'a) \<Rightarrow> 'op list \<Rightarrow> 'a \<Rightarrow> 'r list \<times> 'a" where
  "run_spec spec [] a = ([], a)"
| "run_spec spec (op # ops) a =
     (let (r, a') = spec op a; (rs, a'') = run_spec spec ops a' in (r # rs, a''))"

locale refinement =
  fixes step :: "'op \<Rightarrow> 's \<Rightarrow> ('r \<times> 's) outcome"
    and spec :: "'op \<Rightarrow> 'a \<Rightarrow> 'r \<times> 'a"
    and abs :: "'s \<Rightarrow> 'a"
    and inv :: "'s \<Rightarrow> bool"
  assumes simulates:
    "inv s \<Longrightarrow> \<exists>r s'. step op s = Return (r, s') \<and> inv s' \<and> spec op (abs s) = (r, abs s')"
begin

lemma run_refines:
  assumes "inv s"
  shows "\<exists>rs s'. run_steps step ops s = Return (rs, s') \<and> inv s' \<and>
           run_spec spec ops (abs s) = (rs, abs s')"
  using assms
proof (induction ops arbitrary: s)
  case (Cons op ops)
  obtain r s1 where s1: "step op s = Return (r, s1)" "inv s1" "spec op (abs s) = (r, abs s1)"
    using simulates [OF Cons.prems] by blast
  obtain rs s2 where "run_steps step ops s1 = Return (rs, s2)" "inv s2"
      "run_spec spec ops (abs s1) = (rs, abs s2)"
    using Cons.IH [OF s1(2)] by blast
  then show ?case
    using s1 by simp
qed simp

end

end
