(* ===== verification/Ring.thy ===== *)
theory Ring
  imports Refinement "HOL-Library.Multiset"
begin

unbundle bit_operations_syntax

text \<open>
  The bounded single-producer/single-consumer ring of \<^verbatim>\<open>models/ring/src/lib.rs\<close>: free-running
  \<open>head\<close> and \<open>tail\<close> counters, kept shifted left by one so that the low bit of \<open>tail\<close> carries the
  close flag, and the waker cells of the two endpoints. Counters are 64-bit words and wrap.

  A slot holds \<open>None\<close> while it is uninitialised (never written, or moved out); reading such a slot
  is undefined behaviour in the source and \<open>Panic\<close> here.
\<close>

section \<open>Waker cells\<close>

text \<open>A waker is known by a number; \<open>w.wake()\<close> appends it to the list of wakers woken so far.\<close>

record wake_cell =
  has_waker :: bool
  wake_slot :: "nat option"

definition wake_cell_new :: wake_cell where
  "wake_cell_new = \<lparr> has_waker = False, wake_slot = None \<rparr>"

definition wake_register :: "wake_cell \<Rightarrow> nat \<Rightarrow> wake_cell" where
  "wake_register c w = c\<lparr> wake_slot := Some w, has_waker := True \<rparr>"

text \<open>The cell after a wake, and the waker it fired.\<close>

definition wake_fire :: "wake_cell \<Rightarrow> wake_cell \<times> nat list" where
  "wake_fire c =
     (if \<not> has_waker c then (c, [])
      else (c\<lparr> has_waker := False, wake_slot := None \<rparr>,
            case wake_slot c of None \<Rightarrow> [] | Some w \<Rightarrow> [w]))"

section \<open>The ring and its two handles\<close>

datatype 'a push_error = Full 'a | Closed 'a

fun push_error_into_inner :: "'a push_error \<Rightarrow> 'a" where
  "push_error_into_inner (Full v) = v"
| "push_error_into_inner (Closed v) = v"

record 'a ring =
  ring_buffer :: "'a option list"
  ring_mask :: u64
  ring_capacity :: u64
  ring_head :: u64
  ring_tail :: u64
  consumer_waker :: wake_cell
  producer_waker :: wake_cell
  woken :: "nat list"

text \<open>The two handles with the ring they share: the sender caches \<open>tail\<close>, the receiver \<open>head\<close>.\<close>

record 'a channel =
  chan_ring :: "'a ring"
  cached_tail :: u64
  cached_head :: u64

definition CLOSED :: u64 where "CLOSED = 1"

definition STEP :: u64 where "STEP = 2"

definition is_power_of_two :: "u64 \<Rightarrow> bool" where
  "is_power_of_two c \<longleftrightarrow> c \<in> set (map (\<lambda>k. 2 ^ k) [0..<64])"

definition channel_new :: "u64 \<Rightarrow> 'a channel outcome" where
  "channel_new capacity =
     (if \<not> (0 < capacity \<and> is_power_of_two capacity) then Panic
      else Return \<lparr> chan_ring = \<lparr> ring_buffer = replicate (unat capacity) None,
                                  ring_mask = capacity - 1, ring_capacity = capacity,
                                  ring_head = 0, ring_tail = 0,
                                  consumer_waker = wake_cell_new, producer_waker = wake_cell_new,
                                  woken = [] \<rparr>,
                    cached_tail = 0, cached_head = 0 \<rparr>)"

definition slot_of :: "'a ring \<Rightarrow> u64 \<Rightarrow> nat" where
  "slot_of r w = unat (drop_bit 1 w AND ring_mask r)"

text \<open>\<open>self.buffer[slot].write(v)\<close> and \<open>assume_init_read\<close>.\<close>

definition buf_write :: "'a ring \<Rightarrow> nat \<Rightarrow> 'a \<Rightarrow> 'a ring outcome" where
  "buf_write r i v =
     (if i < length (ring_buffer r)
      then Return (r\<lparr> ring_buffer := list_update (ring_buffer r) i (Some v) \<rparr>) else Panic)"

definition buf_read :: "'a ring \<Rightarrow> nat \<Rightarrow> ('a \<times> 'a ring) outcome" where
  "buf_read r i =
     (case nth_opt (ring_buffer r) i of
        Some (Some v) \<Rightarrow> Return (v, r\<lparr> ring_buffer := list_update (ring_buffer r) i None \<rparr>)
      | _ \<Rightarrow> Panic)"

definition wake_consumer :: "'a ring \<Rightarrow> 'a ring" where
  "wake_consumer r =
     (let (c, ws) = wake_fire (consumer_waker r) in r\<lparr> consumer_waker := c, woken := woken r @ ws \<rparr>)"

definition wake_producer :: "'a ring \<Rightarrow> 'a ring" where
  "wake_producer r =
     (let (c, ws) = wake_fire (producer_waker r) in r\<lparr> producer_waker := c, woken := woken r @ ws \<rparr>)"

text \<open>\<open>Drop for Ring\<close>: every undrained slot is dropped, from \<open>head\<close> up to \<open>tail\<close>; \<open>fuel\<close> bounds
  the walk, and the positions between the two counters are enough.\<close>

fun drop_slots :: "nat \<Rightarrow> 'a ring \<Rightarrow> u64 \<Rightarrow> u64 \<Rightarrow> ('a list \<times> 'a ring) outcome" where
  "drop_slots 0 r i t = (if i = t then Return ([], r) else Panic)"
| "drop_slots (Suc fuel) r i t =
     (if i = t then Return ([], r)
      else bind_outcome (buf_read r (slot_of r i)) (\<lambda>(v, r').
           bind_outcome (drop_slots fuel r' (i + STEP) t) (\<lambda>(vs, r'').
           Return (v # vs, r''))))"

definition ring_drop :: "'a ring \<Rightarrow> ('a list \<times> 'a ring) outcome" where
  "ring_drop r =
     (let h = ring_head r; t = ring_tail r AND NOT CLOSED in
      drop_slots (unat (t - h) div 2) r h t)"

section \<open>Sender\<close>

definition is_closed :: "'a ring \<Rightarrow> bool" where
  "is_closed r \<longleftrightarrow> ring_tail r AND CLOSED \<noteq> 0"

text \<open>
  \<open>try_push\<close> in the pieces between its atomic accesses: with the observed head \<open>h\<close>, the full check
  and the write of the slot; then the publication by compare-exchange.
\<close>

definition push_stage :: "'a channel \<Rightarrow> u64 \<Rightarrow> 'a \<Rightarrow> ('a push_error + 'a channel) outcome" where
  "push_stage c h v =
     (let r = chan_ring c; t = cached_tail c in
      if ring_capacity r * STEP \<le> t - h then Return (Inl (Full v))
      else bind_outcome (buf_write r (slot_of r t) v) (\<lambda>r'. Return (Inr (c\<lparr> chan_ring := r' \<rparr>))))"

definition push_publish :: "'a channel \<Rightarrow> (('a push_error + unit) \<times> 'a channel) outcome" where
  "push_publish c =
     (let r = chan_ring c; t = cached_tail c in
      if ring_tail r = t
      then Return (Inr (), c\<lparr> chan_ring := wake_consumer (r\<lparr> ring_tail := t + STEP \<rparr>),
                             cached_tail := t + STEP \<rparr>)
      else if ring_tail r AND NOT CLOSED \<noteq> t then Panic
      else bind_outcome (buf_read r (slot_of r t)) (\<lambda>(v, r').
           Return (Inl (Closed v), c\<lparr> chan_ring := r' \<rparr>)))"

definition try_push :: "'a channel \<Rightarrow> 'a \<Rightarrow> (('a push_error + unit) \<times> 'a channel) outcome" where
  "try_push c v =
     (if is_closed (chan_ring c) then Return (Inl (Closed v), c)
      else bind_outcome (push_stage c (ring_head (chan_ring c)) v) (\<lambda>st.
           case st of
             Inl e \<Rightarrow> Return (Inl e, c)
           | Inr c' \<Rightarrow> push_publish c'))"

definition sender_close :: "'a channel \<Rightarrow> 'a channel" where
  "sender_close c =
     (let r = chan_ring c in
      c\<lparr> chan_ring := wake_consumer (r\<lparr> ring_tail := ring_tail r OR CLOSED \<rparr>) \<rparr>)"

text \<open>\<open>Poll\<close>: \<open>None\<close> is \<open>Pending\<close>. The future's value cell is the third component.\<close>

definition poll_send ::
  "'a channel \<Rightarrow> 'a option \<Rightarrow> nat \<Rightarrow> (('a push_error + unit) option \<times> 'a option \<times> 'a channel) outcome" where
  "poll_send c value w =
     (case value of
        None \<Rightarrow> Panic
      | Some v \<Rightarrow>
          bind_outcome (try_push c v) (\<lambda>(res, c1).
            case res of
              Inr _ \<Rightarrow> Return (Some (Inr ()), None, c1)
            | Inl (Closed v1) \<Rightarrow> Return (Some (Inl (Closed v1)), None, c1)
            | Inl (Full v1) \<Rightarrow>
                let r1 = chan_ring c1;
                    c2 = c1\<lparr> chan_ring := r1\<lparr> producer_waker := wake_register (producer_waker r1) w \<rparr> \<rparr>
                in bind_outcome (try_push c2 v1) (\<lambda>(res', c3).
                     case res' of
                       Inr _ \<Rightarrow> Return (Some (Inr ()), None, c3\<lparr> chan_ring := wake_producer (chan_ring c3) \<rparr>)
                     | Inl (Closed v2) \<Rightarrow>
                         Return (Some (Inl (Closed v2)), None, c3\<lparr> chan_ring := wake_producer (chan_ring c3) \<rparr>)
                     | Inl (Full v2) \<Rightarrow> Return (None, Some v2, c3))))"

section \<open>Receiver\<close>

text \<open>\<open>try_pop\<close> in the pieces around its two atomic accesses: the read of the slot, and the return
  of the slot by the store of \<open>head\<close>.\<close>

definition pop_take :: "'a channel \<Rightarrow> ('a \<times> 'a channel) outcome" where
  "pop_take c =
     bind_outcome (buf_read (chan_ring c) (slot_of (chan_ring c) (cached_head c))) (\<lambda>(v, r').
     Return (v, c\<lparr> chan_ring := r' \<rparr>))"

definition pop_return :: "'a channel \<Rightarrow> 'a channel" where
  "pop_return c =
     (let h = cached_head c in
      c\<lparr> chan_ring := wake_producer ((chan_ring c)\<lparr> ring_head := h + STEP \<rparr>),
         cached_head := h + STEP \<rparr>)"

definition try_pop :: "'a channel \<Rightarrow> ('a option \<times> 'a channel) outcome" where
  "try_pop c =
     (if cached_head c = ring_tail (chan_ring c) AND NOT CLOSED then Return (None, c)
      else bind_outcome (pop_take c) (\<lambda>(v, c'). Return (Some v, pop_return c')))"

definition receiver_close :: "'a channel \<Rightarrow> 'a channel" where
  "receiver_close c =
     (let r = chan_ring c in
      c\<lparr> chan_ring := wake_producer (r\<lparr> ring_tail := ring_tail r OR CLOSED \<rparr>) \<rparr>)"

definition poll_recv :: "'a channel \<Rightarrow> nat \<Rightarrow> ('a option option \<times> 'a channel) outcome" where
  "poll_recv c w =
     bind_outcome (try_pop c) (\<lambda>(got, c1).
       case got of
         Some v \<Rightarrow> Return (Some (Some v), c1)
       | None \<Rightarrow>
           if is_closed (chan_ring c1)
           then bind_outcome (try_pop c1) (\<lambda>(got', c2). Return (Some got', c2))
           else
             let r1 = chan_ring c1;
                 c2 = c1\<lparr> chan_ring := r1\<lparr> consumer_waker := wake_register (consumer_waker r1) w \<rparr> \<rparr>
             in bind_outcome (try_pop c2) (\<lambda>(got', c3).
                  case got' of
                    Some v \<Rightarrow> Return (Some (Some v), c3\<lparr> chan_ring := wake_consumer (chan_ring c3) \<rparr>)
                  | None \<Rightarrow>
                      if is_closed (chan_ring c3)
                      then bind_outcome (try_pop (c3\<lparr> chan_ring := wake_consumer (chan_ring c3) \<rparr>)) (\<lambda>(got'', c4).
                             Return (Some got'', c4))
                      else Return (None, c3)))"

section \<open>Counters and slots\<close>

definition buf_holds :: "'a option list \<Rightarrow> nat \<Rightarrow> 'a list \<Rightarrow> bool" where
  "buf_holds buf p xs \<longleftrightarrow>
     length xs \<le> length buf \<and>
     (\<forall>i < length buf. buf ! ((p + i) mod length buf) = nth_opt xs i)"

lemma mod_add_inj_le:
  fixes p :: nat
  assumes "(p + i) mod n = (p + j) mod n" "i \<le> j" "j < n"
  shows "i = j"
proof -
  have "n dvd (p + j) - (p + i)"
    using assms mod_eq_dvd_iff_nat [of "p + i" "p + j" n] by simp
  then show ?thesis
    using assms dvd_imp_le [of n "j - i"] by (cases "i = j") auto
qed

lemma mod_add_inj:
  fixes p :: nat
  assumes "(p + i) mod n = (p + j) mod n" "i < n" "j < n"
  shows "i = j"
  using assms mod_add_inj_le [of p i n j] mod_add_inj_le [of p j n i] by linarith

lemma buf_holds_mod:
  "p mod length buf = q mod length buf \<Longrightarrow> buf_holds buf p xs = buf_holds buf q xs"
  unfolding buf_holds_def by (metis mod_add_left_eq)

lemma buf_holds_empty: "buf_holds (replicate n None) p []"
  by (auto simp: buf_holds_def nth_opt_def)

lemma buf_holds_nth:
  assumes "buf_holds buf p xs" "i < length xs"
  shows "buf ! ((p + i) mod length buf) = Some (xs ! i)"
  using assms by (simp add: buf_holds_def nth_opt_def)

text \<open>Writing the slot \<open>k\<close> places after \<open>p\<close> changes that place only.\<close>

lemma ring_update_nth:
  assumes "i < length buf" "k < length buf"
  shows "list_update buf ((p + k) mod length buf) y ! ((p + i) mod length buf) =
           (if i = k then y else buf ! ((p + i) mod length buf))"
proof -
  have "(p + i) mod length buf < length buf"
    using assms by (cases buf) auto
  moreover have "(p + k) mod length buf = (p + i) mod length buf \<longleftrightarrow> k = i"
    using mod_add_inj assms by blast
  ultimately show ?thesis
    by (auto simp: nth_list_update_if)
qed

lemma buf_holds_push:
  assumes "buf_holds buf p xs" "length xs < length buf"
  shows "buf_holds (list_update buf ((p + length xs) mod length buf) (Some v)) p (xs @ [v])"
  using assms by (auto simp: buf_holds_def ring_update_nth nth_opt_def nth_append)

lemma buf_holds_unpush:
  assumes "buf_holds buf p (xs @ [v])"
  shows "buf_holds (list_update buf ((p + length xs) mod length buf) None) p xs"
  using assms by (auto simp: buf_holds_def ring_update_nth nth_opt_def nth_append split: if_splits)

text \<open>After a pop the window starts one place later: its last place is the one just vacated.\<close>

lemma buf_holds_pop:
  assumes "buf_holds buf p (x # xs)"
  shows "buf_holds (list_update buf (p mod length buf) None) (Suc p) xs"
  unfolding buf_holds_def length_list_update
proof (intro conjI allI impI)
  let ?L = "length buf"
  have len: "Suc (length xs) \<le> ?L"
    using assms by (simp add: buf_holds_def)
  then show "length xs \<le> ?L" by simp
  fix i assume i: "i < ?L"
  show "list_update buf (p mod ?L) None ! ((Suc p + i) mod ?L) = nth_opt xs i"
  proof (cases "Suc i < ?L")
    case True
    then have "list_update buf (p mod ?L) None ! ((Suc p + i) mod ?L) = buf ! ((p + Suc i) mod ?L)"
      using ring_update_nth [of "Suc i" buf 0 p None] i by (cases buf) auto
    also have "\<dots> = nth_opt (x # xs) (Suc i)"
      using assms True unfolding buf_holds_def by blast
    finally show ?thesis
      by (simp add: nth_opt_def)
  next
    case False
    then have "(Suc p + i) mod ?L = p mod ?L"
      using i by (metis Suc_lessI add_Suc_shift mod_add_self2)
    moreover have "p mod ?L < ?L"
      using i by (intro mod_less_divisor) linarith
    ultimately show ?thesis
      using i len False by (simp add: nth_list_update_if nth_opt_def)
  qed
qed

definition ring_shape :: "'a ring \<Rightarrow> bool" where
  "ring_shape r \<longleftrightarrow>
     (\<exists>k \<le> 62. ring_capacity r = 2 ^ k \<and> ring_mask r = 2 ^ k - 1 \<and> length (ring_buffer r) = 2 ^ k)"

definition pos :: "u64 \<Rightarrow> nat" where
  "pos w = unat w div 2"

lemma unat_pow2: "k < 64 \<Longrightarrow> unat ((2::u64) ^ k) = 2 ^ k"
  using unat_of_nat [of "2 ^ k", where ?'a = 64] power_strict_increasing [of k 64 "2::nat"] by simp

lemma slot_of_mod:
  assumes "ring_shape r"
  shows "slot_of r w = pos w mod length (ring_buffer r)"
proof -
  obtain k where k: "k \<le> 62" "ring_mask r = 2 ^ k - 1" "length (ring_buffer r) = 2 ^ k"
    using assms by (auto simp: ring_shape_def)
  have "slot_of r w = unat (take_bit k (drop_bit 1 w))"
    using k by (simp add: slot_of_def take_bit_eq_mask mask_eq_exp_minus_1)
  also have "\<dots> = take_bit k (unat (drop_bit 1 w))"
    by (rule unsigned_take_bit_eq)
  also have "\<dots> = unat (drop_bit 1 w) mod 2 ^ k"
    by (simp add: take_bit_eq_mod)
  also have "unat (drop_bit 1 w) = pos w"
    by (simp add: pos_def unat_div_distrib drop_bit_Suc)
  finally show ?thesis
    using k by simp
qed

lemma even_word_unat: "even (w :: u64) \<longleftrightarrow> even (unat w)"
  using bit_unsigned_iff [of w 0, where ?'a = nat] by (simp add: bit_0)

lemma even_STEP_word [simp]: "even STEP"
  by (simp add: STEP_def)

lemma even_STEP [simp]: "even (w + STEP * of_nat i) \<longleftrightarrow> even w"
  by (simp add: STEP_def)

lemma pos_advance:
  assumes "even h"
  shows "pos (h + STEP * of_nat i) = (pos h + i) mod 2 ^ 63"
proof -
  obtain q where q: "unat h = 2 * q"
    using assms even_word_unat by (metis evenE)
  have "unat (h + STEP * of_nat i) = (unat h + (2 * (i mod 2 ^ 64)) mod 2 ^ 64) mod 2 ^ 64"
    by (simp add: STEP_def unat_word_ariths(1,2) unat_of_nat)
  also have "\<dots> = (2 * q + 2 * i) mod 2 ^ 64"
    unfolding q by (simp only: mod_add_right_eq mod_mult_right_eq)
  also have "\<dots> = (2 * (q + i)) mod (2 * 2 ^ 63)"
    by simp
  also have "\<dots> = 2 * ((q + i) mod 2 ^ 63)"
    by (simp only: mult_mod_right)
  finally show ?thesis
    unfolding pos_def q by simp
qed

lemma STEP_times [simp]: "unat (STEP * of_nat n) = 2 * n" if "n < 2 ^ 63"
  using that by (simp add: STEP_def unat_word_ariths(2) unat_of_nat)

lemma shape_capacity:
  assumes "ring_shape r"
  shows "length (ring_buffer r) \<le> 2 ^ 62" "0 < length (ring_buffer r)"
    "unat (ring_capacity r * STEP) = 2 * length (ring_buffer r)"
    "length (ring_buffer r) dvd 2 ^ 63"
proof -
  obtain k where k: "k \<le> 62" "ring_capacity r = 2 ^ k" "length (ring_buffer r) = 2 ^ k"
    using assms by (auto simp: ring_shape_def)
  have le: "(2::nat) ^ k \<le> 2 ^ 62"
    using k(1) by (rule power_increasing) simp
  then show "length (ring_buffer r) \<le> 2 ^ 62"
    using k by simp
  show "0 < length (ring_buffer r)"
    using k by simp
  have "unat (STEP * of_nat (2 ^ k)) = 2 * 2 ^ k"
    using le by (intro STEP_times) simp
  then show "unat (ring_capacity r * STEP) = 2 * length (ring_buffer r)"
    using k by (simp add: mult.commute)
  show "length (ring_buffer r) dvd 2 ^ 63"
    using le_imp_power_dvd [of k 63 "2::nat"] k by simp
qed

lemma slot_of_advance:
  assumes "ring_shape r" "even h"
  shows "slot_of r (h + STEP * of_nat i) = (pos h + i) mod length (ring_buffer r)"
  using assms shape_capacity(4) [OF assms(1)]
  by (simp add: slot_of_mod pos_advance mod_mod_cancel)

lemma clear_CLOSED [simp]:
  "even t \<Longrightarrow> (t OR CLOSED) AND NOT CLOSED = t"
  "even t \<Longrightarrow> t AND NOT CLOSED = t"
  "even t \<Longrightarrow> t AND CLOSED = 0"
  "(t OR CLOSED) AND CLOSED = CLOSED"
  "(t OR CLOSED) OR CLOSED = t OR CLOSED"
  by (auto simp: CLOSED_def bit_eq_iff bit_simps bit_1_iff bit_0 intro: ccontr)

lemma CLOSED_neq_0 [simp]: "CLOSED \<noteq> 0"
  by (simp add: CLOSED_def)

lemma or_CLOSED_neq [simp]: "even t \<Longrightarrow> t OR CLOSED \<noteq> t"
  by (metis clear_CLOSED(3,4) CLOSED_neq_0)

section \<open>The ring holds a queue\<close>

text \<open>
  The channel with the values \<open>xs\<close> queued. While the consumer is between its read of a slot and the
  store of \<open>head\<close> there is a hole of one place at \<open>head\<close>; while the producer is between its write of a
  slot and the publication, the value written, \<open>staged\<close>, follows the published ones.
\<close>

definition chan_cap :: "'a channel \<Rightarrow> nat" where
  "chan_cap c = length (ring_buffer (chan_ring c))"

definition chan_rep :: "'a channel \<Rightarrow> nat \<Rightarrow> 'a list \<Rightarrow> 'a list \<Rightarrow> bool" where
  "chan_rep c hole xs staged \<longleftrightarrow>
     (let r = chan_ring c in
      ring_shape r \<and> even (ring_head r) \<and> cached_head c = ring_head r \<and>
      cached_tail c = ring_head r + STEP * of_nat (hole + length xs) \<and>
      (ring_tail r = cached_tail c \<or> ring_tail r = cached_tail c OR CLOSED) \<and>
      hole + length xs + length staged \<le> chan_cap c \<and>
      buf_holds (ring_buffer r) (pos (ring_head r) + hole) (xs @ staged))"

definition contents :: "'a channel \<Rightarrow> 'a list" where
  "contents c =
     (let r = chan_ring c; h = ring_head r in
      map (\<lambda>i. the (ring_buffer r ! slot_of r (h + STEP * of_nat i))) [0..<unat (cached_tail c - h) div 2])"

definition chan_inv :: "'a channel \<Rightarrow> bool" where
  "chan_inv c \<longleftrightarrow> chan_rep c 0 (contents c) []"

lemma buf_holds_length: "buf_holds buf p xs \<Longrightarrow> length xs \<le> length buf"
  by (simp add: buf_holds_def)

lemma chan_rep_contents:
  assumes "chan_rep c 0 xs []"
  shows "contents c = xs"
proof -
  let ?r = "chan_ring c"
  have shape: "ring_shape ?r" and h: "even (ring_head ?r)"
    and t: "cached_tail c - ring_head ?r = STEP * of_nat (length xs)"
    and buf: "buf_holds (ring_buffer ?r) (pos (ring_head ?r)) xs"
    using assms by (auto simp: chan_rep_def Let_def)
  have "length xs < 2 ^ 63"
    using buf_holds_length [OF buf] shape_capacity(1) [OF shape] by simp
  then have n: "unat (cached_tail c - ring_head ?r) div 2 = length xs"
    by (simp only: t STEP_times)
  show ?thesis
    unfolding contents_def Let_def n
    by (rule nth_equalityI) (simp_all add: slot_of_advance shape h buf_holds_nth [OF buf])
qed

lemma chan_inv_iff: "chan_inv c \<longleftrightarrow> (\<exists>xs. chan_rep c 0 xs [])"
  by (auto simp: chan_inv_def dest: chan_rep_contents)

lemma wake_consumer_simps [simp]:
  "ring_buffer (wake_consumer r) = ring_buffer r" "ring_mask (wake_consumer r) = ring_mask r"
  "ring_capacity (wake_consumer r) = ring_capacity r" "ring_head (wake_consumer r) = ring_head r"
  "ring_tail (wake_consumer r) = ring_tail r" "producer_waker (wake_consumer r) = producer_waker r"
  by (simp_all add: wake_consumer_def split: prod.split)

lemma wake_producer_simps [simp]:
  "ring_buffer (wake_producer r) = ring_buffer r" "ring_mask (wake_producer r) = ring_mask r"
  "ring_capacity (wake_producer r) = ring_capacity r" "ring_head (wake_producer r) = ring_head r"
  "ring_tail (wake_producer r) = ring_tail r" "consumer_waker (wake_producer r) = consumer_waker r"
  by (simp_all add: wake_producer_def split: prod.split)

lemma ring_shape_cong:
  "ring_capacity r' = ring_capacity r \<Longrightarrow> ring_mask r' = ring_mask r \<Longrightarrow>
   length (ring_buffer r') = length (ring_buffer r) \<Longrightarrow> ring_shape r' = ring_shape r"
  by (simp add: ring_shape_def)

lemma chan_repE:
  assumes "chan_rep c hole xs staged"
  obtains "ring_shape (chan_ring c)" "even (ring_head (chan_ring c))" "cached_head c = ring_head (chan_ring c)"
    "cached_tail c = ring_head (chan_ring c) + STEP * of_nat (hole + length xs)"
    "ring_tail (chan_ring c) = cached_tail c \<or> ring_tail (chan_ring c) = cached_tail c OR CLOSED"
    "hole + length xs + length staged \<le> chan_cap c" "even (cached_tail c)"
    "buf_holds (ring_buffer (chan_ring c)) (pos (ring_head (chan_ring c)) + hole) (xs @ staged)"
  using assms even_STEP [of "ring_head (chan_ring c)" "hole + length xs"]
  unfolding chan_rep_def Let_def by metis

lemma push_stage_rep:
  assumes rep: "chan_rep c hole xs []"
    and h: "h + STEP * of_nat lag = ring_head (chan_ring c)"
    and lag: "lag + hole + length xs \<le> chan_cap c"
  shows "if lag + hole + length xs = chan_cap c then push_stage c h v = Return (Inl (Full v))
         else \<exists>c'. push_stage c h v = Return (Inr c') \<and> chan_rep c' hole xs [v] \<and>
                   is_closed (chan_ring c') = is_closed (chan_ring c) \<and> chan_cap c' = chan_cap c \<and>
                   ring_head (chan_ring c') = ring_head (chan_ring c)"
proof -
  let ?r = "chan_ring c" and ?n = "lag + hole + length xs"
  from rep show ?thesis
  proof (rule chan_repE)
    assume shape: "ring_shape ?r" and hd: "even (ring_head ?r)" "cached_head c = ring_head ?r"
      and t: "cached_tail c = ring_head ?r + STEP * of_nat (hole + length xs)"
      and tl: "ring_tail ?r = cached_tail c \<or> ring_tail ?r = cached_tail c OR CLOSED"
      and buf: "buf_holds (ring_buffer ?r) (pos (ring_head ?r) + hole) (xs @ [])"
    let ?i = "(pos (ring_head ?r) + hole + length xs) mod length (ring_buffer ?r)"
    have slot: "slot_of ?r (cached_tail c) = ?i"
      unfolding t slot_of_advance [OF shape hd(1)] by (simp add: add.assoc)
    have lt: "?i < length (ring_buffer ?r)"
      using shape_capacity(2) [OF shape] by (rule mod_less_divisor)
    have diff: "cached_tail c - h = STEP * of_nat ?n"
      unfolding t h [symmetric] by (simp add: algebra_simps)
    have "?n < 2 ^ 63"
      using lag shape_capacity(1) [OF shape] by (simp add: chan_cap_def)
    then have "unat (cached_tail c - h) = 2 * ?n"
      by (simp only: diff STEP_times)
    then have full: "ring_capacity ?r * STEP \<le> cached_tail c - h \<longleftrightarrow> chan_cap c \<le> ?n"
      unfolding word_le_nat_alt shape_capacity(3) [OF shape] chan_cap_def by auto
    let ?r' = "?r\<lparr> ring_buffer := list_update (ring_buffer ?r) ?i (Some v) \<rparr>"
    have "push_stage c h v = Return (Inr (c\<lparr> chan_ring := ?r' \<rparr>))" if "?n \<noteq> chan_cap c"
      using that lag lt by (simp add: push_stage_def Let_def full slot buf_write_def)
    moreover have "chan_rep (c\<lparr> chan_ring := ?r' \<rparr>) hole xs [v]" if "?n \<noteq> chan_cap c"
    proof -
      have "ring_shape ?r'"
        using shape by (simp add: ring_shape_def)
      then show ?thesis
        using that lag buf_holds_push [of "ring_buffer ?r" "pos (ring_head ?r) + hole" xs v] buf hd t tl
        by (simp add: chan_rep_def chan_cap_def)
    qed
    ultimately show ?thesis
      using full by (auto simp: push_stage_def Let_def is_closed_def chan_cap_def)
  qed
qed

lemma push_publish_rep:
  assumes rep: "chan_rep c hole xs [v]"
  shows "if is_closed (chan_ring c)
         then \<exists>c'. push_publish c = Return (Inl (Closed v), c') \<and> chan_rep c' hole xs [] \<and>
                   is_closed (chan_ring c') \<and> chan_cap c' = chan_cap c \<and>
                   ring_head (chan_ring c') = ring_head (chan_ring c)
         else \<exists>c'. push_publish c = Return (Inr (), c') \<and> chan_rep c' hole (xs @ [v]) [] \<and>
                   \<not> is_closed (chan_ring c') \<and> chan_cap c' = chan_cap c \<and>
                   ring_head (chan_ring c') = ring_head (chan_ring c)"
proof -
  let ?r = "chan_ring c"
  from rep show ?thesis
  proof (rule chan_repE)
    assume shape: "ring_shape ?r" and hd: "even (ring_head ?r)" "cached_head c = ring_head ?r"
      and t: "cached_tail c = ring_head ?r + STEP * of_nat (hole + length xs)" and ev: "even (cached_tail c)"
      and tl: "ring_tail ?r = cached_tail c \<or> ring_tail ?r = cached_tail c OR CLOSED"
      and len: "hole + length xs + length [v] \<le> chan_cap c"
      and buf: "buf_holds (ring_buffer ?r) (pos (ring_head ?r) + hole) (xs @ [v])"
    let ?i = "(pos (ring_head ?r) + hole + length xs) mod length (ring_buffer ?r)"
    have slot: "slot_of ?r (cached_tail c) = ?i"
      unfolding t slot_of_advance [OF shape hd(1)] by (simp add: add.assoc)
    have lt: "?i < length (ring_buffer ?r)"
      using shape_capacity(2) [OF shape] by (rule mod_less_divisor)
    let ?r' = "?r\<lparr> ring_buffer := list_update (ring_buffer ?r) ?i None \<rparr>"
    have rd: "buf_read ?r ?i = Return (v, ?r')"
      using buf_holds_nth [OF buf, of "length xs"] lt by (simp add: buf_read_def nth_opt_def)
    show ?thesis
    proof (cases "ring_tail ?r = cached_tail c")
      case True
      then have "\<not> is_closed ?r"
        using ev by (simp add: is_closed_def)
      then show ?thesis
        using True shape hd t ev len buf
        by (simp add: push_publish_def chan_rep_def Let_def chan_cap_def ring_shape_def is_closed_def
            STEP_def algebra_simps)
    next
      case False
      then have "is_closed ?r"
        using tl ev by (simp add: is_closed_def)
      moreover have "push_publish c = Return (Inl (Closed v), c\<lparr> chan_ring := ?r' \<rparr>)"
        using False tl ev unfolding push_publish_def Let_def slot rd by auto
      moreover have "chan_rep (c\<lparr> chan_ring := ?r' \<rparr>) hole xs []"
        using tl hd t len shape buf_holds_unpush [OF buf]
        by (simp add: chan_rep_def Let_def chan_cap_def ring_shape_def)
      ultimately show ?thesis
        by (simp add: is_closed_def chan_cap_def)
    qed
  qed
qed

lemma pop_take_rep:
  assumes rep: "chan_rep c 0 (x # xs) staged"
  shows "\<exists>c'. pop_take c = Return (x, c') \<and> chan_rep c' 1 xs staged \<and>
              is_closed (chan_ring c') = is_closed (chan_ring c) \<and> chan_cap c' = chan_cap c \<and>
              ring_head (chan_ring c') = ring_head (chan_ring c)"
proof -
  let ?r = "chan_ring c"
  from rep show ?thesis
  proof (rule chan_repE)
    assume shape: "ring_shape ?r" and hd: "even (ring_head ?r)" "cached_head c = ring_head ?r"
      and t: "cached_tail c = ring_head ?r + STEP * of_nat (0 + length (x # xs))"
      and tl: "ring_tail ?r = cached_tail c \<or> ring_tail ?r = cached_tail c OR CLOSED"
      and len: "0 + length (x # xs) + length staged \<le> chan_cap c"
      and buf: "buf_holds (ring_buffer ?r) (pos (ring_head ?r) + 0) ((x # xs) @ staged)"
    let ?i = "pos (ring_head ?r) mod length (ring_buffer ?r)"
    have slot: "slot_of ?r (cached_head c) = ?i"
      unfolding hd by (rule slot_of_mod [OF shape])
    have lt: "?i < length (ring_buffer ?r)"
      using shape_capacity(2) [OF shape] by (rule mod_less_divisor)
    let ?r' = "?r\<lparr> ring_buffer := list_update (ring_buffer ?r) ?i None \<rparr>"
    have rd: "buf_read ?r ?i = Return (x, ?r')"
      using buf_holds_nth [OF buf, of 0] lt by (simp add: buf_read_def nth_opt_def)
    have "pop_take c = Return (x, c\<lparr> chan_ring := ?r' \<rparr>)"
      unfolding pop_take_def slot rd by simp
    moreover have "chan_rep (c\<lparr> chan_ring := ?r' \<rparr>) 1 xs staged"
      using buf_holds_pop [of "ring_buffer ?r" "pos (ring_head ?r)" x "xs @ staged"] buf hd t tl len shape
      by (simp add: chan_rep_def Let_def chan_cap_def ring_shape_def)
    ultimately show ?thesis
      by (simp add: is_closed_def chan_cap_def)
  qed
qed

lemma pop_return_rep:
  assumes rep: "chan_rep c 1 xs staged"
  shows "chan_rep (pop_return c) 0 xs staged"
    and "is_closed (chan_ring (pop_return c)) = is_closed (chan_ring c)"
    and "chan_cap (pop_return c) = chan_cap c"
    and "ring_head (chan_ring (pop_return c)) = ring_head (chan_ring c) + STEP"
proof -
  let ?r = "chan_ring c"
  show "chan_rep (pop_return c) 0 xs staged"
    using rep
  proof (rule chan_repE)
    assume shape: "ring_shape ?r" and hd: "even (ring_head ?r)" "cached_head c = ring_head ?r"
      and t: "cached_tail c = ring_head ?r + STEP * of_nat (1 + length xs)"
      and tl: "ring_tail ?r = cached_tail c \<or> ring_tail ?r = cached_tail c OR CLOSED"
      and len: "1 + length xs + length staged \<le> chan_cap c"
      and buf: "buf_holds (ring_buffer ?r) (pos (ring_head ?r) + 1) (xs @ staged)"
    have "pos (ring_head ?r + STEP) mod length (ring_buffer ?r) = (pos (ring_head ?r) + 1) mod length (ring_buffer ?r)"
      using slot_of_advance [OF shape hd(1), of 1] slot_of_mod [OF shape, of "ring_head ?r + STEP"] by simp
    then have "buf_holds (ring_buffer ?r) (pos (ring_head ?r + STEP)) (xs @ staged)"
      using buf buf_holds_mod by metis
    moreover have "even (ring_head ?r + STEP)"
      using even_STEP [of "ring_head ?r" 1] hd by simp
    ultimately show ?thesis
      using hd t tl len shape
      by (auto simp: pop_return_def Let_def chan_rep_def chan_cap_def ring_shape_def algebra_simps)
  qed
qed (use rep in \<open>simp_all add: pop_return_def Let_def is_closed_def chan_cap_def chan_rep_def\<close>)

lemma close_rep:
  assumes "chan_rep c hole xs staged"
  shows "chan_rep (sender_close c) hole xs staged" "chan_rep (receiver_close c) hole xs staged"
    and "is_closed (chan_ring (sender_close c))" "is_closed (chan_ring (receiver_close c))"
    and "chan_cap (sender_close c) = chan_cap c" "chan_cap (receiver_close c) = chan_cap c"
    and "ring_head (chan_ring (sender_close c)) = ring_head (chan_ring c)"
    and "ring_head (chan_ring (receiver_close c)) = ring_head (chan_ring c)"
  using assms
  by (auto simp: sender_close_def receiver_close_def Let_def chan_rep_def chan_cap_def ring_shape_def is_closed_def)

section \<open>Refinement of a bounded queue\<close>

datatype 'a ring_op = Push 'a | Pop | Close_Tx | Close_Rx

datatype 'a ring_result = Pushed | Push_Full 'a | Push_Closed 'a | Popped "'a option" | Closed_Ok

fun ring_op_step :: "'a ring_op \<Rightarrow> 'a channel \<Rightarrow> ('a ring_result \<times> 'a channel) outcome" where
  "ring_op_step (Push v) c =
     bind_outcome (try_push c v) (\<lambda>(res, c').
       Return (case res of Inr _ \<Rightarrow> Pushed | Inl (Full u) \<Rightarrow> Push_Full u | Inl (Closed u) \<Rightarrow> Push_Closed u, c'))"
| "ring_op_step Pop c = bind_outcome (try_pop c) (\<lambda>(got, c'). Return (Popped got, c'))"
| "ring_op_step Close_Tx c = Return (Closed_Ok, sender_close c)"
| "ring_op_step Close_Rx c = Return (Closed_Ok, receiver_close c)"

text \<open>The abstract machine: a queue of at most \<open>cap\<close> values and a closed flag.\<close>

record 'a fifo =
  fifo_cap :: nat
  fifo_items :: "'a list"
  fifo_closed :: bool

fun fifo_step :: "'a ring_op \<Rightarrow> 'a fifo \<Rightarrow> 'a ring_result \<times> 'a fifo" where
  "fifo_step (Push v) q =
     (if fifo_closed q then (Push_Closed v, q)
      else if length (fifo_items q) = fifo_cap q then (Push_Full v, q)
      else (Pushed, q\<lparr> fifo_items := fifo_items q @ [v] \<rparr>))"
| "fifo_step Pop q =
     (case fifo_items q of [] \<Rightarrow> (Popped None, q) | x # xs \<Rightarrow> (Popped (Some x), q\<lparr> fifo_items := xs \<rparr>))"
| "fifo_step Close_Tx q = (Closed_Ok, q\<lparr> fifo_closed := True \<rparr>)"
| "fifo_step Close_Rx q = (Closed_Ok, q\<lparr> fifo_closed := True \<rparr>)"

definition fifo_of :: "'a channel \<Rightarrow> 'a fifo" where
  "fifo_of c = \<lparr> fifo_cap = chan_cap c, fifo_items = contents c, fifo_closed = is_closed (chan_ring c) \<rparr>"

lemma chan_rep_cap: "chan_rep c hole xs staged \<Longrightarrow> hole + length xs + length staged \<le> chan_cap c"
  by (simp add: chan_rep_def Let_def)

lemma try_push_rep:
  assumes rep: "chan_rep c 0 xs []"
  shows "\<exists>res c'. try_push c v = Return (res, c') \<and> chan_cap c' = chan_cap c \<and>
           is_closed (chan_ring c') = is_closed (chan_ring c) \<and>
           (if is_closed (chan_ring c) then res = Inl (Closed v) \<and> c' = c
            else if length xs = chan_cap c then res = Inl (Full v) \<and> c' = c
            else res = Inr () \<and> chan_rep c' 0 (xs @ [v]) [])"
proof (cases "is_closed (chan_ring c)")
  case opn: False
  have stage: "if length xs = chan_cap c then push_stage c (ring_head (chan_ring c)) v = Return (Inl (Full v))
      else \<exists>c1. push_stage c (ring_head (chan_ring c)) v = Return (Inr c1) \<and> chan_rep c1 0 xs [v] \<and>
                is_closed (chan_ring c1) = is_closed (chan_ring c) \<and> chan_cap c1 = chan_cap c"
    using push_stage_rep [OF rep, of "ring_head (chan_ring c)" 0 v] chan_rep_cap [OF rep] by auto
  show ?thesis
  proof (cases "length xs = chan_cap c")
    case False
    then obtain c1 where c1: "push_stage c (ring_head (chan_ring c)) v = Return (Inr c1)" "chan_rep c1 0 xs [v]"
        "\<not> is_closed (chan_ring c1)" "chan_cap c1 = chan_cap c"
      using stage opn by auto
    then obtain c2 where "push_publish c1 = Return (Inr (), c2)" "chan_rep c2 0 (xs @ [v]) []"
        "\<not> is_closed (chan_ring c2)" "chan_cap c2 = chan_cap c"
      using push_publish_rep [OF c1(2)] by auto
    then show ?thesis
      using opn False c1(1) by (simp add: try_push_def)
  qed (use stage opn in \<open>simp add: try_push_def\<close>)
qed (simp add: try_push_def)

lemma STEP_times_eq_0: "n < 2 ^ 63 \<Longrightarrow> STEP * of_nat n = 0 \<longleftrightarrow> n = 0"
  by (metis STEP_times mult_eq_0_iff unat_0 word_unat_eq_iff zero_neq_numeral of_nat_0 mult_zero_right)

lemma chan_rep_empty_iff:
  assumes "chan_rep c 0 xs staged"
  shows "cached_head c = ring_tail (chan_ring c) AND NOT CLOSED \<longleftrightarrow> xs = []"
  using assms
proof (rule chan_repE)
  assume shape: "ring_shape (chan_ring c)" and ev: "even (cached_tail c)"
    and hd: "cached_head c = ring_head (chan_ring c)"
    and t: "cached_tail c = ring_head (chan_ring c) + STEP * of_nat (0 + length xs)"
    and tl: "ring_tail (chan_ring c) = cached_tail c \<or> ring_tail (chan_ring c) = cached_tail c OR CLOSED"
    and len: "0 + length xs + length staged \<le> chan_cap c"
  have "ring_tail (chan_ring c) AND NOT CLOSED = cached_tail c"
    using tl ev by auto
  moreover have "length xs < 2 ^ 63"
    using len shape_capacity(1) [OF shape] by (simp add: chan_cap_def)
  ultimately show ?thesis
    using STEP_times_eq_0 [of "length xs"] hd t by simp
qed

lemma try_pop_rep:
  assumes rep: "chan_rep c 0 xs []"
  shows "\<exists>c'. try_pop c = Return (case xs of [] \<Rightarrow> None | x # _ \<Rightarrow> Some x, c') \<and> chan_rep c' 0 (tl xs) [] \<and>
           chan_cap c' = chan_cap c \<and> is_closed (chan_ring c') = is_closed (chan_ring c) \<and>
           (xs = [] \<longrightarrow> c' = c)"
proof (cases xs)
  case (Cons x ys)
  obtain c1 where c1: "pop_take c = Return (x, c1)" "chan_rep c1 1 ys []"
      "is_closed (chan_ring c1) = is_closed (chan_ring c)" "chan_cap c1 = chan_cap c"
    using pop_take_rep [OF rep [unfolded Cons]] by blast
  have "try_pop c = Return (Some x, pop_return c1)"
    using chan_rep_empty_iff [OF rep] Cons c1(1) by (simp add: try_pop_def)
  then show ?thesis
    using Cons c1 pop_return_rep [OF c1(2)] by simp
qed (use rep chan_rep_empty_iff [OF rep] in \<open>simp add: try_pop_def\<close>)

interpretation fifo: refinement ring_op_step fifo_step fifo_of chan_inv
proof
  fix c :: "'a channel" and op
  assume "chan_inv c"
  then obtain xs where rep: "chan_rep c 0 xs []" by (auto simp: chan_inv_iff)
  note abs = chan_rep_contents [OF rep]
  show "\<exists>r c'. ring_op_step op c = Return (r, c') \<and> chan_inv c' \<and> fifo_step op (fifo_of c) = (r, fifo_of c')"
  proof (cases op)
    case (Push v)
    obtain res c' where "try_push c v = Return (res, c')" "chan_cap c' = chan_cap c"
        "is_closed (chan_ring c') = is_closed (chan_ring c)"
        "if is_closed (chan_ring c) then res = Inl (Closed v) \<and> c' = c
         else if length xs = chan_cap c then res = Inl (Full v) \<and> c' = c
         else res = Inr () \<and> chan_rep c' 0 (xs @ [v]) []"
      using try_push_rep [OF rep] by blast
    then show ?thesis
      using Push rep abs
      by (auto simp: fifo_of_def chan_inv_iff dest: chan_rep_contents split: if_splits)
  next
    case Pop
    then show ?thesis
      using try_pop_rep [OF rep] abs
      by (auto simp: fifo_of_def chan_inv_iff dest: chan_rep_contents split: list.split)
  qed (use close_rep [OF rep] abs in \<open>auto simp: fifo_of_def chan_inv_iff dest: chan_rep_contents\<close>)
qed

lemma channel_new_inv:
  assumes "is_power_of_two capacity" "capacity < 2 ^ 63"
  shows "\<exists>c. channel_new capacity = Return c \<and> chan_rep c 0 [] [] \<and> chan_cap c = unat capacity \<and>
             \<not> is_closed (chan_ring c)"
proof -
  obtain k where k: "capacity = 2 ^ k" "k < 64"
    using assms(1) by (auto simp: is_power_of_two_def)
  have unat: "unat capacity = 2 ^ k"
    using k unat_pow2 by simp
  then have "(2::nat) ^ k < 2 ^ 63"
    using assms(2) unfolding word_less_nat_alt by (simp add: unat_pow2)
  then have "k < 63"
    by (rule power_less_imp_less_exp [rotated]) simp
  then have "k \<le> 62"
    by simp
  moreover have "0 < capacity"
    unfolding word_less_nat_alt unat by simp
  ultimately show ?thesis
    using assms k unat
    by (auto simp: channel_new_def chan_rep_def chan_cap_def ring_shape_def is_closed_def buf_holds_empty)
qed

lemma fifo_step_cap: "fifo_cap (snd (fifo_step op q)) = fifo_cap q"
  by (cases op) (auto split: list.split)

text \<open>
  C5: A channel of any power-of-two capacity (below the point where the shifted counters would not
  fit a word) never panics and never reads an uninitialised slot, and answers every sequence of pushes,
  pops and closes exactly as a bounded first-in first-out queue with a closed flag does: full
  exactly at the capacity, closed pushes handed back, queued values still delivered after the
  close. The counters run freely and wrap.
\<close>

theorem ring_refines_bounded_fifo:
  fixes ops :: "'a ring_op list"
  assumes "is_power_of_two capacity" "capacity < 2 ^ 63"
  shows "\<exists>c rs c'. channel_new capacity = Return c \<and> run_steps ring_op_step ops c = Return (rs, c') \<and>
           run_spec fifo_step ops \<lparr> fifo_cap = unat capacity, fifo_items = [], fifo_closed = False \<rparr>
             = (rs, fifo_of c')"
proof -
  obtain c :: "'a channel" where c: "channel_new capacity = Return c" "chan_rep c 0 [] []" "chan_cap c = unat capacity"
      "\<not> is_closed (chan_ring c)"
    using channel_new_inv [OF assms] by blast
  then have inv: "chan_inv c" by (auto simp: chan_inv_iff)
  have "fifo_of c = \<lparr> fifo_cap = unat capacity, fifo_items = [], fifo_closed = False \<rparr>"
    using c chan_rep_contents by (simp add: fifo_of_def)
  then show ?thesis
    using fifo.run_refines [OF inv, of ops] c(1) by auto
qed

theorem ring_refines_bounded_fifo_witness:
  "\<exists>c rs c'. channel_new 2 = Return c \<and>
     run_steps ring_op_step [Push 10, Push 11, Push (12::nat), Pop, Close_Rx, Push 13, Pop, Pop] c = Return (rs, c') \<and>
     run_spec fifo_step [Push 10, Push 11, Push 12, Pop, Close_Rx, Push 13, Pop, Pop]
       \<lparr> fifo_cap = unat (2::u64), fifo_items = [], fifo_closed = False \<rparr> = (rs, fifo_of c')"
  by (rule ring_refines_bounded_fifo) (simp_all add: is_power_of_two_def upt_rec)

section \<open>Dropping the ring\<close>

lemma mod_shift_onto:
  fixes p :: nat
  assumes "j < n"
  shows "\<exists>i < n. (p + i) mod n = j"
proof (intro exI conjI)
  let ?i = "(j + (n - p mod n)) mod n"
  have n: "0 < n" "p mod n < n"
    using assms by simp_all
  then show "?i < n" by simp
  have "(p + ?i) mod n = (p mod n + (j + (n - p mod n))) mod n"
    by (simp only: mod_add_right_eq mod_add_left_eq)
  also have "p mod n + (j + (n - p mod n)) = j + n"
    using n(2) by simp
  finally show "(p + ?i) mod n = j"
    using assms by simp
qed

lemma drop_slots_rep:
  assumes "ring_shape r" "even h" "buf_holds (ring_buffer r) (pos h) xs"
  shows "\<exists>r'. drop_slots (length xs) r h (h + STEP * of_nat (length xs)) = Return (xs, r') \<and>
              ring_buffer r' = replicate (length (ring_buffer r)) None"
  using assms
proof (induction xs arbitrary: r h)
  case Nil
  have "ring_buffer r ! j = None" if "j < length (ring_buffer r)" for j
    using mod_shift_onto [OF that, of "pos h"] Nil.prems(3) by (auto simp: buf_holds_def nth_opt_def)
  then show ?case
    by (simp add: list_eq_iff_nth_eq)
next
  case (Cons x xs)
  let ?i = "pos h mod length (ring_buffer r)"
  let ?r' = "r\<lparr> ring_buffer := list_update (ring_buffer r) ?i None \<rparr>"
  have lt: "?i < length (ring_buffer r)"
    using shape_capacity(2) [OF Cons.prems(1)] by (rule mod_less_divisor)
  have rd: "buf_read r (slot_of r h) = Return (x, ?r')"
    using buf_holds_nth [OF Cons.prems(3), of 0] lt
    by (simp add: slot_of_mod [OF Cons.prems(1)] buf_read_def nth_opt_def)
  have shape: "ring_shape ?r'"
    using Cons.prems(1) by (simp add: ring_shape_def)
  have "pos (h + STEP) mod length (ring_buffer r) = Suc (pos h) mod length (ring_buffer r)"
    using slot_of_advance [OF Cons.prems(1,2), of 1] slot_of_mod [OF Cons.prems(1), of "h + STEP"] by simp
  then have buf: "buf_holds (ring_buffer ?r') (pos (h + STEP)) xs"
    using buf_holds_pop [OF Cons.prems(3)] buf_holds_mod [of "pos (h + STEP)" "ring_buffer ?r'" "Suc (pos h)"]
    by simp
  have ev: "even (h + STEP)"
    using even_STEP [of h 1] Cons.prems(2) by simp
  obtain r'' where r'': "drop_slots (length xs) ?r' (h + STEP) (h + STEP + STEP * of_nat (length xs))
      = Return (xs, r'')" "ring_buffer r'' = replicate (length (ring_buffer r)) None"
    using Cons.IH [OF shape ev buf] by auto
  have "length (x # xs) < 2 ^ 63"
    using buf_holds_length [OF Cons.prems(3)] shape_capacity(1) [OF Cons.prems(1)] by simp
  then have "h \<noteq> h + STEP * of_nat (length (x # xs))"
    using STEP_times_eq_0 [of "length (x # xs)"] by simp
  moreover have "h + STEP * of_nat (length (x # xs)) = h + STEP + STEP * of_nat (length xs)"
    by (simp add: algebra_simps)
  ultimately show ?case
    using rd r'' by (simp add: add.assoc)
qed

text \<open>
  Dropping the ring, after any use that keeps its invariant, drops exactly the values still
  queued, each once and in order, and leaves no initialised slot behind; the walk of
  \<open>head\<close> to \<open>tail\<close> ends.
\<close>

theorem ring_drop_frees_contents:
  assumes "chan_inv c"
  shows "\<exists>r'. ring_drop (chan_ring c) = Return (contents c, r') \<and>
              ring_buffer r' = replicate (chan_cap c) None"
  using assms unfolding chan_inv_def
proof (rule chan_repE)
  let ?r = "chan_ring c" and ?xs = "contents c"
  assume shape: "ring_shape ?r" and h: "even (ring_head ?r)" and ev: "even (cached_tail c)"
    and t: "cached_tail c = ring_head ?r + STEP * of_nat (0 + length ?xs)"
    and tl: "ring_tail ?r = cached_tail c \<or> ring_tail ?r = cached_tail c OR CLOSED"
    and buf: "buf_holds (ring_buffer ?r) (pos (ring_head ?r) + 0) (?xs @ [])"
  have tail: "ring_tail ?r AND NOT CLOSED = ring_head ?r + STEP * of_nat (length ?xs)"
    using tl ev unfolding t by auto
  have "length ?xs < 2 ^ 63"
    using buf_holds_length [OF buf] shape_capacity(1) [OF shape] by simp
  then have fuel: "unat (STEP * of_nat (length ?xs)) div 2 = length ?xs"
    by simp
  show ?thesis
    using drop_slots_rep [OF shape h, of ?xs] buf
    by (simp add: ring_drop_def Let_def tail fuel chan_cap_def)
qed

text \<open>A closed channel whose \<open>tail\<close> has wrapped to zero while its \<open>head\<close> has not.\<close>

definition wrapped_channel :: "nat channel" where
  "wrapped_channel =
     \<lparr> chan_ring = \<lparr> ring_buffer = [None, Some 7], ring_mask = 1, ring_capacity = 2,
                     ring_head = - 2, ring_tail = 1, consumer_waker = wake_cell_new,
                     producer_waker = wake_cell_new, woken = [] \<rparr>,
       cached_tail = 0, cached_head = - 2 \<rparr>"

lemma wrapped_channel_rep: "chan_rep wrapped_channel 0 [7] []"
proof -
  have "pos (- 2) = 2 ^ 63 - 1"
    by (simp add: pos_def)
  then have "buf_holds [None, Some 7] (pos (- 2)) [7 :: nat]"
    by (auto simp: buf_holds_def nth_opt_def less_2_cases_iff simp flip: numeral_2_eq_2)
  moreover have "ring_shape (chan_ring wrapped_channel)"
    by (auto simp: ring_shape_def wrapped_channel_def intro!: exI [of _ 1])
  ultimately show ?thesis
    by (simp add: chan_rep_def Let_def chan_cap_def wrapped_channel_def STEP_def CLOSED_def)
qed

theorem ring_drop_frees_contents_witness:
  "\<exists>r'. ring_drop (chan_ring wrapped_channel) = Return ([7], r') \<and> ring_buffer r' = [None, None]"
  using ring_drop_frees_contents [of wrapped_channel] wrapped_channel_rep
    chan_rep_contents [OF wrapped_channel_rep]
  by (auto simp: chan_inv_iff chan_cap_def numeral_2_eq_2 wrapped_channel_def)

section \<open>The two threads interleaved\<close>

text \<open>
  The producer and the consumer run concurrently; every atomic access is one step. A load may
  return an old value: \<open>head_lag\<close> counts the stores to \<open>head\<close> the producer has not yet
  observed, \<open>tail_lag\<close> the publications the consumer has not yet observed, and a load moves
  its thread forward by any amount (per-location coherence). The close bit is written to the same
  word as the publications, so a consumer that observes it has observed every publication. Either
  side may close at any time.

  \<open>offered\<close>, \<open>accepted\<close>, \<open>handed_back\<close> and \<open>delivered\<close> record what the calls were given and
  returned; \<open>drained\<close> is set when \<open>recv\<close> resolves to \<open>None\<close>, \<open>faulted\<close> when a step panics or
  reads an uninitialised slot.
\<close>

datatype 'a producer_pc = P_Idle | P_Open 'a | P_Staged 'a

datatype 'a consumer_pc = C_Idle | C_Nonempty | C_Taken 'a

record 'a ring_sys =
  sys_chan :: "'a channel"
  producer_pc :: "'a producer_pc"
  consumer_pc :: "'a consumer_pc"
  head_lag :: nat
  tail_lag :: nat
  close_seen :: bool
  drained :: bool
  offered :: "'a list"
  accepted :: "'a list"
  handed_back :: "'a list"
  delivered :: "'a list"
  faulted :: bool

definition ring_sys_init :: "'a channel \<Rightarrow> 'a ring_sys" where
  "ring_sys_init c =
     \<lparr> sys_chan = c, producer_pc = P_Idle, consumer_pc = C_Idle, head_lag = 0, tail_lag = 0,
       close_seen = False, drained = False, offered = [], accepted = [], handed_back = [],
       delivered = [], faulted = False \<rparr>"

definition staged_push :: "'a ring_sys \<Rightarrow> 'a \<Rightarrow> nat \<Rightarrow> 'a ring_sys" where
  "staged_push s v lag =
     (let c = sys_chan s; h = ring_head (chan_ring c) - STEP * of_nat lag in
      case push_stage c h v of
        Panic \<Rightarrow> s\<lparr> faulted := True \<rparr>
      | Return (Inl e) \<Rightarrow>
          s\<lparr> head_lag := lag, producer_pc := P_Idle, handed_back := handed_back s @ [push_error_into_inner e] \<rparr>
      | Return (Inr c') \<Rightarrow> s\<lparr> head_lag := lag, producer_pc := P_Staged v, sys_chan := c' \<rparr>)"

definition published_push :: "'a ring_sys \<Rightarrow> 'a \<Rightarrow> 'a ring_sys" where
  "published_push s v =
     (case push_publish (sys_chan s) of
        Panic \<Rightarrow> s\<lparr> faulted := True \<rparr>
      | Return (Inr _, c') \<Rightarrow>
          s\<lparr> sys_chan := c', producer_pc := P_Idle, accepted := accepted s @ [v], tail_lag := Suc (tail_lag s) \<rparr>
      | Return (Inl e, c') \<Rightarrow>
          s\<lparr> sys_chan := c', producer_pc := P_Idle, handed_back := handed_back s @ [push_error_into_inner e] \<rparr>)"

definition taken_pop :: "'a ring_sys \<Rightarrow> 'a ring_sys" where
  "taken_pop s =
     (case pop_take (sys_chan s) of
        Panic \<Rightarrow> s\<lparr> faulted := True \<rparr>
      | Return (v, c') \<Rightarrow> s\<lparr> sys_chan := c', consumer_pc := C_Taken v \<rparr>)"

inductive ring_step :: "'a ring_sys \<Rightarrow> 'a ring_sys \<Rightarrow> bool" where
  push_refused:
    "producer_pc s = P_Idle \<Longrightarrow> is_closed (chan_ring (sys_chan s)) \<Longrightarrow>
     ring_step s (s\<lparr> offered := offered s @ [v], handed_back := handed_back s @ [v] \<rparr>)"
| push_open:
    "producer_pc s = P_Idle \<Longrightarrow> ring_step s (s\<lparr> offered := offered s @ [v], producer_pc := P_Open v \<rparr>)"
| push_write:
    "producer_pc s = P_Open v \<Longrightarrow> lag \<le> head_lag s \<Longrightarrow> ring_step s (staged_push s v lag)"
| push_commit:
    "producer_pc s = P_Staged v \<Longrightarrow> ring_step s (published_push s v)"
| pop_empty:
    "consumer_pc s = C_Idle \<Longrightarrow> lag \<le> tail_lag s \<Longrightarrow>
     cached_head (sys_chan s) = cached_tail (sys_chan s) - STEP * of_nat lag \<Longrightarrow>
     ring_step s (s\<lparr> tail_lag := lag, drained := (drained s \<or> close_seen s) \<rparr>)"
| pop_nonempty:
    "consumer_pc s = C_Idle \<Longrightarrow> lag \<le> tail_lag s \<Longrightarrow>
     cached_head (sys_chan s) \<noteq> cached_tail (sys_chan s) - STEP * of_nat lag \<Longrightarrow>
     ring_step s (s\<lparr> tail_lag := lag, consumer_pc := C_Nonempty \<rparr>)"
| pop_read:
    "consumer_pc s = C_Nonempty \<Longrightarrow> ring_step s (taken_pop s)"
| pop_advance:
    "consumer_pc s = C_Taken v \<Longrightarrow>
     ring_step s (s\<lparr> sys_chan := pop_return (sys_chan s), consumer_pc := C_Idle,
                     delivered := delivered s @ [v], head_lag := Suc (head_lag s) \<rparr>)"
| see_close:
    "consumer_pc s = C_Idle \<Longrightarrow> is_closed (chan_ring (sys_chan s)) \<Longrightarrow>
     ring_step s (s\<lparr> close_seen := True, tail_lag := 0 \<rparr>)"
| close_tx: "ring_step s (s\<lparr> sys_chan := sender_close (sys_chan s) \<rparr>)"
| close_rx: "ring_step s (s\<lparr> sys_chan := receiver_close (sys_chan s) \<rparr>)"

inductive ring_reachable :: "u64 \<Rightarrow> 'a ring_sys \<Rightarrow> bool" for capacity where
  init: "channel_new capacity = Return c \<Longrightarrow> ring_reachable capacity (ring_sys_init c)"
| step: "ring_reachable capacity s \<Longrightarrow> ring_step s s' \<Longrightarrow> ring_reachable capacity s'"

fun staged_of :: "'a producer_pc \<Rightarrow> 'a list" where
  "staged_of (P_Staged v) = [v]"
| "staged_of _ = []"

fun offer_of :: "'a producer_pc \<Rightarrow> 'a list" where
  "offer_of P_Idle = []"
| "offer_of (P_Open v) = [v]"
| "offer_of (P_Staged v) = [v]"

fun taken_of :: "'a consumer_pc \<Rightarrow> 'a list" where
  "taken_of (C_Taken v) = [v]"
| "taken_of _ = []"

text \<open>
  The system invariant, with the queue \<open>xs\<close> between the two threads. The slots the producer may
  believe occupied (\<open>head_lag\<close> more than really are) never exceed the capacity, and the
  publications the consumer has not seen are all still queued.
\<close>

definition ring_sys_rep :: "'a ring_sys \<Rightarrow> 'a list \<Rightarrow> bool" where
  "ring_sys_rep s xs \<longleftrightarrow>
     chan_rep (sys_chan s) (length (taken_of (consumer_pc s))) xs (staged_of (producer_pc s)) \<and>
     head_lag s + length (taken_of (consumer_pc s)) + length xs + length (staged_of (producer_pc s))
       \<le> chan_cap (sys_chan s) \<and>
     tail_lag s \<le> length xs \<and> (consumer_pc s = C_Nonempty \<longrightarrow> tail_lag s < length xs) \<and>
     accepted s = delivered s @ taken_of (consumer_pc s) @ xs \<and>
     mset (offered s) = mset (accepted s) + mset (handed_back s) + mset (offer_of (producer_pc s)) \<and>
     (close_seen s \<longrightarrow> is_closed (chan_ring (sys_chan s)) \<and> tail_lag s = 0) \<and>
     (drained s \<longrightarrow> close_seen s \<and> xs = [] \<and> consumer_pc s = C_Idle) \<and>
     \<not> faulted s"

lemma staged_push_rep:
  assumes rep: "ring_sys_rep s xs" and pc: "producer_pc s = P_Open v" and lag: "lag \<le> head_lag s"
  shows "ring_sys_rep (staged_push s v lag) xs"
proof -
  let ?c = "sys_chan s" and ?hole = "length (taken_of (consumer_pc s))"
  let ?h = "ring_head (chan_ring ?c) - STEP * of_nat lag"
  have chan: "chan_rep ?c ?hole xs []" and cap: "lag + ?hole + length xs \<le> chan_cap ?c"
    using rep pc lag by (simp_all add: ring_sys_rep_def)
  have "?h + STEP * of_nat lag = ring_head (chan_ring ?c)"
    by simp
  note stage = push_stage_rep [OF chan this cap, of v]
  show ?thesis
  proof (cases "lag + ?hole + length xs = chan_cap ?c")
    case True
    then show ?thesis
      using stage rep pc by (simp add: staged_push_def ring_sys_rep_def)
  next
    case False
    then obtain c' where "push_stage ?c ?h v = Return (Inr c')" "chan_rep c' ?hole xs [v]"
        "is_closed (chan_ring c') = is_closed (chan_ring ?c)" "chan_cap c' = chan_cap ?c"
      using stage by auto
    then show ?thesis
      using False cap rep pc by (simp add: staged_push_def ring_sys_rep_def)
  qed
qed

lemma published_push_rep:
  assumes rep: "ring_sys_rep s xs" and pc: "producer_pc s = P_Staged v"
  shows "\<exists>ys. ring_sys_rep (published_push s v) ys"
proof -
  let ?c = "sys_chan s" and ?hole = "length (taken_of (consumer_pc s))"
  have chan: "chan_rep ?c ?hole xs [v]"
    using rep pc by (simp add: ring_sys_rep_def)
  note publish = push_publish_rep [OF chan]
  show ?thesis
  proof (cases "is_closed (chan_ring ?c)")
    case True
    then obtain c' where "push_publish ?c = Return (Inl (Closed v), c')" "chan_rep c' ?hole xs []"
        "is_closed (chan_ring c')" "chan_cap c' = chan_cap ?c"
      using publish by auto
    then have "ring_sys_rep (published_push s v) xs"
      using rep pc by (simp add: published_push_def ring_sys_rep_def)
    then show ?thesis ..
  next
    case False
    then obtain c' where "push_publish ?c = Return (Inr (), c')" "chan_rep c' ?hole (xs @ [v]) []"
        "\<not> is_closed (chan_ring c')" "chan_cap c' = chan_cap ?c"
      using publish by auto
    then have "ring_sys_rep (published_push s v) (xs @ [v])"
      using rep pc False by (auto simp: published_push_def ring_sys_rep_def)
    then show ?thesis ..
  qed
qed

lemma taken_pop_rep:
  assumes rep: "ring_sys_rep s xs" and pc: "consumer_pc s = C_Nonempty"
  shows "\<exists>ys. ring_sys_rep (taken_pop s) ys"
proof -
  have "xs \<noteq> []"
    using rep pc by (auto simp: ring_sys_rep_def)
  then obtain x ys where xs: "xs = x # ys"
    by (cases xs) auto
  then have "chan_rep (sys_chan s) 0 (x # ys) (staged_of (producer_pc s))"
    using rep pc by (simp add: ring_sys_rep_def)
  from pop_take_rep [OF this] obtain c' where "pop_take (sys_chan s) = Return (x, c')" "chan_rep c' 1 ys (staged_of (producer_pc s))"
      "is_closed (chan_ring c') = is_closed (chan_ring (sys_chan s))" "chan_cap c' = chan_cap (sys_chan s)"
    by blast
  then have "ring_sys_rep (taken_pop s) ys"
    using rep pc xs by (auto simp: taken_pop_def ring_sys_rep_def)
  then show ?thesis ..
qed

lemma pop_observe:
  assumes rep: "ring_sys_rep s xs" and pc: "consumer_pc s = C_Idle" and lag: "lag \<le> tail_lag s"
  shows "cached_head (sys_chan s) = cached_tail (sys_chan s) - STEP * of_nat lag \<longleftrightarrow> lag = length xs"
proof -
  have chan: "chan_rep (sys_chan s) 0 xs (staged_of (producer_pc s))" and le: "lag \<le> length xs"
    using rep pc lag by (simp_all add: ring_sys_rep_def)
  from chan show ?thesis
  proof (rule chan_repE)
    let ?r = "chan_ring (sys_chan s)"
    assume shape: "ring_shape ?r" and hd: "cached_head (sys_chan s) = ring_head ?r"
      and t: "cached_tail (sys_chan s) = ring_head ?r + STEP * of_nat (0 + length xs)"
      and len: "0 + length xs + length (staged_of (producer_pc s)) \<le> chan_cap (sys_chan s)"
    have "cached_tail (sys_chan s) - STEP * of_nat lag = cached_head (sys_chan s) + STEP * of_nat (length xs - lag)"
      using le by (simp add: hd t algebra_simps)
    moreover have "length xs - lag < 2 ^ 63"
      using len shape_capacity(1) [OF shape] by (simp add: chan_cap_def)
    ultimately show ?thesis
      using STEP_times_eq_0 [of "length xs - lag"] le by auto
  qed
qed

lemma ring_step_rep:
  assumes "ring_step s s'" "ring_sys_rep s xs"
  shows "\<exists>ys. ring_sys_rep s' ys"
  using assms
proof (induction rule: ring_step.induct)
  case (push_write s v lag)
  then show ?case by (intro exI [of _ xs] staged_push_rep)
next
  case (push_commit s v)
  then show ?case by (intro published_push_rep)
next
  case (pop_read s)
  then show ?case by (intro taken_pop_rep)
next
  case (pop_empty s lag)
  have "lag = length xs"
    using pop_observe [OF pop_empty(4,1,2)] pop_empty(3) by simp
  then have "ring_sys_rep (s\<lparr> tail_lag := lag, drained := (drained s \<or> close_seen s) \<rparr>) xs"
    using pop_empty by (auto simp: ring_sys_rep_def)
  then show ?case ..
next
  case (pop_nonempty s lag)
  have "lag \<noteq> length xs"
    using pop_observe [OF pop_nonempty(4,1,2)] pop_nonempty(3) by simp
  then have "ring_sys_rep (s\<lparr> tail_lag := lag, consumer_pc := C_Nonempty \<rparr>) xs"
    using pop_nonempty by (auto simp: ring_sys_rep_def)
  then show ?case ..
next
  case (pop_advance s v)
  then have "ring_sys_rep (s\<lparr> sys_chan := pop_return (sys_chan s), consumer_pc := C_Idle,
                     delivered := delivered s @ [v], head_lag := Suc (head_lag s) \<rparr>) xs"
    using pop_return_rep [of "sys_chan s" xs "staged_of (producer_pc s)"]
    by (auto simp: ring_sys_rep_def)
  then show ?case ..
next
  case (push_refused s v)
  then show ?case by (intro exI [of _ xs]) (auto simp: ring_sys_rep_def)
next
  case (push_open s v)
  then show ?case by (intro exI [of _ xs]) (auto simp: ring_sys_rep_def)
next
  case (see_close s)
  then show ?case by (intro exI [of _ xs]) (auto simp: ring_sys_rep_def)
next
  case (close_tx s)
  then show ?case 
    using close_rep [of "sys_chan s" "length (taken_of (consumer_pc s))" xs "staged_of (producer_pc s)"]
    by (intro exI [of _ xs]) (auto simp: ring_sys_rep_def)
next
  case (close_rx s)
  then show ?case 
    using close_rep [of "sys_chan s" "length (taken_of (consumer_pc s))" xs "staged_of (producer_pc s)"]
    by (intro exI [of _ xs]) (auto simp: ring_sys_rep_def)
qed

lemma ring_step_cap:
  assumes "ring_step s s'" "ring_sys_rep s xs"
  shows "chan_cap (sys_chan s') = chan_cap (sys_chan s)"
  using assms
  by (cases rule: ring_step.cases)
    (auto simp: staged_push_def published_push_def taken_pop_def push_stage_def push_publish_def
      pop_take_def pop_return_def sender_close_def receiver_close_def buf_write_def buf_read_def
      chan_cap_def Let_def split: outcome.splits sum.splits prod.splits option.splits if_splits)

lemma ring_reachable_rep:
  assumes "ring_reachable capacity s" "is_power_of_two capacity" "capacity < 2 ^ 63"
  shows "\<exists>xs. ring_sys_rep s xs \<and> chan_cap (sys_chan s) = unat capacity"
  using assms
proof (induction rule: ring_reachable.induct)
  case (init c)
  then have "chan_rep c 0 [] []" "chan_cap c = unat capacity"
    using channel_new_inv [OF init(2,3), where ?'a = 'a] by auto
  then show ?case
    by (intro exI [of _ "[]"]) (simp add: ring_sys_rep_def ring_sys_init_def)
next
  case (step s s')
  then obtain xs where xs: "ring_sys_rep s xs" "chan_cap (sys_chan s) = unat capacity"
    by blast
  obtain ys where ys: "ring_sys_rep s' ys"
    using ring_step_rep [OF step(2) xs(1)] by blast
  show ?case
    using ys ring_step_cap [OF step(2) xs(1)] xs(2) by (intro exI [of _ ys]) simp
qed

text \<open>
  C4: In every interleaving of one producer and one consumer, with stale loads on both sides and
  either side closing at any moment, no step panics, fails its debug assertion or touches an
  uninitialised slot; the values delivered are a prefix, in order, of the values accepted; every
  offered value is accepted, handed back or still held by its push; and once \<open>recv\<close> has resolved
  to \<open>None\<close> every accepted value has been delivered: a push that races the close is never
  accepted and stranded. At most \<open>capacity\<close> accepted values are undelivered.
\<close>

theorem ring_interleavings_deliver_accepted:
  assumes "ring_reachable capacity s" "is_power_of_two capacity" "capacity < 2 ^ 63"
  shows "\<not> faulted s \<and>
         (\<exists>rest. accepted s = delivered s @ rest \<and> length rest \<le> unat capacity) \<and>
         mset (offered s) = mset (accepted s) + mset (handed_back s) + mset (offer_of (producer_pc s)) \<and>
         (drained s \<longrightarrow> delivered s = accepted s)"
proof -
  obtain xs where xs: "ring_sys_rep s xs" "chan_cap (sys_chan s) = unat capacity"
    using ring_reachable_rep [OF assms] by blast
  then have "length (taken_of (consumer_pc s) @ xs) \<le> unat capacity"
    by (simp add: ring_sys_rep_def)
  then have "\<exists>rest. accepted s = delivered s @ rest \<and> length rest \<le> unat capacity"
    using xs(1) by (intro exI [of _ "taken_of (consumer_pc s) @ xs"]) (simp add: ring_sys_rep_def)
  then show ?thesis
    using xs(1) by (auto simp: ring_sys_rep_def)
qed

text \<open>A push that has passed its closed check and written its slot when the receiver closes.\<close>

definition race_open :: "nat ring_sys" where
  "race_open =
     (case channel_new 2 of
        Return c \<Rightarrow> (ring_sys_init c)\<lparr> offered := [5], producer_pc := P_Open 5 \<rparr>)"

definition race_closed :: "nat ring_sys" where
  "race_closed =
     (let s = staged_push race_open 5 0; s' = s\<lparr> sys_chan := receiver_close (sys_chan s) \<rparr>;
          s'' = published_push s' 5
      in s''\<lparr> close_seen := True, tail_lag := 0 \<rparr>)"

lemmas race_simps = channel_new_def is_power_of_two_def ring_sys_init_def staged_push_def push_stage_def
  buf_write_def buf_read_def slot_of_def STEP_def CLOSED_def receiver_close_def wake_producer_def
  wake_fire_def wake_cell_new_def published_push_def push_publish_def nth_opt_def is_closed_def Let_def
  upt_rec

lemma race_closed_reachable: "ring_reachable 2 race_closed"
proof -
  obtain c :: "nat channel" where c: "channel_new 2 = Return c"
    by (simp add: channel_new_def is_power_of_two_def upt_rec)
  let ?s1 = "staged_push race_open 5 0"
  let ?s2 = "?s1\<lparr> sys_chan := receiver_close (sys_chan ?s1) \<rparr>"
  have "ring_reachable 2 race_open"
    using ring_reachable.step [OF ring_reachable.init [OF c] ring_step.push_open [of _ 5]] c
    by (simp add: race_open_def ring_sys_init_def)
  then have "ring_reachable 2 ?s1"
    by (rule ring_reachable.step) (rule ring_step.push_write, simp_all add: race_open_def race_simps)
  then have "ring_reachable 2 ?s2"
    by (rule ring_reachable.step) (rule ring_step.close_rx)
  then have "ring_reachable 2 (published_push ?s2 5)"
    by (rule ring_reachable.step) (rule ring_step.push_commit, simp add: race_open_def race_simps)
  then show ?thesis
    unfolding race_closed_def Let_def
    by (rule ring_reachable.step) (rule ring_step.see_close, simp_all add: race_open_def race_simps)
qed

lemma race_closed_back: "handed_back race_closed = [5]"
  by (simp add: race_closed_def race_open_def race_simps)

lemma is_power_of_two_2: "is_power_of_two 2"
  by (simp add: is_power_of_two_def upt_rec)

theorem ring_interleavings_deliver_accepted_witness:
  "handed_back race_closed = [5] \<and> \<not> faulted race_closed \<and>
   (\<exists>rest. accepted race_closed = delivered race_closed @ rest \<and> length rest \<le> 2) \<and>
   mset (offered race_closed) = mset (accepted race_closed) + mset (handed_back race_closed)
     + mset (offer_of (producer_pc race_closed))"
  using ring_interleavings_deliver_accepted [OF race_closed_reachable is_power_of_two_2] race_closed_back
  by simp

section \<open>Polling\<close>


definition small_channel :: "nat channel" where
  "small_channel =
     \<lparr> chan_ring = \<lparr> ring_buffer = [None, None], ring_mask = 1, ring_capacity = 2,
                     ring_head = 0, ring_tail = 0, consumer_waker = wake_cell_new,
                     producer_waker = wake_cell_new, woken = [] \<rparr>,
       cached_tail = 0, cached_head = 0 \<rparr>"

lemma small_channel_new: "channel_new 2 = Return small_channel"
  by (simp add: channel_new_def is_power_of_two_2 small_channel_def) (simp add: numeral_2_eq_2)

lemma small_channel_inv: "chan_inv small_channel"
  using channel_new_inv [OF is_power_of_two_2, where ?'a = nat] small_channel_new
  by (auto simp: chan_inv_iff)


end
