(* ===== verification/Wake.thy ===== *)
theory Wake
  imports Prelude
begin

text \<open>
  The two-flag wakeup protocol of \<^verbatim>\<open>models/wake/src/lib.rs\<close>: producers flag \<open>pending\<close> and ring
  the doorbell when the consumer may be about to block; the consumer announces \<open>might_block\<close> and
  re-checks \<open>pending\<close> before it waits. All accesses are sequentially consistent, so a run is an
  interleaving of the atomic accesses.
\<close>

section \<open>The protocol\<close>

text \<open>The doorbell is a counting semaphore: \<open>ring\<close> deposits a token, \<open>wait\<close> consumes all of them.\<close>

record wake_protocol =
  pending :: bool
  might_block :: bool
  tokens :: nat

definition wake_protocol_new :: wake_protocol where
  "wake_protocol_new = \<lparr> pending = False, might_block = False, tokens = 0 \<rparr>"

definition bell_ring :: "wake_protocol \<Rightarrow> wake_protocol" where
  "bell_ring s = s\<lparr> tokens := Suc (tokens s) \<rparr>"

text \<open>\<open>None\<close>: the caller stays blocked.\<close>

definition bell_wait :: "wake_protocol \<Rightarrow> wake_protocol option" where
  "bell_wait s = (if tokens s = 0 then None else Some (s\<lparr> tokens := 0 \<rparr>))"

text \<open>\<open>publish\<close>: the swap of \<open>pending\<close>, then the decision on the value of \<open>might_block\<close>.\<close>

definition publish_swap :: "wake_protocol \<Rightarrow> bool \<times> wake_protocol" where
  "publish_swap s = (pending s, s\<lparr> pending := True \<rparr>)"

definition publish_decide :: "bool \<Rightarrow> wake_protocol \<Rightarrow> bool" where
  "publish_decide was_pending s = (if \<not> might_block s then False else if was_pending then False else True)"

definition publish :: "wake_protocol \<Rightarrow> bool \<times> wake_protocol" where
  "publish s =
     (let (was_pending, s') = publish_swap s in
      if publish_decide was_pending s' then (True, bell_ring s') else (False, s'))"

definition take_pending :: "wake_protocol \<Rightarrow> bool \<times> wake_protocol" where
  "take_pending s = (pending s, s\<lparr> pending := False \<rparr>)"

definition park_announce :: "wake_protocol \<Rightarrow> wake_protocol" where
  "park_announce s = s\<lparr> might_block := True \<rparr>"

definition park_resume :: "wake_protocol \<Rightarrow> wake_protocol" where
  "park_resume s = s\<lparr> might_block := False \<rparr>"

definition park_if_idle :: "wake_protocol \<Rightarrow> (bool \<times> wake_protocol) option" where
  "park_if_idle s =
     (let s' = park_announce s in
      if pending s' then Some (False, park_resume s')
      else case bell_wait s' of None \<Rightarrow> None | Some s'' \<Rightarrow> Some (True, park_resume s''))"

section \<open>Producers and the consumer, interleaved\<close>

text \<open>
  A producer makes a work item visible and then publishes; the consumer loops: take \<open>pending\<close>, drain
  the queue until it is seen empty, and park when the drain found nothing. \<open>work\<close> counts the items
  in the queue; \<open>edges\<close>, \<open>clears\<close> and \<open>rings\<close> count the false-to-true swaps of \<open>pending\<close>, the
  swaps back, and the doorbell rings.
\<close>

datatype wake_producer = W_Idle | W_Visible | W_Swapped bool | W_Ringing

datatype wake_consumer = L_Top | L_Drain bool | L_Park | L_Announced | L_Waiting | L_Resume

record wake_sys =
  proto :: wake_protocol
  work :: nat
  producers :: "wake_producer list"
  consumer :: wake_consumer
  edges :: nat
  clears :: nat
  rings :: nat

definition wake_sys_init :: "nat \<Rightarrow> wake_sys" where
  "wake_sys_init n =
     \<lparr> proto = wake_protocol_new, work = 0, producers = replicate n W_Idle, consumer = L_Top,
       edges = 0, clears = 0, rings = 0 \<rparr>"

definition pc_at :: "wake_sys \<Rightarrow> nat \<Rightarrow> wake_producer \<Rightarrow> bool" where
  "pc_at s i pc \<longleftrightarrow> i < length (producers s) \<and> producers s ! i = pc"

definition goto :: "wake_sys \<Rightarrow> nat \<Rightarrow> wake_producer \<Rightarrow> wake_sys" where
  "goto s i pc = s\<lparr> producers := list_update (producers s) i pc \<rparr>"

inductive wake_step :: "wake_sys \<Rightarrow> wake_sys \<Rightarrow> bool" where
  produce: "pc_at s i W_Idle \<Longrightarrow> wake_step s ((goto s i W_Visible)\<lparr> work := Suc (work s) \<rparr>)"
| swap: "pc_at s i W_Visible \<Longrightarrow> publish_swap (proto s) = (was, p) \<Longrightarrow>
     wake_step s ((goto s i (W_Swapped was))\<lparr> proto := p, edges := edges s + (if was then 0 else 1) \<rparr>)"
| decide: "pc_at s i (W_Swapped was) \<Longrightarrow>
     wake_step s (goto s i (if publish_decide was (proto s) then W_Ringing else W_Idle))"
| ring: "pc_at s i W_Ringing \<Longrightarrow>
     wake_step s ((goto s i W_Idle)\<lparr> proto := bell_ring (proto s), rings := Suc (rings s) \<rparr>)"
| take: "consumer s = L_Top \<Longrightarrow> take_pending (proto s) = (was, p) \<Longrightarrow>
     wake_step s (s\<lparr> consumer := L_Drain False, proto := p, clears := clears s + (if was then 1 else 0) \<rparr>)"
| drain: "consumer s = L_Drain found \<Longrightarrow> 0 < work s \<Longrightarrow>
     wake_step s (s\<lparr> consumer := L_Drain True, work := work s - 1 \<rparr>)"
| drained: "consumer s = L_Drain found \<Longrightarrow> work s = 0 \<Longrightarrow>
     wake_step s (s\<lparr> consumer := (if found then L_Top else L_Park) \<rparr>)"
| announce: "consumer s = L_Park \<Longrightarrow>
     wake_step s (s\<lparr> consumer := L_Announced, proto := park_announce (proto s) \<rparr>)"
| recheck: "consumer s = L_Announced \<Longrightarrow>
     wake_step s (s\<lparr> consumer := (if pending (proto s) then L_Resume else L_Waiting) \<rparr>)"
| wakeup: "consumer s = L_Waiting \<Longrightarrow> bell_wait (proto s) = Some p \<Longrightarrow>
     wake_step s (s\<lparr> consumer := L_Resume, proto := p \<rparr>)"
| resume: "consumer s = L_Resume \<Longrightarrow>
     wake_step s (s\<lparr> consumer := L_Top, proto := park_resume (proto s) \<rparr>)"

inductive wake_reachable :: "nat \<Rightarrow> wake_sys \<Rightarrow> bool" for n where
  init: "wake_reachable n (wake_sys_init n)"
| step: "wake_reachable n s \<Longrightarrow> wake_step s s' \<Longrightarrow> wake_reachable n s'"

section \<open>The invariant\<close>

text \<open>Producers that own an edge and have not yet decided, or are about to ring.\<close>

definition owing :: "wake_sys \<Rightarrow> nat" where
  "owing s = length (filter (\<lambda>pc. pc = W_Swapped False \<or> pc = W_Ringing) (producers s))"

definition wake_inv :: "wake_sys \<Rightarrow> bool" where
  "wake_inv s \<longleftrightarrow>
     (might_block (proto s) \<longleftrightarrow> consumer s \<in> {L_Announced, L_Waiting, L_Resume}) \<and>
     (0 < work s \<longrightarrow>
        pending (proto s) \<or> W_Visible \<in> set (producers s) \<or> (\<exists>found. consumer s = L_Drain found)) \<and>
     (consumer s = L_Waiting \<longrightarrow> pending (proto s) \<longrightarrow> 0 < tokens (proto s) \<or> 0 < owing s) \<and>
     edges s = clears s + (if pending (proto s) then 1 else 0) \<and>
     rings s + owing s \<le> edges s"

lemmas wake_defs = publish_swap_def publish_decide_def bell_ring_def bell_wait_def take_pending_def
  park_announce_def park_resume_def goto_def pc_at_def

lemma length_filter_update:
  assumes "i < length xs"
  shows "length (filter P (list_update xs i y)) + (if P (xs ! i) then 1 else 0)
       = length (filter P xs) + (if P y then 1 else 0)"
  using assms
proof (induction xs arbitrary: i)
  case (Cons x xs)
  then show ?case by (cases i) auto
qed simp

lemma owing_goto:
  assumes "pc_at s i pc"
  shows "owing (goto s i pc') + (if pc = W_Swapped False \<or> pc = W_Ringing then 1 else 0)
       = owing s + (if pc' = W_Swapped False \<or> pc' = W_Ringing then 1 else 0)"
  using assms length_filter_update [of i "producers s" "\<lambda>pc. pc = W_Swapped False \<or> pc = W_Ringing" pc']
  by (auto simp: owing_def goto_def pc_at_def)

lemma owing_cong [simp]: "owing (s\<lparr> work := w \<rparr>) = owing s" "owing (s\<lparr> proto := p \<rparr>) = owing s"
  "owing (s\<lparr> edges := w \<rparr>) = owing s" "owing (s\<lparr> rings := w \<rparr>) = owing s"
  "owing (s\<lparr> clears := w \<rparr>) = owing s" "owing (s\<lparr> consumer := c \<rparr>) = owing s"
  by (simp_all add: owing_def)

lemma goto_simps [simp]:
  "work (goto s i pc) = work s" "proto (goto s i pc) = proto s" "consumer (goto s i pc) = consumer s"
  "edges (goto s i pc) = edges s" "clears (goto s i pc) = clears s" "rings (goto s i pc) = rings s"
  by (simp_all add: goto_def)

lemma visible_goto:
  assumes "pc_at s i pc" "pc \<noteq> W_Visible" "W_Visible \<in> set (producers s)"
  shows "W_Visible \<in> set (producers (goto s i pc'))"
proof -
  obtain j where "j < length (producers s)" "producers s ! j = W_Visible"
    using assms(3) by (auto simp: in_set_conv_nth)
  moreover from this have "j \<noteq> i"
    using assms(1,2) by (auto simp: pc_at_def)
  ultimately show ?thesis
    by (auto simp: goto_def in_set_conv_nth intro!: exI [of _ j])
qed

lemma visible_goto_self: "pc_at s i pc \<Longrightarrow> W_Visible \<in> set (producers (goto s i W_Visible))"
  by (simp add: goto_def pc_at_def set_update_memI)

lemma wake_step_inv:
  assumes "wake_step s s'" "wake_inv s"
  shows "wake_inv s'"
  using assms
proof (induction rule: wake_step.induct)
  case (produce s i)
  then show ?case
    using owing_goto [of s i W_Idle W_Visible] visible_goto_self [of s i] by (simp add: wake_inv_def)
next
  case (swap s i was p)
  then show ?case
    using owing_goto [of s i W_Visible "W_Swapped was"] by (auto simp: wake_inv_def publish_swap_def)
next
  case (decide s i was)
  then show ?case
    using owing_goto [of s i "W_Swapped was" W_Ringing] owing_goto [of s i "W_Swapped was" W_Idle]
      visible_goto [of s i "W_Swapped was" W_Ringing] visible_goto [of s i "W_Swapped was" W_Idle]
    by (auto simp: wake_inv_def publish_decide_def split: if_splits)
next
  case (ring s i)
  then show ?case
    using owing_goto [of s i W_Ringing W_Idle] visible_goto [of s i W_Ringing W_Idle]
    by (auto simp: wake_inv_def bell_ring_def)
next
  case (take s was p)
  then show ?case by (auto simp: wake_inv_def take_pending_def)
next
  case (wakeup s p)
  then show ?case by (auto simp: wake_inv_def bell_wait_def split: if_splits)
qed (auto simp: wake_inv_def park_announce_def park_resume_def)

lemma wake_reachable_inv: "wake_reachable n s \<Longrightarrow> wake_inv s"
proof (induction rule: wake_reachable.induct)
  case init
  show ?case
    by (simp add: wake_inv_def wake_sys_init_def wake_protocol_new_def owing_def)
qed (rule wake_step_inv)

text \<open>
  C7: No wakeup is lost. In every interleaving of any number of producers with the consumer, when the
  consumer is blocked on a doorbell without a token and every producer has finished, the queue is
  empty: no published item is ever stranded behind a sleeping consumer.
\<close>

theorem wake_no_lost_wakeup:
  assumes "wake_reachable n s" "consumer s = L_Waiting" "tokens (proto s) = 0"
    and "set (producers s) \<subseteq> {W_Idle}"
  shows "work s = 0"
proof -
  have "owing s = 0"
    using assms(4) by (auto simp: owing_def filter_empty_conv)
  then show ?thesis
    using wake_reachable_inv [OF assms(1)] assms(2-4) by (auto simp: wake_inv_def)
qed

text \<open>A consumer that found nothing and went to sleep.\<close>

definition asleep :: wake_sys where
  "asleep = (wake_sys_init 1)\<lparr> consumer := L_Waiting, proto := park_announce wake_protocol_new \<rparr>"

lemma asleep_reachable: "wake_reachable 1 asleep"
proof -
  let ?s0 = "wake_sys_init 1"
  let ?s1 = "?s0\<lparr> consumer := L_Drain False \<rparr>" and ?s2 = "?s0\<lparr> consumer := L_Park \<rparr>"
  let ?s3 = "?s0\<lparr> consumer := L_Announced, proto := park_announce wake_protocol_new \<rparr>"
  have "wake_step ?s0 ?s1"
    using wake_step.take [of ?s0 False wake_protocol_new]
    by (simp add: wake_sys_init_def take_pending_def wake_protocol_new_def)
  moreover have "wake_step ?s1 ?s2"
    using wake_step.drained [of ?s1 False] by (simp add: wake_sys_init_def)
  moreover have "wake_step ?s2 ?s3"
    using wake_step.announce [of ?s2] by (simp add: wake_sys_init_def)
  moreover have "wake_step ?s3 asleep"
    using wake_step.recheck [of ?s3]
    by (simp add: wake_sys_init_def asleep_def park_announce_def wake_protocol_new_def)
  ultimately show ?thesis
    by (meson wake_reachable.intros)
qed

theorem wake_no_lost_wakeup_witness: "consumer asleep = L_Waiting \<and> work asleep = 0"
  using wake_no_lost_wakeup [OF asleep_reachable]
  by (simp add: asleep_def wake_sys_init_def park_announce_def wake_protocol_new_def)

text \<open>
  Wakes coalesce. In every interleaving the doorbell rings at most once per false-to-true edge of
  \<open>pending\<close>, so at most one time more than the consumer's takes that found the flag set,
  however many items were published.
\<close>

theorem wake_rings_coalesce:
  assumes "wake_reachable n s"
  shows "rings s \<le> edges s \<and> edges s \<le> clears s + 1"
  using wake_reachable_inv [OF assms] by (simp add: wake_inv_def)

theorem wake_rings_coalesce_witness: "rings asleep \<le> edges asleep \<and> edges asleep \<le> clears asleep + 1"
  by (rule wake_rings_coalesce [OF asleep_reachable])

end
