(* ===== verification/Codec.thy ===== *)
theory Codec
  imports Prelude
begin

text \<open>
  The contract of an encoder and its decoder, over the values the encoder is meant for. A client
  that keeps only encoded values (a packed atomic, a cache file, a framed stream) reads back what
  was put.
\<close>

locale codec =
  fixes enc :: "'a \<Rightarrow> 'b"
    and dec :: "'b \<Rightarrow> 'a option"
    and ok :: "'a \<Rightarrow> bool"
  assumes round_trip: "ok x \<Longrightarrow> dec (enc x) = Some x"
begin

lemma enc_inj: "ok x \<Longrightarrow> ok y \<Longrightarrow> enc x = enc y \<Longrightarrow> x = y"
  by (metis round_trip option.inject)

text \<open>A cell that is only ever written with encoded values always decodes to the last one written.\<close>

lemma last_write:
  assumes "ok x" "list_all ok ws"
  shows "dec (foldl (\<lambda>_ w. enc w) (enc x) ws) = Some (last (x # ws))"
  using assms by (induction ws arbitrary: x) (simp_all add: round_trip)

end

end
