(* ===== verification/Config_Publish.thy ===== *)
theory Config_Publish
  imports Codec
begin

unbundle bit_operations_syntax

text \<open>
  Publication of the rate-gate pair (limit, window), after
  \<^verbatim>\<open>models/config-publish/src/lib.rs\<close>: as two independent atomics, the shape of \<open>config.rs\<close>,
  and packed into one; and the buffer lease of \<^verbatim>\<open>models/borrow-recycle/src/lib.rs\<close>.
\<close>

section \<open>The pair in two atomics\<close>

type_synonym gen = "u32 \<times> u32"

definition GEN0 :: gen where "GEN0 = (100, 1000)"

definition GEN1 :: gen where "GEN1 = (5, 60000)"

definition is_a_generation :: "gen \<Rightarrow> bool" where
  "is_a_generation g \<longleftrightarrow> g = GEN0 \<or> g = GEN1"

record torn_config =
  torn_limit :: u32
  torn_window :: u32

definition torn_new :: "gen \<Rightarrow> torn_config" where
  "torn_new g = \<lparr> torn_limit = fst g, torn_window = snd g \<rparr>"

definition torn_store_limit :: "gen \<Rightarrow> torn_config \<Rightarrow> torn_config" where
  "torn_store_limit g c = c\<lparr> torn_limit := fst g \<rparr>"

definition torn_store_window :: "gen \<Rightarrow> torn_config \<Rightarrow> torn_config" where
  "torn_store_window g c = c\<lparr> torn_window := snd g \<rparr>"

definition torn_publish :: "gen \<Rightarrow> torn_config \<Rightarrow> torn_config" where
  "torn_publish g c = torn_store_window g (torn_store_limit g c)"

definition torn_observe :: "torn_config \<Rightarrow> gen" where
  "torn_observe c = (torn_limit c, torn_window c)"

section \<open>The pair in one atomic\<close>

definition pack :: "gen \<Rightarrow> u64" where
  "pack g = push_bit 32 (ucast (fst g)) OR ucast (snd g)"

definition unpack :: "u64 \<Rightarrow> gen" where
  "unpack v = (ucast (drop_bit 32 v), ucast (v AND 0xffffffff))"

record packed_config =
  packed_pair :: u64

definition packed_new :: "gen \<Rightarrow> packed_config" where
  "packed_new g = \<lparr> packed_pair = pack g \<rparr>"

definition packed_publish :: "gen \<Rightarrow> packed_config \<Rightarrow> packed_config" where
  "packed_publish g c = c\<lparr> packed_pair := pack g \<rparr>"

definition packed_observe :: "packed_config \<Rightarrow> gen" where
  "packed_observe c = unpack (packed_pair c)"

section \<open>The buffer lease\<close>

record lease =
  lease_bid :: u32

definition lease_held :: "u32 \<Rightarrow> lease outcome" where
  "lease_held bid = (if bid = 0 then Panic else Return \<lparr> lease_bid = bid \<rparr>)"

definition lease_take :: "lease \<Rightarrow> u32 option \<times> lease" where
  "lease_take l = (if lease_bid l = 0 then None else Some (lease_bid l), l\<lparr> lease_bid := 0 \<rparr>)"

definition lease_is_held :: "lease \<Rightarrow> bool" where
  "lease_is_held l \<longleftrightarrow> lease_bid l \<noteq> 0"

text \<open>A sequence of hand-backs, in the order their swaps take effect.\<close>

fun lease_takes :: "nat \<Rightarrow> lease \<Rightarrow> u32 option list \<times> lease" where
  "lease_takes 0 l = ([], l)"
| "lease_takes (Suc n) l = (let (r, l') = lease_take l; (rs, l'') = lease_takes n l' in (r # rs, l''))"

section \<open>Packing loses nothing\<close>

lemma mask_32: "(0xffffffff :: u64) = mask 32"
  by (simp add: mask_eq_exp_minus_1)

lemma unpack_pack: "unpack (pack g) = g"
proof (cases g)
  case (Pair l w)
  have "ucast (drop_bit 32 (pack (l, w))) = l"
    by (rule bit_word_eqI) (auto simp: pack_def bit_simps dest: bit_imp_le_length)
  moreover have "ucast (pack (l, w) AND 0xffffffff) = w"
    unfolding mask_32 by (rule bit_word_eqI) (auto simp: pack_def bit_simps)
  ultimately show ?thesis
    by (simp add: unpack_def Pair)
qed

lemma pack_unpack: "pack (unpack v) = v"
  unfolding mask_32 unpack_def pack_def
  by (rule bit_word_eqI) (auto simp: bit_simps not_less le_Suc_ex)

interpretation pair: codec pack "\<lambda>v. Some (unpack v)" "\<lambda>_. True"
  by unfold_locales (simp add: unpack_pack)

section \<open>Publishing and observing concurrently\<close>

text \<open>
  A writer publishes generations while a reader observes; \<open>authored\<close> holds the generations
  published so far (the one being published included), \<open>observed\<close> what the reads returned.
\<close>

datatype torn_writer = TW_Idle | TW_Mid gen

datatype torn_reader = TR_Idle | TR_Mid u32

record torn_sys =
  torn_cell :: torn_config
  torn_writer :: torn_writer
  torn_reader :: torn_reader
  torn_authored :: "gen list"
  torn_observed :: "gen list"

definition torn_init :: "gen \<Rightarrow> torn_sys" where
  "torn_init g =
     \<lparr> torn_cell = torn_new g, torn_writer = TW_Idle, torn_reader = TR_Idle, torn_authored = [g],
       torn_observed = [] \<rparr>"

inductive torn_step :: "torn_sys \<Rightarrow> torn_sys \<Rightarrow> bool" where
  store_limit: "torn_writer s = TW_Idle \<Longrightarrow>
     torn_step s (s\<lparr> torn_cell := torn_store_limit g (torn_cell s), torn_writer := TW_Mid g,
                     torn_authored := torn_authored s @ [g] \<rparr>)"
| store_window: "torn_writer s = TW_Mid g \<Longrightarrow>
     torn_step s (s\<lparr> torn_cell := torn_store_window g (torn_cell s), torn_writer := TW_Idle \<rparr>)"
| load_limit: "torn_reader s = TR_Idle \<Longrightarrow>
     torn_step s (s\<lparr> torn_reader := TR_Mid (torn_limit (torn_cell s)) \<rparr>)"
| load_window: "torn_reader s = TR_Mid l \<Longrightarrow>
     torn_step s (s\<lparr> torn_reader := TR_Idle,
                     torn_observed := torn_observed s @ [(l, torn_window (torn_cell s))] \<rparr>)"

inductive torn_reachable :: "gen \<Rightarrow> torn_sys \<Rightarrow> bool" for g0 where
  init: "torn_reachable g0 (torn_init g0)"
| step: "torn_reachable g0 s \<Longrightarrow> torn_step s s' \<Longrightarrow> torn_reachable g0 s'"

record packed_sys =
  packed_cell :: packed_config
  packed_authored :: "gen list"
  packed_observed :: "gen list"

definition packed_init :: "gen \<Rightarrow> packed_sys" where
  "packed_init g = \<lparr> packed_cell = packed_new g, packed_authored = [g], packed_observed = [] \<rparr>"

inductive packed_step :: "packed_sys \<Rightarrow> packed_sys \<Rightarrow> bool" where
  store: "packed_step s (s\<lparr> packed_cell := packed_publish g (packed_cell s),
                            packed_authored := packed_authored s @ [g] \<rparr>)"
| load: "packed_step s (s\<lparr> packed_observed := packed_observed s @ [packed_observe (packed_cell s)] \<rparr>)"

inductive packed_reachable :: "gen \<Rightarrow> packed_sys \<Rightarrow> bool" for g0 where
  init: "packed_reachable g0 (packed_init g0)"
| step: "packed_reachable g0 s \<Longrightarrow> packed_step s s' \<Longrightarrow> packed_reachable g0 s'"

definition packed_inv :: "packed_sys \<Rightarrow> bool" where
  "packed_inv s \<longleftrightarrow>
     packed_observe (packed_cell s) \<in> set (packed_authored s) \<and>
     set (packed_observed s) \<subseteq> set (packed_authored s)"

lemma packed_step_inv: "packed_step s s' \<Longrightarrow> packed_inv s \<Longrightarrow> packed_inv s'"
  by (induction rule: packed_step.induct)
    (auto simp: packed_inv_def packed_publish_def packed_observe_def unpack_pack)

text \<open>
  C8: With the pair packed into one 64-bit atomic, every read of the rate-gate configuration, in every
  interleaving with any number of reloads, is one whole published generation.
\<close>

theorem packed_observe_is_a_generation:
  assumes "packed_reachable g0 s" "g \<in> set (packed_observed s)"
  shows "g \<in> set (packed_authored s)"
proof -
  have "packed_inv s"
    using assms(1)
  proof (induction rule: packed_reachable.induct)
    case init
    show ?case
      by (simp add: packed_inv_def packed_init_def packed_new_def packed_observe_def unpack_pack)
  qed (rule packed_step_inv)
  then show ?thesis
    using assms(2) by (auto simp: packed_inv_def)
qed

definition packed_run :: packed_sys where
  "packed_run =
     \<lparr> packed_cell = packed_publish GEN1 (packed_new GEN0), packed_authored = [GEN0, GEN1],
       packed_observed = [packed_observe (packed_publish GEN1 (packed_new GEN0))] \<rparr>"

theorem packed_observe_is_a_generation_witness:
  "packed_observe (packed_publish GEN1 (packed_new GEN0)) \<in> {GEN0, GEN1}"
proof -
  let ?s = "(packed_init GEN0)\<lparr> packed_cell := packed_publish GEN1 (packed_new GEN0),
                               packed_authored := [GEN0, GEN1] \<rparr>"
  have "packed_reachable GEN0 ?s"
    using packed_reachable.step [OF packed_reachable.init packed_step.store [of "packed_init GEN0" GEN1]]
    by (simp add: packed_init_def)
  then have "packed_reachable GEN0 packed_run"
    using packed_reachable.step [OF _ packed_step.load, of GEN0 ?s]
    by (simp add: packed_init_def packed_run_def)
  then show ?thesis
    using packed_observe_is_a_generation [of GEN0 packed_run] by (simp add: packed_run_def)
qed

text \<open>
  With the pair in two atomics, the shape of the deployed configuration, a reader that runs between
  the two stores of a reload from the loose to the tight generation observes the new limit with the
  old window, and one whose two loads straddle the reload the old limit with the new window: pairs that
  no configuration ever authored.
\<close>

theorem torn_observe_crosses_generations:
  "(\<exists>s. torn_reachable GEN0 s \<and> torn_authored s = [GEN0, GEN1] \<and> torn_observed s = [(5, 1000)]) \<and>
   (\<exists>s. torn_reachable GEN0 s \<and> torn_authored s = [GEN0, GEN1] \<and> torn_observed s = [(100, 60000)]) \<and>
   \<not> is_a_generation (5, 1000) \<and> \<not> is_a_generation (100, 60000)"
proof (intro conjI)
  let ?a0 = "torn_init GEN0"
  let ?a1 = "?a0\<lparr> torn_cell := torn_store_limit GEN1 (torn_new GEN0), torn_writer := TW_Mid GEN1,
                  torn_authored := [GEN0, GEN1] \<rparr>"
  let ?a2 = "?a1\<lparr> torn_reader := TR_Mid 5 \<rparr>" and ?a3 = "?a1\<lparr> torn_observed := [(5, 1000)] \<rparr>"
  have "torn_step ?a0 ?a1"
    using torn_step.store_limit [of ?a0 GEN1] by (simp add: torn_init_def)
  moreover have "torn_step ?a1 ?a2"
    using torn_step.load_limit [of ?a1] by (simp add: torn_init_def torn_store_limit_def GEN1_def)
  moreover have "torn_step ?a2 ?a3"
    using torn_step.load_window [of ?a2 5]
    by (simp add: torn_init_def torn_store_limit_def torn_new_def GEN0_def)
  ultimately have "torn_reachable GEN0 ?a3"
    by (meson torn_reachable.intros)
  then show "\<exists>s. torn_reachable GEN0 s \<and> torn_authored s = [GEN0, GEN1] \<and> torn_observed s = [(5, 1000)]"
    by (intro exI [of _ ?a3]) simp
next
  let ?b0 = "torn_init GEN0"
  let ?b1 = "?b0\<lparr> torn_reader := TR_Mid 100 \<rparr>"
  let ?b2 = "?b1\<lparr> torn_cell := torn_store_limit GEN1 (torn_new GEN0), torn_writer := TW_Mid GEN1,
                  torn_authored := [GEN0, GEN1] \<rparr>"
  let ?b3 = "?b2\<lparr> torn_cell := torn_new GEN1, torn_writer := TW_Idle \<rparr>"
  let ?b4 = "?b3\<lparr> torn_reader := TR_Idle, torn_observed := [(100, 60000)] \<rparr>"
  have "torn_step ?b0 ?b1"
    using torn_step.load_limit [of ?b0] by (simp add: torn_init_def torn_new_def GEN0_def)
  moreover have "torn_step ?b1 ?b2"
    using torn_step.store_limit [of ?b1 GEN1] by (simp add: torn_init_def)
  moreover have "torn_step ?b2 ?b3"
    using torn_step.store_window [of ?b2 GEN1]
    by (simp add: torn_init_def torn_store_limit_def torn_store_window_def torn_new_def)
  moreover have "torn_step ?b3 ?b4"
    using torn_step.load_window [of ?b3 100] by (simp add: torn_init_def torn_new_def GEN1_def)
  ultimately have "torn_reachable GEN0 ?b4"
    by (meson torn_reachable.intros)
  then show "\<exists>s. torn_reachable GEN0 s \<and> torn_authored s = [GEN0, GEN1] \<and> torn_observed s = [(100, 60000)]"
    by (intro exI [of _ ?b4]) simp
qed (simp_all add: is_a_generation_def GEN0_def GEN1_def)

section \<open>A lease is taken once\<close>

lemma lease_take_empty: "lease_bid l = 0 \<Longrightarrow> lease_take l = (None, l)"
  by (cases l) (simp add: lease_take_def)

lemma lease_takes_empty: "lease_bid l = 0 \<Longrightarrow> lease_takes n l = (replicate n None, l)"
  by (induction n) (simp_all add: lease_take_empty)

text \<open>Of any number of racing hand-backs exactly the first to swap gets the buffer.\<close>

lemma lease_taken_once:
  assumes "lease_held bid = Return l"
  shows "lease_is_held l \<and> fst (lease_takes (Suc n) l) = Some bid # replicate n None \<and>
         \<not> lease_is_held (snd (lease_takes (Suc n) l))"
proof -
  have l: "lease_bid l = bid" "bid \<noteq> 0"
    using assms by (auto simp: lease_held_def split: if_splits)
  have "lease_takes n (l\<lparr> lease_bid := 0 \<rparr>) = (replicate n None, l\<lparr> lease_bid := 0 \<rparr>)"
    by (rule lease_takes_empty) simp
  then show ?thesis
    using l by (simp add: lease_take_def lease_is_held_def Let_def)
qed

end
