(* ===== verification/Bytes.thy ===== *)
theory Bytes
  imports Prelude
begin

text \<open>
  What the source uses of Rust's standard library on byte slices and strings: searching a slice,
  splitting it, ASCII case folding, UTF-8 validation, trimming, and decimal integers. A
  \<open>&str\<close> is the list of its UTF-8 bytes.
\<close>

section \<open>Characters\<close>

definition is_ascii_digit :: "byte \<Rightarrow> bool" where
  "is_ascii_digit b \<longleftrightarrow> 48 \<le> b \<and> b \<le> 57"

definition to_ascii_lowercase :: "byte \<Rightarrow> byte" where
  "to_ascii_lowercase b = (if 65 \<le> b \<and> b \<le> 90 then b + 32 else b)"

definition eq_ignore_ascii_case :: "bytes \<Rightarrow> bytes \<Rightarrow> bool" where
  "eq_ignore_ascii_case a b \<longleftrightarrow> map to_ascii_lowercase a = map to_ascii_lowercase b"

text \<open>\<open>u8::is_ascii_whitespace\<close>: space, tab, line feed, form feed, carriage return.\<close>

definition is_ascii_whitespace :: "byte \<Rightarrow> bool" where
  "is_ascii_whitespace b \<longleftrightarrow> b = 32 \<or> b = 9 \<or> b = 10 \<or> b = 12 \<or> b = 13"

lemma eq_ignore_ascii_case_refl [simp]: "eq_ignore_ascii_case a a"
  by (simp add: eq_ignore_ascii_case_def)

lemma eq_ignore_ascii_case_sym: "eq_ignore_ascii_case a b \<longleftrightarrow> eq_ignore_ascii_case b a"
  by (auto simp: eq_ignore_ascii_case_def)

lemma eq_ignore_ascii_case_length: "eq_ignore_ascii_case a b \<Longrightarrow> length a = length b"
  by (auto simp: eq_ignore_ascii_case_def dest: map_eq_imp_length_eq)

section \<open>Searching\<close>

definition starts_with :: "'a list \<Rightarrow> 'a list \<Rightarrow> bool" where
  "starts_with hay pre \<longleftrightarrow> take (length pre) hay = pre"

definition ends_with :: "'a list \<Rightarrow> 'a list \<Rightarrow> bool" where
  "ends_with hay suf \<longleftrightarrow> length suf \<le> length hay \<and> drop (length hay - length suf) hay = suf"

lemma starts_with_iff: "starts_with hay pre \<longleftrightarrow> (\<exists>rest. hay = pre @ rest)"
  unfolding starts_with_def by (metis append_eq_conv_conj append_take_drop_id)

text \<open>\<open>iter().position(p)\<close>.\<close>

fun position :: "('a \<Rightarrow> bool) \<Rightarrow> 'a list \<Rightarrow> nat option" where
  "position p [] = None"
| "position p (x # xs) = (if p x then Some 0 else map_option Suc (position p xs))"

lemma position_Some_iff:
  "position p xs = Some i \<longleftrightarrow> i < length xs \<and> p (xs ! i) \<and> (\<forall>j < i. \<not> p (xs ! j))"
proof (induction xs arbitrary: i)
  case Nil
  then show ?case by simp
next
  case (Cons x xs)
  show ?case
    by (cases i) (auto simp: Cons.IH less_Suc_eq_0_disj)
qed

lemma position_None_iff: "position p xs = None \<longleftrightarrow> (\<forall>x \<in> set xs. \<not> p x)"
  by (induction xs) auto

text \<open>
  \<open>hay.windows(n).position(q)\<close>: the first offset whose window of \<open>n\<close> elements satisfies \<open>q\<close>.
  \<open>windows(0)\<close> panics; the callers below never pass an empty needle.
\<close>

fun window_position :: "nat \<Rightarrow> ('a list \<Rightarrow> bool) \<Rightarrow> 'a list \<Rightarrow> nat option" where
  "window_position n q [] = None"
| "window_position n q (x # xs) =
     (if n \<le> length (x # xs) \<and> q (take n (x # xs)) then Some 0
      else map_option Suc (window_position n q xs))"

definition find_sub :: "'a list \<Rightarrow> 'a list \<Rightarrow> nat option" where
  "find_sub hay needle = window_position (length needle) (\<lambda>w. w = needle) hay"

lemma window_position_Some_iff:
  "0 < n \<Longrightarrow> window_position n q xs = Some i \<longleftrightarrow>
     i + n \<le> length xs \<and> q (take n (drop i xs)) \<and>
     (\<forall>j < i. \<not> q (take n (drop j xs)))"
proof (induction xs arbitrary: i)
  case Nil
  then show ?case by simp
next
  case (Cons x xs)
  show ?case
  proof (cases i)
    case 0
    then show ?thesis by auto
  next
    case (Suc k)
    have "(\<forall>j < Suc k. \<not> q (take n (drop j (x # xs)))) \<longleftrightarrow>
            \<not> q (take n (x # xs)) \<and> (\<forall>j < k. \<not> q (take n (drop j xs)))"
      by (auto simp: less_Suc_eq_0_disj)
    with Suc Cons show ?thesis by auto
  qed
qed

lemma starts_with_length: "starts_with hay pre \<Longrightarrow> length pre \<le> length hay"
  by (auto simp: starts_with_iff)

lemma find_sub_Some_iff:
  assumes "needle \<noteq> []"
  shows "find_sub hay needle = Some i \<longleftrightarrow>
     starts_with (drop i hay) needle \<and> (\<forall>j < i. \<not> starts_with (drop j hay) needle)"
proof -
  have "starts_with (drop i hay) needle \<Longrightarrow> i + length needle \<le> length hay"
    using assms starts_with_length [of "drop i hay" needle] by (cases needle) auto
  with assms show ?thesis
    by (auto simp: find_sub_def window_position_Some_iff starts_with_def)
qed

lemma find_sub_append:
  assumes "needle \<noteq> []" "find_sub hay needle = Some i"
  shows "find_sub (hay @ more) needle = Some i"
  using assms unfolding find_sub_def
  by (auto simp: window_position_Some_iff)

section \<open>Splitting\<close>

text \<open>\<open>slice.split(p)\<close>: the pieces between the separators; \<open>n\<close> separators give \<open>n + 1\<close> pieces.\<close>

fun split_on :: "('a \<Rightarrow> bool) \<Rightarrow> 'a list \<Rightarrow> 'a list list" where
  "split_on p [] = [[]]"
| "split_on p (x # xs) =
     (if p x then [] # split_on p xs
      else case split_on p xs of
             [] \<Rightarrow> [[x]]
           | y # ys \<Rightarrow> (x # y) # ys)"

fun join_with :: "'a list \<Rightarrow> 'a list list \<Rightarrow> 'a list" where
  "join_with sep [] = []"
| "join_with sep [x] = x"
| "join_with sep (x # y # ys) = x @ sep @ join_with sep (y # ys)"

lemma split_on_not_Nil [simp]: "split_on p xs \<noteq> []"
  by (cases xs) (auto split: list.split)

lemma join_split_on: "join_with [c] (split_on (\<lambda>x. x = c) xs) = xs"
proof (induction xs)
  case Nil
  then show ?case by simp
next
  case (Cons x xs)
  obtain y ys where "split_on (\<lambda>x. x = c) xs = y # ys"
    by (cases "split_on (\<lambda>x. x = c) xs") auto
  with Cons show ?case by (cases ys) auto
qed

lemma split_on_pieces: "w \<in> set (split_on p xs) \<Longrightarrow> \<forall>x \<in> set w. \<not> p x \<and> x \<in> set xs"
  by (induction xs arbitrary: w) (fastforce split: if_splits list.splits)+

text \<open>\<open>splitn(2, p)\<close>: the text before the first separator, and what follows it if there is one.\<close>

definition split_once :: "('a \<Rightarrow> bool) \<Rightarrow> 'a list \<Rightarrow> 'a list \<times> 'a list option" where
  "split_once p xs =
     (case position p xs of
        None \<Rightarrow> (xs, None)
      | Some i \<Rightarrow> (take i xs, Some (drop (Suc i) xs)))"

lemma split_once_Some:
  "split_once p xs = (a, Some b) \<Longrightarrow> \<exists>x. p x \<and> xs = a @ x # b \<and> (\<forall>y \<in> set a. \<not> p y)"
  unfolding split_once_def
  by (auto simp: position_Some_iff in_set_conv_nth split: option.splits intro!: exI [of _ "xs ! _"] id_take_nth_drop)

section \<open>Trimming\<close>

definition trim_start_by :: "('a \<Rightarrow> bool) \<Rightarrow> 'a list \<Rightarrow> 'a list" where
  "trim_start_by p xs = dropWhile p xs"

definition trim_end_by :: "('a \<Rightarrow> bool) \<Rightarrow> 'a list \<Rightarrow> 'a list" where
  "trim_end_by p xs = rev (dropWhile p (rev xs))"

definition trim_by :: "('a \<Rightarrow> bool) \<Rightarrow> 'a list \<Rightarrow> 'a list" where
  "trim_by p xs = trim_end_by p (trim_start_by p xs)"

lemma trim_by_id:
  assumes "xs \<noteq> [] \<Longrightarrow> \<not> p (hd xs) \<and> \<not> p (last xs)"
  shows "trim_by p xs = xs"
proof (cases xs rule: rev_cases)
  case Nil
  then show ?thesis by (simp add: trim_by_def trim_start_by_def trim_end_by_def)
next
  case (snoc ys y)
  with assms have "dropWhile p xs = xs" by (simp add: dropWhile_eq_self_iff)
  with snoc assms show ?thesis by (simp add: trim_by_def trim_start_by_def trim_end_by_def)
qed

section \<open>UTF-8\<close>

definition cont_byte :: "byte \<Rightarrow> bool" where
  "cont_byte b \<longleftrightarrow> 128 \<le> b \<and> b \<le> 191"

text \<open>The first character of a UTF-8 sequence, as its bytes; \<open>None\<close> when it is malformed.\<close>

fun utf8_head :: "bytes \<Rightarrow> (bytes \<times> bytes) option" where
  "utf8_head [] = None"
| "utf8_head (a # s) =
     (if a < 128 then Some ([a], s)
      else case s of
        [] \<Rightarrow> None
      | b # s \<Rightarrow>
        (if 194 \<le> a \<and> a \<le> 223 then if cont_byte b then Some ([a, b], s) else None
         else case s of
           [] \<Rightarrow> None
         | c # s \<Rightarrow>
           (if (a = 224 \<and> 160 \<le> b \<and> b \<le> 191 \<or> 225 \<le> a \<and> a \<le> 236 \<and> cont_byte b \<or>
                a = 237 \<and> 128 \<le> b \<and> b \<le> 159 \<or> 238 \<le> a \<and> a \<le> 239 \<and> cont_byte b)
            then if cont_byte c then Some ([a, b, c], s) else None
            else case s of
              [] \<Rightarrow> None
            | d # s \<Rightarrow>
              (if (a = 240 \<and> 144 \<le> b \<and> b \<le> 191 \<or> 241 \<le> a \<and> a \<le> 243 \<and> cont_byte b \<or>
                   a = 244 \<and> 128 \<le> b \<and> b \<le> 143) \<and> cont_byte c \<and> cont_byte d
               then Some ([a, b, c, d], s) else None))))"

lemma utf8_head_shorter: "utf8_head s = Some (c, rest) \<Longrightarrow> s = c @ rest \<and> c \<noteq> []"
  by (cases s) (auto split: if_splits list.splits)

text \<open>\<open>str::from_utf8\<close>, as the list of characters.\<close>

function utf8_chars :: "bytes \<Rightarrow> bytes list option" where
  "utf8_chars s =
     (if s = [] then Some []
      else case utf8_head s of
             None \<Rightarrow> None
           | Some (c, rest) \<Rightarrow> map_option ((#) c) (utf8_chars rest))"
  by pat_completeness auto
termination
  by (relation "measure length") (auto dest!: utf8_head_shorter)

declare utf8_chars.simps [simp del]

definition utf8_valid :: "bytes \<Rightarrow> bool" where
  "utf8_valid s \<longleftrightarrow> utf8_chars s \<noteq> None"

lemma utf8_chars_concat: "utf8_chars s = Some cs \<Longrightarrow> concat cs = s"
proof (induction s arbitrary: cs rule: utf8_chars.induct)
  case (1 s)
  from "1.prems" show ?case
    using "1.IH" by (subst (asm) utf8_chars.simps) (force split: if_splits option.splits dest!: utf8_head_shorter)
qed

lemma utf8_chars_ascii: "\<forall>b \<in> set s. b < 128 \<Longrightarrow> utf8_chars s = Some (map (\<lambda>b. [b]) s)"
  by (induction s) (auto simp: utf8_chars.simps)

text \<open>
  \<open>String::from_utf8_lossy\<close>: each maximal malformed part of a character becomes U+FFFD. \<open>utf8_bad_len\<close> is
  the length of that part at the head of a malformed sequence.
\<close>

definition utf8_bad_len :: "bytes \<Rightarrow> nat" where
  "utf8_bad_len s =
     (let at = (\<lambda>i. if i < length s then s ! i else 0); a = at 0; b = at 1; c = at 2 in
      if a = 224 \<and> 160 \<le> b \<and> b \<le> 191 \<or> 225 \<le> a \<and> a \<le> 236 \<and> cont_byte b \<or>
         a = 237 \<and> 128 \<le> b \<and> b \<le> 159 \<or> 238 \<le> a \<and> a \<le> 239 \<and> cont_byte b then 2
      else if a = 240 \<and> 144 \<le> b \<and> b \<le> 191 \<or> 241 \<le> a \<and> a \<le> 243 \<and> cont_byte b \<or>
              a = 244 \<and> 128 \<le> b \<and> b \<le> 143 then (if cont_byte c then 3 else 2)
      else 1)"

lemma utf8_bad_len_pos [simp]: "0 < utf8_bad_len s"
  by (simp add: utf8_bad_len_def Let_def)

function utf8_lossy :: "bytes \<Rightarrow> bytes" where
  "utf8_lossy s =
     (if s = [] then []
      else case utf8_head s of
             Some (c, rest) \<Rightarrow> c @ utf8_lossy rest
           | None \<Rightarrow> [239, 191, 189] @ utf8_lossy (drop (utf8_bad_len s) s))"
  by pat_completeness auto
termination
  by (relation "measure length") (auto dest!: utf8_head_shorter)

declare utf8_lossy.simps [simp del]

lemma utf8_lossy_valid: "utf8_chars s = Some cs \<Longrightarrow> utf8_lossy s = s"
proof (induction s arbitrary: cs rule: utf8_chars.induct)
  case (1 s)
  from "1.prems" show ?case
    using "1.IH"
    by (subst (asm) utf8_chars.simps, subst utf8_lossy.simps)
      (force split: if_splits option.splits dest!: utf8_head_shorter)
qed

text \<open>The characters of the Unicode property White\_Space, as their UTF-8 bytes.\<close>

definition is_unicode_whitespace :: "bytes \<Rightarrow> bool" where
  "is_unicode_whitespace c \<longleftrightarrow>
     c \<in> {[9], [10], [11], [12], [13], [32], [194, 133], [194, 160], [225, 154, 128],
          [226, 128, 168], [226, 128, 169], [226, 128, 175], [226, 129, 159], [227, 128, 128]} \<or>
     (case c of [x, y, z] \<Rightarrow> x = 226 \<and> y = 128 \<and> 128 \<le> z \<and> z \<le> 138 | _ \<Rightarrow> False)"

text \<open>\<open>str::trim\<close> on a valid string.\<close>

definition str_trim :: "bytes \<Rightarrow> bytes" where
  "str_trim s = (case utf8_chars s of None \<Rightarrow> s | Some cs \<Rightarrow> concat (trim_by is_unicode_whitespace cs))"

section \<open>Decimal integers\<close>

fun dec_value :: "nat \<Rightarrow> bytes \<Rightarrow> nat option" where
  "dec_value acc [] = Some acc"
| "dec_value acc (b # bs) =
     (if is_ascii_digit b then dec_value (10 * acc + (unat b - 48)) bs else None)"

text \<open>
  \<open>str::parse\<close> for an unsigned type of \<open>w\<close> bits: an optional \<open>+\<close>, then at least one digit and
  nothing else; a value that does not fit is an error.
\<close>

definition parse_uint :: "nat \<Rightarrow> bytes \<Rightarrow> nat option" where
  "parse_uint w s =
     (let digits = (case s of b # rest \<Rightarrow> if b = 43 then rest else s | [] \<Rightarrow> s) in
      if digits = [] then None
      else case dec_value 0 digits of
             None \<Rightarrow> None
           | Some n \<Rightarrow> if n < 2 ^ w then Some n else None)"

text \<open>\<open>Display\<close> of an unsigned integer.\<close>

fun dec_digits :: "nat \<Rightarrow> bytes" where
  "dec_digits n = (if n < 10 then [of_nat (48 + n)] else dec_digits (n div 10) @ [of_nat (48 + n mod 10)])"

declare dec_digits.simps [simp del]

lemma digit_byte: "d < 10 \<Longrightarrow> is_ascii_digit (of_nat (48 + d)) \<and> unat (of_nat (48 + d) :: byte) = 48 + d"
proof -
  assume "d < 10"
  then have "unat (of_nat (48 + d) :: byte) = 48 + d" by (simp only: unat_of_nat) simp
  with \<open>d < 10\<close> show ?thesis by (simp del: of_nat_add add: is_ascii_digit_def word_le_nat_alt)
qed

lemma dec_value_append:
  "dec_value acc (xs @ ys) = (case dec_value acc xs of None \<Rightarrow> None | Some a \<Rightarrow> dec_value a ys)"
  by (induction xs arbitrary: acc) auto

lemma dec_value_dec_digits: "dec_value 0 (dec_digits n) = Some n"
proof (induction n rule: dec_digits.induct)
  case (1 n)
  show ?case
  proof (cases "n < 10")
    case True
    then show ?thesis using digit_byte [of n] by (subst dec_digits.simps) auto
  next
    case False
    with "1.IH" digit_byte [of "n mod 10"] show ?thesis
      by (subst dec_digits.simps) (auto simp: dec_value_append)
  qed
qed

lemma dec_digits_not_Nil [simp]: "dec_digits n \<noteq> []"
  by (subst dec_digits.simps) simp

lemma dec_digits_are_digits: "b \<in> set (dec_digits n) \<Longrightarrow> is_ascii_digit b"
proof (induction n rule: dec_digits.induct)
  case (1 n)
  then show ?case
    using digit_byte [of n] digit_byte [of "n mod 10"]
    by (subst (asm) (2) dec_digits.simps) (auto split: if_splits)
qed

lemma parse_uint_dec_digits:
  assumes "n < 2 ^ w"
  shows "parse_uint w (dec_digits n) = Some n"
proof -
  obtain b bs where bs: "dec_digits n = b # bs" by (cases "dec_digits n") auto
  have "is_ascii_digit b" using dec_digits_are_digits [of b n] bs by simp
  then have "b \<noteq> 43" by (auto simp: is_ascii_digit_def)
  with bs assms dec_value_dec_digits [of n] show ?thesis
    by (simp add: parse_uint_def)
qed

lemma parse_uint_bound: "parse_uint w s = Some n \<Longrightarrow> n < 2 ^ w"
  by (auto simp: parse_uint_def Let_def split: if_splits option.splits list.splits)

end
