(* ===== verification/Standing.thy ===== *)
theory Standing
  imports Admission Bytes
begin

unbundle bit_operations_syntax

text \<open>
  The per-source standing counters of the accept path,
  \<^verbatim>\<open>migration/dataplane/host/src/standing.rs\<close>: active connections per source (striped), the
  process-wide total and its hard ceiling, the request-rate windows, and the header deadline.
  Instants and durations are nanosecond counts; \<open>Instant::duration_since\<close> saturates at zero, as
  the subtraction of \<open>nat\<close> does.
\<close>

section \<open>State\<close>

text \<open>
  An IPv4 address by its 32 bits, an IPv6 address by the two 64-bit halves of its octets, each
  read big-endian.
\<close>

datatype ip_addr = V4 u32 | V6 u64 u64

record rate_window =
  win_start :: nat
  win_count :: u32

record standing =
  stripes :: "(ip_addr \<rightharpoonup> u32) list"
  rate_stripes :: "(ip_addr \<rightharpoonup> rate_window) list"
  req_stripes :: "(ip_addr \<rightharpoonup> rate_window) list"
  total :: nat
  seed :: u64

definition STRIPES :: nat where
  "STRIPES = 1024"

definition STRIPE_BITS :: nat where
  "STRIPE_BITS = 10"

text \<open>The seed comes from the operating system: an argument.\<close>

definition standing_new :: "u64 \<Rightarrow> standing" where
  "standing_new sd =
     \<lparr> stripes = replicate STRIPES Map.empty, rate_stripes = replicate STRIPES Map.empty,
       req_stripes = replicate STRIPES Map.empty, total = 0, seed = sd \<rparr>"

section \<open>Deadlines and the descriptor budget\<close>

definition header_expired :: "nat \<Rightarrow> nat \<Rightarrow> nat \<Rightarrow> bool" where
  "header_expired timeout started now \<longleftrightarrow> timeout \<noteq> 0 \<and> timeout \<le> now - started"

definition MAX_CONNS_CEILING :: nat where
  "MAX_CONNS_CEILING = 32768"

definition clamp_nat :: "nat \<Rightarrow> nat \<Rightarrow> nat \<Rightarrow> nat" where
  "clamp_nat lo hi x = (if x < lo then lo else if hi < x then hi else x)"

text \<open>The environment variable \<open>DRORB_MAX_CONNS\<close>, when set, is an argument.\<close>

definition derive_process_conn_cap :: "bytes option \<Rightarrow> u64 \<Rightarrow> nat" where
  "derive_process_conn_cap env fd_soft =
     (case (case env of None \<Rightarrow> None | Some v \<Rightarrow> parse_uint 64 v) of
        Some n \<Rightarrow> n
      | None \<Rightarrow>
          if fd_soft = 0 then MAX_CONNS_CEILING
          else clamp_nat 256 MAX_CONNS_CEILING (unat (fd_soft div 2)))"

section \<open>Stripes\<close>

definition fold_addr :: "ip_addr \<Rightarrow> u64" where
  "fold_addr ip = (case ip of V4 a \<Rightarrow> ucast a | V6 hi lo \<Rightarrow> hi XOR lo)"

definition stripe_idx :: "standing \<Rightarrow> ip_addr \<Rightarrow> nat" where
  "stripe_idx s ip =
     unat (drop_bit (64 - STRIPE_BITS) ((fold_addr ip XOR seed s) * 0x9e3779b97f4a7c15))"

text \<open>\<open>&self.stripes[self.stripe_idx(ip)]\<close>: the stripe a source falls in, read and written back.\<close>

definition stripe :: "standing \<Rightarrow> ip_addr \<Rightarrow> (ip_addr \<rightharpoonup> u32) outcome" where
  "stripe s ip =
     (case nth_opt (stripes s) (stripe_idx s ip) of None \<Rightarrow> Panic | Some m \<Rightarrow> Return m)"

definition set_stripe :: "standing \<Rightarrow> ip_addr \<Rightarrow> (ip_addr \<rightharpoonup> u32) \<Rightarrow> standing" where
  "set_stripe s ip m = s\<lparr> stripes := list_update (stripes s) (stripe_idx s ip) m \<rparr>"

definition rate_stripe :: "standing \<Rightarrow> ip_addr \<Rightarrow> (ip_addr \<rightharpoonup> rate_window) outcome" where
  "rate_stripe s ip =
     (case nth_opt (rate_stripes s) (stripe_idx s ip) of None \<Rightarrow> Panic | Some m \<Rightarrow> Return m)"

definition req_stripe :: "standing \<Rightarrow> ip_addr \<Rightarrow> (ip_addr \<rightharpoonup> rate_window) outcome" where
  "req_stripe s ip =
     (case nth_opt (req_stripes s) (stripe_idx s ip) of None \<Rightarrow> Panic | Some m \<Rightarrow> Return m)"

section \<open>Rate windows\<close>

definition saturating_inc :: "u32 \<Rightarrow> u32" where
  "saturating_inc n = (if n = - 1 then n else n + 1)"

text \<open>Age the window, count one arrival, and return the count before it.\<close>

definition note_window ::
  "(ip_addr \<rightharpoonup> rate_window) \<Rightarrow> ip_addr \<Rightarrow> nat \<Rightarrow> nat \<Rightarrow> u32 \<times> (ip_addr \<rightharpoonup> rate_window)" where
  "note_window g ip window now =
     (let w = (case g ip of None \<Rightarrow> \<lparr> win_start = now, win_count = 0 \<rparr> | Some w \<Rightarrow> w);
          w = (if window \<le> now - win_start w then \<lparr> win_start = now, win_count = 0 \<rparr> else w);
          prior = win_count w
      in (prior, g(ip \<mapsto> w\<lparr> win_count := saturating_inc (win_count w) \<rparr>)))"

definition req_note_prior ::
  "standing \<Rightarrow> ip_addr \<Rightarrow> u32 \<Rightarrow> nat \<Rightarrow> nat \<Rightarrow> (u32 \<times> standing) outcome" where
  "req_note_prior s ip limit window now =
     (if limit = 0 then Return (0, s)
      else bind_outcome (req_stripe s ip) (\<lambda>g.
        let (prior, g') = note_window g ip window now in
        Return (prior, s\<lparr> req_stripes := list_update (req_stripes s) (stripe_idx s ip) g' \<rparr>)))"

definition window_count :: "(ip_addr \<rightharpoonup> rate_window) \<Rightarrow> ip_addr \<Rightarrow> nat \<Rightarrow> nat \<Rightarrow> u32" where
  "window_count g ip window now =
     (case g ip of Some w \<Rightarrow> if now - win_start w < window then win_count w else 0 | None \<Rightarrow> 0)"

definition req_count :: "standing \<Rightarrow> ip_addr \<Rightarrow> nat \<Rightarrow> nat \<Rightarrow> u32 outcome" where
  "req_count s ip window now =
     bind_outcome (req_stripe s ip) (\<lambda>g. Return (window_count g ip window now))"

text \<open>
  The comparison \<open>prior + 1 > limit\<close> is made on \<open>u32\<close>: the sum overflows, and so panics in a
  checked build, on a saturated window.
\<close>

definition rate_note ::
  "standing \<Rightarrow> ip_addr \<Rightarrow> u32 \<Rightarrow> nat \<Rightarrow> nat \<Rightarrow> (bool \<times> standing) outcome" where
  "rate_note s ip limit window now =
     (if limit = 0 then Return (False, s)
      else bind_outcome (rate_stripe s ip) (\<lambda>g.
        let (prior, g') = note_window g ip window now;
            s' = s\<lparr> rate_stripes := list_update (rate_stripes s) (stripe_idx s ip) g' \<rparr>
        in case checked_add prior 1 of
             None \<Rightarrow> Panic
           | Some n \<Rightarrow> Return (limit < n, s')))"

definition rate_count :: "standing \<Rightarrow> ip_addr \<Rightarrow> nat \<Rightarrow> nat \<Rightarrow> u32 outcome" where
  "rate_count s ip window now =
     bind_outcome (rate_stripe s ip) (\<lambda>g. Return (window_count g ip window now))"

definition retain_windows :: "nat \<Rightarrow> nat \<Rightarrow> (ip_addr \<rightharpoonup> rate_window) \<Rightarrow> (ip_addr \<rightharpoonup> rate_window)" where
  "retain_windows window now g =
     (\<lambda>ip. case g ip of
             Some w \<Rightarrow> if now - win_start w < window then Some w else None
           | None \<Rightarrow> None)"

definition rate_prune :: "standing \<Rightarrow> nat \<Rightarrow> nat \<Rightarrow> standing" where
  "rate_prune s window now =
     s\<lparr> rate_stripes := map (retain_windows window now) (rate_stripes s),
        req_stripes := map (retain_windows window now) (req_stripes s) \<rparr>"

section \<open>Active connections\<close>

datatype admission = Admitted | OverSourceCap | AtProcessCap

definition get_count :: "(ip_addr \<rightharpoonup> u32) \<Rightarrow> ip_addr \<Rightarrow> u32" where
  "get_count g ip = (case g ip of None \<Rightarrow> 0 | Some n \<Rightarrow> n)"

text \<open>The blocking host's decision; the plain \<open>+= 1\<close> panics on overflow in a checked build.\<close>

definition admit :: "standing \<Rightarrow> ip_addr \<Rightarrow> u32 \<Rightarrow> (bool \<times> standing) outcome" where
  "admit s ip cap =
     bind_outcome (stripe s ip) (\<lambda>g.
       let n = get_count g ip in
       if cap \<noteq> 0 \<and> cap \<le> n then Return (False, s)
       else case checked_add n 1 of
              None \<Rightarrow> Panic
            | Some n' \<Rightarrow> Return (True, (set_stripe s ip (g(ip \<mapsto> n')))\<lparr> total := total s + 1 \<rparr>))"

definition count_source :: "standing \<Rightarrow> ip_addr \<Rightarrow> u32 \<Rightarrow> (bool \<times> standing) outcome" where
  "count_source s ip cap =
     bind_outcome (stripe s ip) (\<lambda>g.
       let n = get_count g ip in
       Return (cap = 0 \<or> n < cap, set_stripe s ip (g(ip \<mapsto> saturating_inc n))))"

definition admit_counted :: "standing \<Rightarrow> ip_addr \<Rightarrow> u32 \<Rightarrow> (bool \<times> standing) outcome" where
  "admit_counted s ip cap = count_source (s\<lparr> total := total s + 1 \<rparr>) ip cap"

text \<open>The reservation on the total, one atomic \<open>fetch_update\<close>.\<close>

definition reserve_total :: "nat \<Rightarrow> standing \<Rightarrow> standing option" where
  "reserve_total hard s =
     (if hard \<noteq> 0 \<and> hard \<le> total s then None else Some (s\<lparr> total := total s + 1 \<rparr>))"

definition enter_counted :: "standing \<Rightarrow> ip_addr \<Rightarrow> u32 \<Rightarrow> nat \<Rightarrow> (admission \<times> standing) outcome" where
  "enter_counted s ip cap hard =
     (case reserve_total hard s of
        None \<Rightarrow> Return (AtProcessCap, s)
      | Some s1 \<Rightarrow>
          bind_outcome (count_source s1 ip cap) (\<lambda>(ok, s2).
            Return (if ok then Admitted else OverSourceCap, s2)))"

text \<open>The per-source half of a close, under the stripe's lock: whether a count was decremented.\<close>

definition close_source :: "standing \<Rightarrow> ip_addr \<Rightarrow> (bool \<times> standing) outcome" where
  "close_source s ip =
     bind_outcome (stripe s ip) (\<lambda>g.
       case g ip of
         None \<Rightarrow> Return (False, s)
       | Some n \<Rightarrow>
           let n' = (if n = 0 then 0 else n - 1) in
           Return (True, set_stripe s ip (if n' = 0 then g(ip := None) else g(ip \<mapsto> n'))))"

definition release_total :: "standing \<Rightarrow> standing" where
  "release_total s = s\<lparr> total := total s - 1 \<rparr>"

definition on_close :: "standing \<Rightarrow> ip_addr \<Rightarrow> standing outcome" where
  "on_close s ip =
     bind_outcome (close_source s ip) (\<lambda>(decremented, s').
       Return (if decremented then release_total s' else s'))"

definition active :: "standing \<Rightarrow> ip_addr \<Rightarrow> u32 outcome" where
  "active s ip = bind_outcome (stripe s ip) (\<lambda>g. Return (get_count g ip))"

section \<open>Stripes refine one map\<close>

definition standing_inv :: "standing \<Rightarrow> bool" where
  "standing_inv s \<longleftrightarrow>
     length (stripes s) = STRIPES \<and> length (rate_stripes s) = STRIPES \<and> length (req_stripes s) = STRIPES"

text \<open>The single map of counts that the stripes stand for.\<close>

definition active_count :: "standing \<Rightarrow> ip_addr \<Rightarrow> nat" where
  "active_count s ip = unat (get_count (stripes s ! stripe_idx s ip) ip)"

lemma stripe_idx_less: "stripe_idx s ip < STRIPES"
proof -
  have "unat (drop_bit 54 (w :: u64)) < 1024" for w
  proof -
    have "unat (drop_bit 54 w) = unat w div 2 ^ 54"
      using unsigned_less [of w, where ?'a = nat]
      by (subst unsigned_drop_bit_eq) (simp add: drop_bit_eq_div take_bit_eq_mod)
    also have "\<dots> < 1024" using unsigned_less [of w, where ?'a = nat] by simp
    finally show ?thesis .
  qed
  then show ?thesis by (simp add: stripe_idx_def STRIPES_def STRIPE_BITS_def)
qed

lemma stripe_idx_cong [simp]:
  "stripe_idx (s\<lparr> stripes := x \<rparr>) = stripe_idx s" "stripe_idx (s\<lparr> total := n \<rparr>) = stripe_idx s"
  "stripe_idx (s\<lparr> rate_stripes := y \<rparr>) = stripe_idx s" "stripe_idx (s\<lparr> req_stripes := z \<rparr>) = stripe_idx s"
  by (simp_all add: stripe_idx_def fun_eq_iff)

lemma standing_inv_simps [simp]:
  "standing_inv (s\<lparr> total := n \<rparr>) = standing_inv s"
  "standing_inv (set_stripe s ip m) = standing_inv s"
  by (simp_all add: standing_inv_def set_stripe_def)

lemma active_count_total [simp]: "active_count (s\<lparr> total := n \<rparr>) = active_count s"
  by (simp add: active_count_def fun_eq_iff)

lemma set_stripe_total [simp]: "total (set_stripe s ip m) = total s"
  by (simp add: set_stripe_def)

lemma stripe_eq: "standing_inv s \<Longrightarrow> stripe s ip = Return (stripes s ! stripe_idx s ip)"
  using stripe_idx_less [of s ip] by (simp add: stripe_def standing_inv_def nth_opt_def)

lemma active_count_set_stripe:
  assumes "standing_inv s"
    and "\<And>u. u \<noteq> ip \<Longrightarrow> m u = (stripes s ! stripe_idx s ip) u"
  shows "active_count (set_stripe s ip m) = (active_count s)(ip := unat (get_count m ip))"
  using assms stripe_idx_less [of s ip]
  by (auto simp: active_count_def set_stripe_def fun_eq_iff get_count_def standing_inv_def
        nth_list_update_if)

lemma standing_new_inv: "standing_inv (standing_new sd)" "active_count (standing_new sd) ip = 0"
  using stripe_idx_less [of "standing_new sd" ip]
  by (simp_all add: standing_inv_def standing_new_def active_count_def get_count_def)

text \<open>What each atomic part does to the single map.\<close>

lemma unat_saturating_inc: "unat (saturating_inc n) = (if n = - 1 then unat n else unat n + 1)"
proof (cases "n = - 1")
  case False
  then have "unat n + 1 < 2 ^ 32"
    using unsigned_less [of n, where ?'a = nat]
    by (auto simp: word_unat_eq_iff unsigned_minus_1_eq_mask mask_eq_exp_minus_1)
  with False show ?thesis by (simp add: saturating_inc_def unat_word_ariths)
qed (simp add: saturating_inc_def)

lemma unat_max: "unat (n :: u32) = 2 ^ 32 - 1 \<longleftrightarrow> n = - 1"
  by (simp add: word_unat_eq_iff unsigned_minus_1_eq_mask mask_eq_exp_minus_1)

lemma count_source_effect:
  assumes "standing_inv s"
  obtains s' where "count_source s ip cap = Return (cap = 0 \<or> active_count s ip < unat cap, s')"
    and "standing_inv s'" and "total s' = total s"
    and "active_count s' = (active_count s)(ip := min (2 ^ 32 - 1) (active_count s ip + 1))"
proof -
  let ?g = "stripes s ! stripe_idx s ip"
  let ?s' = "set_stripe s ip (?g(ip \<mapsto> saturating_inc (get_count ?g ip)))"
  have lt: "unat (get_count ?g ip) < 2 ^ 32"
    using unsigned_less [of "get_count ?g ip", where ?'a = nat] by simp
  have "count_source s ip cap = Return (cap = 0 \<or> active_count s ip < unat cap, ?s')"
    using assms by (simp add: count_source_def stripe_eq Let_def active_count_def word_less_nat_alt)
  moreover have "active_count ?s' = (active_count s)(ip := min (2 ^ 32 - 1) (active_count s ip + 1))"
  proof -
    have "active_count ?s' = (active_count s)(ip := unat (saturating_inc (get_count ?g ip)))"
      by (subst active_count_set_stripe [OF assms]) (simp_all add: get_count_def)
    moreover have "unat (saturating_inc (get_count ?g ip)) = min (2 ^ 32 - 1) (active_count s ip + 1)"
      using lt unat_max [of "get_count ?g ip"] by (auto simp: unat_saturating_inc active_count_def)
    ultimately show ?thesis by simp
  qed
  ultimately show ?thesis using assms by (intro that [of ?s']) auto
qed

lemma close_source_effect:
  assumes "standing_inv s" "0 < active_count s ip"
  obtains s' where "close_source s ip = Return (True, s')"
    and "standing_inv s'" and "total s' = total s"
    and "active_count s' = (active_count s)(ip := active_count s ip - 1)"
proof -
  let ?g = "stripes s ! stripe_idx s ip"
  from assms(2) obtain n where n: "?g ip = Some n" and pos: "n \<noteq> 0"
    by (auto simp: active_count_def get_count_def unat_gt_0 split: option.splits)
  let ?m = "if n - 1 = 0 then ?g(ip := None) else ?g(ip \<mapsto> n - 1)"
  have "close_source s ip = Return (True, set_stripe s ip ?m)"
    using assms(1) n pos by (simp add: close_source_def stripe_eq Let_def)
  moreover have "active_count (set_stripe s ip ?m) = (active_count s)(ip := active_count s ip - 1)"
    by (subst active_count_set_stripe [OF assms(1)])
       (use n pos in \<open>auto simp: active_count_def get_count_def unat_minus_one\<close>)
  ultimately show ?thesis using assms(1) by (intro that [of "set_stripe s ip ?m"]) auto
qed

section \<open>The accept path under interleaving\<close>

text \<open>
  Every shard's accepts and closes, at the granularity of their atomic parts: the reservation on
  the total and the per-source count are two separate critical sections on the way in, the
  per-source decrement and the total's decrement two separate ones on the way out. \<open>entering\<close>
  holds the sources whose accept is between its two parts, \<open>opened\<close> the counted connections that
  still owe a close, \<open>closing\<close> the closes between their two parts.
\<close>

record accept_sys =
  table :: standing
  entering :: "ip_addr multiset"
  opened :: "ip_addr multiset"
  closing :: nat

inductive accept_step :: "nat \<Rightarrow> accept_sys \<Rightarrow> accept_sys \<Rightarrow> bool" for hard where
  reserve: "reserve_total hard (table s) = Some t \<Longrightarrow>
     accept_step hard s (s\<lparr> table := t, entering := add_mset ip (entering s) \<rparr>)"
| count: "ip \<in># entering s \<Longrightarrow> count_source (table s) ip cap = Return (ok, t) \<Longrightarrow>
     accept_step hard s (s\<lparr> table := t, entering := entering s - {#ip#}, opened := add_mset ip (opened s) \<rparr>)"
| close: "ip \<in># opened s \<Longrightarrow> close_source (table s) ip = Return (d, t) \<Longrightarrow>
     accept_step hard s (s\<lparr> table := t, opened := opened s - {#ip#},
                           closing := (if d then closing s + 1 else closing s) \<rparr>)"
| release: "0 < closing s \<Longrightarrow>
     accept_step hard s (s\<lparr> table := release_total (table s), closing := closing s - 1 \<rparr>)"

inductive accept_reachable :: "nat \<Rightarrow> accept_sys \<Rightarrow> bool" for hard where
  accept_start: "accept_reachable hard \<lparr> table = standing_new sd, entering = {#}, opened = {#}, closing = 0 \<rparr>"
| accept_next: "accept_reachable hard s \<Longrightarrow> accept_step hard s t \<Longrightarrow> accept_reachable hard t"

definition accept_inv :: "nat \<Rightarrow> accept_sys \<Rightarrow> bool" where
  "accept_inv hard s \<longleftrightarrow>
     standing_inv (table s) \<and> (\<forall>ip. active_count (table s) ip = count (opened s) ip) \<and>
     total (table s) = size (opened s) + size (entering s) + closing s \<and> total (table s) \<le> hard"

lemma accept_step_inv:
  assumes "accept_step hard s t" "accept_inv hard s" "0 < hard" "hard < 2 ^ 32"
  shows "accept_inv hard t"
  using assms
proof (induction rule: accept_step.induct)
  case (reserve s t ip)
  then show ?case
    by (auto simp: accept_inv_def reserve_total_def split: if_splits)
next
  case (count ip s cap ok t)
  then have inv: "standing_inv (table s)" and act: "\<And>ip. active_count (table s) ip = multiset.count (opened s) ip"
    by (simp_all add: accept_inv_def)
  obtain s' where eff: "t = s'" "standing_inv s'" "total s' = total (table s)"
    "active_count s' = (active_count (table s))(ip := min (2 ^ 32 - 1) (active_count (table s) ip + 1))"
    using count_source_effect [OF inv, of ip cap] count(2) by (metis outcome.inject prod.inject)
  have sz: "size (entering s) = Suc (size (entering s - {#ip#}))"
    using count(1) by (metis insert_DiffM size_add_mset)
  have "multiset.count (opened s) ip \<le> size (opened s)" by (rule count_le_size)
  with count sz have "multiset.count (opened s) ip + 1 \<le> hard" by (simp add: accept_inv_def)
  with count have "min (2 ^ 32 - 1) (active_count (table s) ip + 1) = multiset.count (opened s) ip + 1"
    by (simp add: act)
  with count sz eff act show ?case by (simp add: accept_inv_def)
next
  case (close ip s d t)
  then have inv: "standing_inv (table s)" and act: "\<And>ip. active_count (table s) ip = multiset.count (opened s) ip"
    by (simp_all add: accept_inv_def)
  with close(1) have "0 < active_count (table s) ip" by simp
  from close_source_effect [OF inv this] close(2)
  have eff: "d" "standing_inv t" "total t = total (table s)"
    "active_count t = (active_count (table s))(ip := active_count (table s) ip - 1)"
    by (metis outcome.inject prod.inject)+
  have "size (opened s) = Suc (size (opened s - {#ip#}))"
    using close(1) by (metis insert_DiffM size_add_mset)
  with close eff act show ?case by (simp add: accept_inv_def)
next
  case (release s)
  then show ?case by (auto simp: accept_inv_def release_total_def)
qed

lemma accept_reachable_inv:
  assumes "accept_reachable hard s" "0 < hard" "hard < 2 ^ 32"
  shows "accept_inv hard s"
  using assms
proof (induction rule: accept_reachable.induct)
  case (accept_start sd)
  show ?case by (simp add: accept_inv_def standing_new_inv) (simp add: standing_new_def)
next
  case (accept_next s t)
  then show ?case by (blast intro: accept_step_inv)
qed

text \<open>The sum over all sources of the per-source counters.\<close>

definition sum_active :: "accept_sys \<Rightarrow> nat" where
  "sum_active s = (\<Sum>ip \<in> set_mset (opened s). active_count (table s) ip)"

interpretation ceiling: admission_gate "reserve_total hard" release_total total
  "if hard = 0 then None else Some hard" "\<lambda>_. True" for hard
  by unfold_locales (auto simp: reserve_total_def release_total_def split: if_splits)

section \<open>Properties\<close>

text \<open>C10: With a process ceiling set, however accepts and closes interleave at the granularity of
  their critical sections: each source's counter equals the number of its connections in the
  reactor (so nothing is lost and nothing underflows), the number of connections in the reactor
  never exceeds the ceiling, and whenever no accept or close is in the middle, the total equals
  the sum of the per-source counters.\<close>

theorem accept_path_conserves_counts:
  assumes "accept_reachable hard s" "0 < hard" "hard < 2 ^ 32"
  shows "(\<forall>ip. active_count (table s) ip = count (opened s) ip) \<and>
         size (opened s) \<le> hard \<and> total (table s) \<le> hard \<and>
         (entering s = {#} \<and> closing s = 0 \<longrightarrow> total (table s) = sum_active s)"
proof -
  from accept_reachable_inv [OF assms] have inv: "accept_inv hard s" .
  then have "sum_active s = size (opened s)"
    by (simp add: accept_inv_def sum_active_def size_multiset_overloaded_eq)
  with inv show ?thesis by (simp add: accept_inv_def)
qed

theorem accept_path_conserves_counts_witness:
  "\<exists>s. accept_reachable 1 s \<and> opened s = {#V4 7#} \<and> active_count (table s) (V4 7) = 1 \<and>
       size (opened s) \<le> 1 \<and> total (table s) = sum_active s"
proof -
  let ?s0 = "\<lparr> table = standing_new 0, entering = {#}, opened = {#}, closing = 0 \<rparr>"
  let ?t1 = "(standing_new 0)\<lparr> total := 1 \<rparr>"
  let ?s1 = "\<lparr> table = ?t1, entering = {#V4 7#}, opened = {#}, closing = 0 \<rparr>"
  have inv1: "standing_inv ?t1" by (simp add: standing_new_inv)
  obtain t2 where t2: "count_source ?t1 (V4 7) 0 = Return (True, t2)"
    using count_source_effect [OF inv1, of "V4 7" 0] by auto
  let ?s2 = "\<lparr> table = t2, entering = {#}, opened = {#V4 7#}, closing = 0 \<rparr>"
  have "accept_step 1 ?s0 ?s1"
    using accept_step.reserve [of 1 ?s0 ?t1 "V4 7"] by (simp add: reserve_total_def standing_new_def)
  moreover have "accept_step 1 ?s1 ?s2"
    using accept_step.count [of "V4 7" ?s1 0 True t2 1] t2 by simp
  ultimately have r: "accept_reachable 1 ?s2"
    using accept_next [OF accept_next [OF accept_start]] by blast
  from accept_path_conserves_counts [OF r] have
    "active_count t2 (V4 7) = 1" "total t2 = sum_active ?s2" by simp_all
  with r show ?thesis by (intro exI [of _ ?s2]) simp
qed

text \<open>The shard reactors' accept decision on every branch: at the ceiling nothing is counted and
  the arrival is turned away; otherwise the connection is counted exactly once for its source and
  once in the total, and it is admitted exactly when the source's count before it was below the
  cap (a zero cap admits all). A close of a counted connection undoes exactly that.\<close>

theorem enter_counted_then_close:
  assumes "standing_inv s"
  shows "(hard \<noteq> 0 \<and> hard \<le> total s \<longrightarrow> enter_counted s ip cap hard = Return (AtProcessCap, s)) \<and>
         (hard = 0 \<or> total s < hard \<longrightarrow>
           (\<exists>s'. enter_counted s ip cap hard =
                   Return (if cap = 0 \<or> active_count s ip < unat cap then Admitted else OverSourceCap, s') \<and>
                 standing_inv s' \<and> total s' = total s + 1 \<and>
                 active_count s' = (active_count s)(ip := min (2 ^ 32 - 1) (active_count s ip + 1)) \<and>
                 (active_count s ip < 2 ^ 32 - 1 \<longrightarrow>
                   (\<exists>s''. on_close s' ip = Return s'' \<and> standing_inv s'' \<and>
                          active_count s'' = active_count s \<and> total s'' = total s))))"
proof (intro conjI impI)
  assume "hard \<noteq> 0 \<and> hard \<le> total s"
  then show "enter_counted s ip cap hard = Return (AtProcessCap, s)"
    by (simp add: enter_counted_def reserve_total_def)
next
  assume room: "hard = 0 \<or> total s < hard"
  let ?s1 = "s\<lparr> total := total s + 1 \<rparr>"
  from assms have i1: "standing_inv ?s1" by simp
  obtain s' where cs: "count_source ?s1 ip cap = Return (cap = 0 \<or> active_count s ip < unat cap, s')"
    and eff: "standing_inv s'" "total s' = total s + 1"
      "active_count s' = (active_count s)(ip := min (2 ^ 32 - 1) (active_count s ip + 1))"
    using count_source_effect [OF i1, of ip cap] by auto
  have enter: "enter_counted s ip cap hard =
      Return (if cap = 0 \<or> active_count s ip < unat cap then Admitted else OverSourceCap, s')"
    using room cs by (auto simp: enter_counted_def reserve_total_def)
  have close: "\<exists>s''. on_close s' ip = Return s'' \<and> standing_inv s'' \<and>
      active_count s'' = active_count s \<and> total s'' = total s"
    if lt: "active_count s ip < 2 ^ 32 - 1"
  proof -
    from eff lt have "0 < active_count s' ip" by simp
    from close_source_effect [OF eff(1) this] obtain s2 where
      "close_source s' ip = Return (True, s2)" "standing_inv s2" "total s2 = total s'"
      "active_count s2 = (active_count s')(ip := active_count s' ip - 1)" .
    moreover have "min (2 ^ 32 - 1) (active_count s ip + 1) - 1 = active_count s ip" using lt by simp
    ultimately show ?thesis
      using eff by (intro exI [of _ "release_total s2"]) (simp add: on_close_def release_total_def)
  qed
  from enter eff close show "\<exists>s'. enter_counted s ip cap hard =
      Return (if cap = 0 \<or> active_count s ip < unat cap then Admitted else OverSourceCap, s') \<and>
      standing_inv s' \<and> total s' = total s + 1 \<and>
      active_count s' = (active_count s)(ip := min (2 ^ 32 - 1) (active_count s ip + 1)) \<and>
      (active_count s ip < 2 ^ 32 - 1 \<longrightarrow>
        (\<exists>s''. on_close s' ip = Return s'' \<and> standing_inv s'' \<and>
               active_count s'' = active_count s \<and> total s'' = total s))"
    by blast
qed

theorem enter_counted_then_close_witness:
  "\<exists>s'. enter_counted (standing_new 5) (V4 1) 1 10 = Return (Admitted, s') \<and> active_count s' (V4 1) = 1"
proof -
  have "(10::nat) = 0 \<or> total (standing_new 5) < 10" by (simp add: standing_new_def)
  with enter_counted_then_close [OF standing_new_inv(1), of 10 5 "V4 1" 1] show ?thesis
    by (auto simp: standing_new_inv)
qed

text \<open>A run of arrivals from one source against the rate gate, one decision per arrival.\<close>

fun rate_run :: "standing \<Rightarrow> ip_addr \<Rightarrow> u32 \<Rightarrow> nat \<Rightarrow> nat list \<Rightarrow> (bool list \<times> standing) outcome" where
  "rate_run s ip limit window [] = Return ([], s)"
| "rate_run s ip limit window (t # ts) =
     bind_outcome (rate_note s ip limit window t) (\<lambda>(refused, s').
     bind_outcome (rate_run s' ip limit window ts) (\<lambda>(rs, s'').
     Return (refused # rs, s'')))"

definition rate_entry :: "standing \<Rightarrow> ip_addr \<Rightarrow> rate_window option" where
  "rate_entry s ip = (rate_stripes s ! stripe_idx s ip) ip"

lemma rate_note_in_window:
  assumes "standing_inv s" "limit \<noteq> 0" "rate_entry s ip = Some w" "t - win_start w < window"
    and "unat (win_count w) < 2 ^ 32 - 1"
  obtains s' where "rate_note s ip limit window t = Return (unat limit < unat (win_count w) + 1, s')"
    and "standing_inv s'" and "rate_entry s' ip = Some (w\<lparr> win_count := win_count w + 1 \<rparr>)"
proof -
  let ?g = "rate_stripes s ! stripe_idx s ip"
  let ?w = "w\<lparr> win_count := win_count w + 1 \<rparr>"
  let ?s' = "s\<lparr> rate_stripes := list_update (rate_stripes s) (stripe_idx s ip) (?g(ip \<mapsto> ?w)) \<rparr>"
  have lt: "stripe_idx s ip < length (rate_stripes s)"
    using stripe_idx_less [of s ip] assms(1) by (simp add: standing_inv_def)
  have ne: "win_count w \<noteq> - 1"
    using assms(5) unat_max [of "win_count w"] by auto
  have add: "checked_add (win_count w) 1 = Some (win_count w + 1)"
    and un: "unat (win_count w + 1) = unat (win_count w) + 1"
    using assms(5) by (simp_all add: checked_add_def unat_word_ariths)
  have "rate_stripe s ip = Return ?g" using lt by (simp add: rate_stripe_def nth_opt_def)
  then have "rate_note s ip limit window t = Return (unat limit < unat (win_count w) + 1, ?s')"
    using assms add ne un
    by (simp add: rate_note_def note_window_def rate_entry_def Let_def saturating_inc_def word_less_nat_alt)
  moreover have "standing_inv ?s'" using assms(1) by (simp add: standing_inv_def)
  moreover have "rate_entry ?s' ip = Some ?w" using lt by (simp add: rate_entry_def)
  ultimately show ?thesis by (rule that)
qed

lemma rate_run_in_window:
  assumes "standing_inv s" "limit \<noteq> 0" "rate_entry s ip = Some w"
    and "\<forall>t \<in> set ts. t - win_start w < window" "unat (win_count w) + length ts < 2 ^ 32"
  shows "\<exists>s'. rate_run s ip limit window ts =
           Return (map (\<lambda>k. unat limit \<le> unat (win_count w) + k) [0..<length ts], s') \<and> standing_inv s'"
  using assms
proof (induction ts arbitrary: s w)
  case Nil
  then show ?case by simp
next
  case (Cons t ts)
  then have c: "unat (win_count w) < 2 ^ 32 - 1" by simp
  obtain s1 where st: "rate_note s ip limit window t = Return (unat limit < unat (win_count w) + 1, s1)"
    and i1: "standing_inv s1" and e1: "rate_entry s1 ip = Some (w\<lparr> win_count := win_count w + 1 \<rparr>)"
    using rate_note_in_window [OF Cons.prems(1,2,3) _ c] Cons.prems(4) by auto
  have un: "unat (win_count w + 1) = unat (win_count w) + 1"
    using c by (simp add: unat_word_ariths)
  from Cons.IH [OF i1 Cons.prems(2) e1] Cons.prems(4,5) un obtain s' where
    "rate_run s1 ip limit window ts =
       Return (map (\<lambda>k. unat limit \<le> unat (win_count w) + 1 + k) [0..<length ts], s')" "standing_inv s'"
    by auto
  then show ?case using st by (simp add: upt_0_Suc less_Suc_eq_le comp_def del: upt_Suc)
qed

text \<open>C11: From a source with no window, or whose window has run out, the arrivals of one window are
  decided exactly by their rank: the first \<open>limit\<close> are admitted and every later one is refused,
  until the count saturates.\<close>

theorem rate_gate_admits_limit_per_window:
  assumes "standing_inv s" "limit \<noteq> 0"
    and "case rate_entry s ip of None \<Rightarrow> True | Some w \<Rightarrow> window \<le> t - win_start w"
    and "0 < window" "\<forall>u \<in> set ts. u < t + window" "length ts < 2 ^ 32 - 1"
  shows "\<exists>s'. rate_run s ip limit window (t # ts) =
           Return (map (\<lambda>k. unat limit \<le> k) [0..<Suc (length ts)], s') \<and> standing_inv s'"
proof -
  let ?g = "rate_stripes s ! stripe_idx s ip"
  let ?w = "\<lparr> win_start = t, win_count = 1 \<rparr>"
  let ?s1 = "s\<lparr> rate_stripes := list_update (rate_stripes s) (stripe_idx s ip) (?g(ip \<mapsto> ?w)) \<rparr>"
  have lt: "stripe_idx s ip < length (rate_stripes s)"
    using stripe_idx_less [of s ip] assms(1) by (simp add: standing_inv_def)
  have "rate_stripe s ip = Return ?g" using lt by (simp add: rate_stripe_def nth_opt_def)
  moreover have "unat limit \<noteq> 0" using assms(2) by (simp add: unat_eq_zero)
  ultimately have st: "rate_note s ip limit window t = Return (False, ?s1)"
    using assms(2-4)
    by (auto simp: rate_note_def note_window_def rate_entry_def Let_def saturating_inc_def
          checked_add_def word_less_nat_alt not_less split: option.splits)
  have i1: "standing_inv ?s1" using assms(1) by (simp add: standing_inv_def)
  have e1: "rate_entry ?s1 ip = Some ?w" using lt by (simp add: rate_entry_def)
  have "\<forall>u \<in> set ts. u - win_start ?w < window" using assms(4,5) by auto
  from rate_run_in_window [OF i1 assms(2) e1 this] assms(6) obtain s' where
    "rate_run ?s1 ip limit window ts = Return (map (\<lambda>k. unat limit \<le> 1 + k) [0..<length ts], s')"
    "standing_inv s'" by auto
  then show ?thesis using st \<open>unat limit \<noteq> 0\<close>
    by (simp add: upt_0_Suc comp_def del: upt_Suc)
qed

theorem rate_gate_admits_limit_per_window_witness:
  "\<exists>s'. rate_run (standing_new 3) (V4 9) 2 100 [5, 6, 50] = Return ([False, False, True], s')"
proof -
  have e: "rate_entry (standing_new 3) (V4 9) = None"
    using stripe_idx_less [of "standing_new 3" "V4 9"] by (simp add: rate_entry_def standing_new_def)
  have "\<exists>s'. rate_run (standing_new 3) (V4 9) 2 100 (5 # [6, 50]) =
          Return (map (\<lambda>k. unat (2 :: u32) \<le> k) [0..<Suc (length [6, 50 :: nat])], s') \<and> standing_inv s'"
    by (rule rate_gate_admits_limit_per_window) (simp_all add: e standing_new_inv)
  moreover have "map (\<lambda>k. unat (2 :: u32) \<le> k) [0..<Suc (length [6, 50 :: nat])] = [False, False, True]"
    by (simp add: upt_rec)
  ultimately show ?thesis by metis
qed

text \<open>Once a window's count has saturated at the largest \<open>u32\<close>, the next arrival in it makes the
  accept gate overflow its comparison instead of refusing: the decision panics in a checked build
  (and in an unchecked one the sum wraps to 0, which is not above the limit).\<close>

theorem rate_note_overflows_when_saturated:
  assumes "standing_inv s" "limit \<noteq> 0" "rate_entry s ip = Some w" "t - win_start w < window"
    and "win_count w = - 1"
  shows "rate_note s ip limit window t = Panic \<and> \<not> limit < win_count w + 1"
proof -
  have "stripe_idx s ip < length (rate_stripes s)"
    using stripe_idx_less [of s ip] assms(1) by (simp add: standing_inv_def)
  moreover have "checked_add (- 1 :: u32) 1 = None"
    by (simp add: checked_add_def unsigned_minus_1_eq_mask mask_eq_exp_minus_1)
  ultimately show ?thesis
    using assms by (simp add: rate_note_def note_window_def rate_entry_def rate_stripe_def nth_opt_def Let_def)
qed

theorem rate_note_overflows_when_saturated_witness:
  "\<exists>s. rate_note s (V4 9) 2 100 50 = Panic"
proof -
  let ?n = "standing_new 3"
  let ?w = "\<lparr> win_start = 5, win_count = - 1 \<rparr>"
  let ?s = "?n\<lparr> rate_stripes := list_update (rate_stripes ?n) (stripe_idx ?n (V4 9)) [V4 9 \<mapsto> ?w] \<rparr>"
  have "rate_entry ?s (V4 9) = Some ?w"
    using stripe_idx_less [of ?n "V4 9"] standing_new_inv(1) [of 3]
    by (simp add: rate_entry_def standing_inv_def)
  moreover have "standing_inv ?s" using standing_new_inv(1) [of 3] by (simp add: standing_inv_def)
  ultimately have "rate_note ?s (V4 9) 2 100 50 = Panic"
    using rate_note_overflows_when_saturated [of ?s 2 "V4 9" ?w 50 100] by simp
  then show ?thesis by blast
qed

text \<open>Pruning idle windows never changes what a later arrival is told.\<close>

lemma rate_prune_invisible:
  assumes "now \<le> now'"
  shows "note_window (retain_windows window now g) ip window now' =
           (fst (note_window g ip window now'),
            (retain_windows window now g)(ip := snd (note_window g ip window now') ip))"
  using assms by (auto simp: note_window_def retain_windows_def Let_def split: option.splits)

end
