(* ===== verification/Http.thy ===== *)
theory Http
  imports Bytes
begin

unbundle bit_operations_syntax

text \<open>
  The HTTP/1.1 framing helpers of the host: \<^verbatim>\<open>http.rs\<close> (request boundaries under the resource
  cap, the body-size gate, header lookup, connection disposition) and \<^verbatim>\<open>interim.rs\<close>. The
  request-boundary decision is taken by the compiled Lean framer behind \<open>drorb_frame_request\<close>; it
  is the parameter \<open>frame_verdict\<close>, and nothing is assumed about the bytes it returns.
\<close>

section \<open>Opening bytes\<close>

definition REQUEST_CAP :: nat where "REQUEST_CAP = 8 * 2 ^ 20"

definition H2_PREFACE :: bytes where "H2_PREFACE = ascii ''PRI * HTTP/2.0'' @ CRLF"

definition H2_PREFACE_FULL :: nat where "H2_PREFACE_FULL = 24"

definition u24 :: "byte \<Rightarrow> byte \<Rightarrow> byte \<Rightarrow> nat" where
  "u24 a b c = unat a * 2 ^ 16 + unat b * 2 ^ 8 + unat c"

function h2c_scan :: "bytes \<Rightarrow> nat \<Rightarrow> bool" where
  "h2c_scan buf i =
     (if i + 9 \<le> length buf then
        let end = i + 9 + u24 (buf ! i) (buf ! (i + 1)) (buf ! (i + 2)) in
        if length buf < end then False
        else if buf ! (i + 3) = 0x01 then True
        else h2c_scan buf end
      else False)"
  by pat_completeness auto
termination
  by (relation "measure (\<lambda>(buf, i). length buf - i)") (auto simp: Let_def)

declare h2c_scan.simps [simp del]

definition h2c_burst_complete :: "bytes \<Rightarrow> bool" where
  "h2c_burst_complete buf = h2c_scan buf H2_PREFACE_FULL"

definition opener_lacks_http_version :: "bytes \<Rightarrow> bool" where
  "opener_lacks_http_version req =
     (let line_end = (case position (\<lambda>b. b = LF) req of Some p \<Rightarrow> p | None \<Rightarrow> length req) in
      find_sub (take line_end req) (ascii ''HTTP/'') = None)"

section \<open>Request boundaries\<close>

datatype frame = NeedMore | Complete nat | Oversize

text \<open>The consumed count: eight octets, least significant first, into a 64-bit word.\<close>

fun le_or :: "nat \<Rightarrow> bytes \<Rightarrow> u64 \<Rightarrow> u64" where
  "le_or i [] acc = acc"
| "le_or i (b # bs) acc = le_or (Suc i) bs (acc OR push_bit (8 * i) (ucast b))"

definition next_request :: "(bytes \<Rightarrow> bytes) \<Rightarrow> bytes \<Rightarrow> frame" where
  "next_request frame_verdict data =
     (case frame_verdict data of
        [] \<Rightarrow> Oversize
      | tag # le \<Rightarrow>
          if tag = 0 then (if REQUEST_CAP < length data then Oversize else NeedMore)
          else if tag = 1 then Oversize
          else if tag = 2 \<and> length le = 8 then
            (let consumed = unat (le_or 0 le 0) in
             if length data < consumed \<or> REQUEST_CAP < consumed then Oversize else Complete consumed)
          else Oversize)"

section \<open>Header lookup\<close>

definition name_matches :: "bytes \<Rightarrow> bytes \<Rightarrow> bool" where
  "name_matches n name \<longleftrightarrow> length n = length name \<and> map to_ascii_lowercase n = name"

definition is_ows :: "byte \<Rightarrow> bool" where
  "is_ows c \<longleftrightarrow> c = SP \<or> c = HTAB"

text \<open>The value of a header line whose name is \<open>name\<close>, with the optional whitespace trimmed.\<close>

definition line_value :: "bytes \<Rightarrow> bytes \<Rightarrow> bytes option" where
  "line_value line name =
     (case position (\<lambda>c. c = 58) line of
        None \<Rightarrow> None
      | Some colon \<Rightarrow>
          if name_matches (take colon line) name
          then Some (trim_by is_ows (drop (Suc colon) line)) else None)"

function header_value :: "bytes \<Rightarrow> bytes \<Rightarrow> bytes option" where
  "header_value head name =
     (if head = [] then None
      else case find_sub head CRLF of
             None \<Rightarrow> line_value head name
           | Some p \<Rightarrow>
               (case line_value (take p head) name of
                  Some v \<Rightarrow> Some v
                | None \<Rightarrow> header_value (drop (p + 2) head) name))"
  by pat_completeness auto
termination
  by (relation "measure (\<lambda>(head, name). length head)") auto

declare header_value.simps [simp del]

definition find_ci :: "bytes \<Rightarrow> bytes \<Rightarrow> nat option" where
  "find_ci hay needle =
     (if needle = [] \<or> length hay < length needle then None
      else window_position (length needle) (\<lambda>w. map to_ascii_lowercase w = needle) hay)"

definition head_end_of :: "bytes \<Rightarrow> nat option" where
  "head_end_of buf = map_option (\<lambda>p. p + 4) (find_sub buf (CRLF @ CRLF))"

definition head_part :: "bytes \<Rightarrow> bytes" where
  "head_part buf = take (case head_end_of buf of Some e \<Rightarrow> e | None \<Rightarrow> length buf) buf"

section \<open>The body-size gate\<close>

definition BODY_413 :: bytes where
  "BODY_413 = ascii ''HTTP/1.1 413 Content Too Large'' @ CRLF @ ascii ''Content-Type: text/plain'' @ CRLF @
     ascii ''Content-Length: 18'' @ CRLF @ ascii ''Connection: close'' @ CRLF @ CRLF @
     ascii ''content too large'' @ [LF]"

definition declared_length :: "bytes \<Rightarrow> nat option" where
  "declared_length head =
     (case header_value head (ascii ''content-length'') of
        None \<Rightarrow> None
      | Some v \<Rightarrow> if utf8_valid v then parse_uint 64 (str_trim v) else None)"

definition body_over_limit :: "bytes \<Rightarrow> nat \<Rightarrow> bool" where
  "body_over_limit acc cap =
     (if cap = 0 then False
      else case head_end_of acc of
             None \<Rightarrow> False
           | Some head_end \<Rightarrow>
               (case declared_length (take head_end acc) of
                  Some n \<Rightarrow> if cap < n then True else cap < length acc - head_end
                | None \<Rightarrow> cap < length acc - head_end))"

section \<open>Connection disposition\<close>

definition request_wants_keepalive :: "bytes \<Rightarrow> bool" where
  "request_wants_keepalive head =
     (let is_11 = find_ci head (ascii ''http/1.1'') \<noteq> None in
      case header_value head (ascii ''connection'') of
        Some v \<Rightarrow>
          if find_ci v (ascii ''close'') \<noteq> None then False
          else if find_ci v (ascii ''keep-alive'') \<noteq> None then True
          else is_11
      | None \<Rightarrow> is_11)"

definition disposition :: "bool \<Rightarrow> bytes" where
  "disposition keepalive =
     (if keepalive then ascii ''Connection: keep-alive'' @ CRLF else ascii ''Connection: close'' @ CRLF)"

definition annotate_connection :: "bytes \<Rightarrow> bool \<Rightarrow> bytes" where
  "annotate_connection resp keepalive =
     (case find_sub resp CRLF of
        None \<Rightarrow> resp
      | Some p \<Rightarrow>
          let status_end = p + 2 in
          if header_value (head_part resp) (ascii ''connection'') \<noteq> None then resp
          else take status_end resp @ disposition keepalive @ drop status_end resp)"

definition response_is_self_delimited :: "bytes \<Rightarrow> bool" where
  "response_is_self_delimited resp =
     (let head = head_part resp in
      header_value head (ascii ''content-length'') \<noteq> None \<or>
      (case header_value head (ascii ''transfer-encoding'') of
         Some te \<Rightarrow> find_ci te (ascii ''chunked'') \<noteq> None
       | None \<Rightarrow> False))"

section \<open>The interim response\<close>

definition INTERIM_100 :: bytes where
  "INTERIM_100 = ascii ''HTTP/1.1 100 Continue'' @ CRLF @ CRLF"

definition strip_cr :: "bytes \<Rightarrow> bytes" where
  "strip_cr line = (if ends_with line [CR] then butlast line else line)"

definition lf_lines :: "bytes \<Rightarrow> bytes list" where
  "lf_lines head = map strip_cr (split_on (\<lambda>b. b = LF) head)"

definition wants_interim_100 :: "bytes \<Rightarrow> bool" where
  "wants_interim_100 acc =
     (case find_sub acc (CRLF @ CRLF) of
        None \<Rightarrow> False
      | Some head_end \<Rightarrow>
          (case lf_lines (take head_end acc) of
             [] \<Rightarrow> False
           | request_line # fields \<Rightarrow>
               ends_with request_line (ascii ''HTTP/1.1'') \<and>
               (\<exists>line \<in> set fields.
                  case position (\<lambda>b. b = 58) line of
                    None \<Rightarrow> False
                  | Some colon \<Rightarrow>
                      eq_ignore_ascii_case (take colon line) (ascii ''expect'') \<and>
                      eq_ignore_ascii_case (trim_by is_ows (drop (Suc colon) line)) (ascii ''100-continue''))))"

section \<open>Request boundaries are bounded\<close>

text \<open>
  Whatever bytes the framer returns, a request boundary lies inside the buffer and within the
  request cap, and a buffer that has outgrown the cap is never asked to grow further.
\<close>

theorem next_request_bounded:
  "case next_request frame_verdict data of
     NeedMore \<Rightarrow> length data \<le> REQUEST_CAP
   | Complete n \<Rightarrow> n \<le> length data \<and> n \<le> REQUEST_CAP \<and>
       (\<exists>le. frame_verdict data = 2 # le \<and> length le = 8 \<and> n = unat (le_or 0 le 0))
   | Oversize \<Rightarrow> True"
  by (auto simp: next_request_def Let_def split: list.splits if_splits)

section \<open>Header lines\<close>

lemma find_sub_None_iff:
  assumes "needle \<noteq> []"
  shows "find_sub hay needle = None \<longleftrightarrow> (\<forall>j. \<not> starts_with (drop j hay) needle)"
proof
  assume none: "find_sub hay needle = None"
  show "\<forall>j. \<not> starts_with (drop j hay) needle"
  proof (rule ccontr)
    assume "\<not> (\<forall>j. \<not> starts_with (drop j hay) needle)"
    then have "\<exists>j. starts_with (drop j hay) needle" by blast
    then have "starts_with (drop (LEAST j. starts_with (drop j hay) needle) hay) needle"
      by (rule LeastI_ex)
    then have "find_sub hay needle = Some (LEAST j. starts_with (drop j hay) needle)"
      using not_less_Least by (auto simp: find_sub_Some_iff [OF assms])
    then show False using none by simp
  qed
next
  assume "\<forall>j. \<not> starts_with (drop j hay) needle"
  then show "find_sub hay needle = None"
    using find_sub_Some_iff [OF assms] by (metis option.exhaust)
qed

lemma starts_with_CRLF: "starts_with xs CRLF \<longleftrightarrow> (\<exists>rest. xs = CR # LF # rest)"
  by (auto simp: starts_with_iff)

text \<open>A line without a line end is followed by its own.\<close>

lemma find_line_end:
  assumes "find_sub line CRLF = None"
  shows "find_sub (line @ CRLF @ rest) CRLF = Some (length line)"
proof -
  have "\<not> starts_with (drop j (line @ CRLF @ rest)) CRLF" if lt: "j < length line" for j
  proof
    have shift: "drop j (line @ CRLF @ rest) = drop j line @ CRLF @ rest"
      using lt by simp
    assume "starts_with (drop j (line @ CRLF @ rest)) CRLF"
    then obtain more where more: "drop j line @ CRLF @ rest = CR # LF # more"
      unfolding shift starts_with_CRLF by blast
    obtain a as where "drop j line = a # as"
      using lt by (cases "drop j line") auto
    then have "starts_with (drop j line) CRLF"
      using more by (cases as) (auto simp: starts_with_CRLF)
    then show False
      using assms by (simp add: find_sub_None_iff)
  qed
  then show ?thesis
    by (simp add: find_sub_Some_iff starts_with_CRLF)
qed

lemma header_value_line:
  assumes "find_sub line CRLF = None"
  shows "header_value (line @ CRLF @ rest) name =
           (case line_value line name of Some v \<Rightarrow> Some v | None \<Rightarrow> header_value rest name)"
  using find_line_end [OF assms, of rest]
  by (subst header_value.simps) (simp split: option.split)

lemma header_value_Nil [simp]: "header_value [] name = None"
  by (subst header_value.simps) simp

section \<open>The disposition header\<close>

lemma find_sub_split:
  assumes "find_sub hay CRLF = Some p"
  shows "hay = take p hay @ CRLF @ drop (p + 2) hay" "find_sub (take p hay) CRLF = None"
proof -
  obtain rest where rest: "drop p hay = CR # LF # rest"
    using assms by (auto simp: find_sub_Some_iff starts_with_CRLF)
  then have "drop (p + 2) hay = rest"
    by (metis add.commute drop_drop drop_Suc_Cons drop0 numeral_2_eq_2)
  then show "hay = take p hay @ CRLF @ drop (p + 2) hay"
    using rest by (metis append_take_drop_id append_Cons append_Nil)
  have "\<not> starts_with (drop j (take p hay)) CRLF" for j
  proof
    assume "starts_with (drop j (take p hay)) CRLF"
    then obtain more where more: "drop j (take p hay) = CR # LF # more"
      by (auto simp: starts_with_CRLF)
    then have j: "j < length (take p hay)"
      using drop_all [of "take p hay" j] by (metis list.distinct(1) not_le)
    have "drop j hay = drop j (take p hay) @ drop p hay"
      using j by (subst append_take_drop_id [of p hay, symmetric], subst drop_append) simp
    then have "starts_with (drop j hay) CRLF"
      using more by (simp add: starts_with_CRLF)
    then show False
      using assms j by (auto simp: find_sub_Some_iff)
  qed
  then show "find_sub (take p hay) CRLF = None"
    by (simp add: find_sub_None_iff)
qed

lemma find_sub_line_None:
  assumes "CR \<notin> set line"
  shows "find_sub line CRLF = None"
proof -
  have "CR \<notin> set (drop j line)" for j
    using assms by (auto dest: in_set_dropD)
  then show ?thesis
    by (auto simp: find_sub_None_iff starts_with_CRLF) (metis list.set_intros(1))
qed

text \<open>The head ends at the earliest where two line ends meet.\<close>

lemma head_part_lines:
  assumes st: "find_sub st CRLF = None" and line: "CR \<notin> set line" "line \<noteq> []"
  shows "\<exists>more. head_part (st @ CRLF @ line @ CRLF @ rest) = st @ CRLF @ line @ CRLF @ more"
proof (cases "find_sub (st @ CRLF @ line @ CRLF @ rest) (CRLF @ CRLF)")
  case None
  then show ?thesis
    by (intro exI [of _ rest]) (simp add: head_part_def head_end_of_def)
next
  case (Some j)
  let ?new = "st @ CRLF @ line @ CRLF @ rest"
  have at: "starts_with (drop j ?new) (CRLF @ CRLF)"
    using Some find_sub_Some_iff [of "CRLF @ CRLF"] by blast
  then obtain m where m: "drop j ?new = CR # LF # CR # LF # m"
    by (auto simp: starts_with_iff)
  have "\<not> j < length st"
    using find_line_end [OF st, of "line @ CRLF @ rest"] m
    by (auto simp: find_sub_Some_iff starts_with_CRLF)
  moreover have "j \<noteq> length st"
    using m line by (cases line) auto
  moreover have "j \<noteq> length st + 1"
    using m by auto
  moreover have "\<not> (length st + 2 \<le> j \<and> j < length st + 2 + length line)"
  proof
    assume j: "length st + 2 \<le> j \<and> j < length st + 2 + length line"
    then have "drop j ?new = drop (j - (length st + 2)) (line @ CRLF @ rest)"
      by (simp add: drop_append drop_Cons' Suc_diff_le numeral_2_eq_2)
    then have "starts_with (drop (j - (length st + 2)) (line @ CRLF @ rest)) CRLF"
      using m by (simp add: starts_with_CRLF)
    then show False
      using find_line_end [OF find_sub_line_None [OF line(1)], of rest] j by (auto simp: find_sub_Some_iff)
  qed
  ultimately have j: "length st + 2 + length line \<le> j"
    by linarith
  then have "take (j + 4) ?new = st @ CRLF @ line @ CRLF @ take (j + 4 - (length st + 4 + length line)) rest"
    by (simp add: take_Cons' numeral_2_eq_2)
  moreover have "head_part ?new = take (j + 4) ?new"
    unfolding head_part_def head_end_of_def Some by simp
  ultimately show ?thesis
    by metis
qed

definition disposition_line :: "bool \<Rightarrow> bytes" where
  "disposition_line keepalive = (if keepalive then ascii ''Connection: keep-alive'' else ascii ''Connection: close'')"

lemma disposition_line:
  "disposition k = disposition_line k @ CRLF" "CR \<notin> set (disposition_line k)" "disposition_line k \<noteq> []"
  "line_value (disposition_line k) (ascii ''connection'') = Some (if k then ascii ''keep-alive'' else ascii ''close'')"
  by (simp_all add: disposition_def disposition_line_def line_value_def name_matches_def
      to_ascii_lowercase_def trim_by_def trim_start_by_def trim_end_by_def is_ows_def)

lemma take_past_line:
  "length st + 2 \<le> n \<Longrightarrow> take n (st @ CRLF @ rest) = st @ CRLF @ take (n - length st - 2) rest"
  by (simp add: take_Cons' numeral_2_eq_2)

lemma head_part_first_line:
  assumes "find_sub resp CRLF = Some p"
  shows "\<exists>more. head_part resp = take p resp @ CRLF @ more"
proof (cases "find_sub resp (CRLF @ CRLF)")
  case None
  then have "head_part resp = take p resp @ CRLF @ drop (p + 2) resp"
    using find_sub_split(1) [OF assms] by (simp add: head_part_def head_end_of_def)
  then show ?thesis by blast
next
  case (Some q)
  then have "starts_with (drop q resp) CRLF"
    using find_sub_Some_iff [of "CRLF @ CRLF" resp q] by (auto simp: starts_with_iff)
  then have "p \<le> q"
    using assms by (auto simp: find_sub_Some_iff not_less)
  moreover have "length (take p resp) \<le> p"
    by simp
  ultimately have "take (q + 4) (take p resp @ CRLF @ drop (p + 2) resp)
      = take p resp @ CRLF @ take (q + 4 - length (take p resp) - 2) (drop (p + 2) resp)"
    by (intro take_past_line) linarith
  moreover have "head_part resp = take (q + 4) (take p resp @ CRLF @ drop (p + 2) resp)"
    using Some find_sub_split(1) [OF assms] by (simp add: head_part_def head_end_of_def)
  ultimately show ?thesis by metis
qed

lemma annotate_connection_lookup:
  assumes "find_sub resp CRLF = Some p" "header_value (head_part resp) (ascii ''connection'') = None"
  shows "header_value (head_part (annotate_connection resp k)) (ascii ''connection'')
           = Some (if k then ascii ''keep-alive'' else ascii ''close'')"
proof -
  let ?st = "take p resp" and ?rest = "drop (p + 2) resp"
  note split = find_sub_split [OF assms(1)]
  have p: "p + 2 \<le> length resp"
    using arg_cong [OF split(1), of length] by (simp add: min_def split: if_splits)
  have "take (p + 2) resp = take (p + 2) (?st @ CRLF @ ?rest)"
    using split(1) by (rule arg_cong)
  also have "\<dots> = ?st @ CRLF"
    using p by simp
  finally have new: "annotate_connection resp k = ?st @ CRLF @ disposition_line k @ CRLF @ ?rest"
    using assms by (simp add: annotate_connection_def disposition_line(1))
  obtain more where more: "head_part (annotate_connection resp k) = ?st @ CRLF @ disposition_line k @ CRLF @ more"
    using head_part_lines [OF split(2) disposition_line(2,3)] unfolding new by blast
  have "line_value ?st (ascii ''connection'') = None"
    using head_part_first_line [OF assms(1)] assms(2) header_value_line [OF split(2)]
    by (auto split: option.splits)
  then show ?thesis
    using header_value_line [OF split(2)] header_value_line [OF find_sub_line_None [OF disposition_line(2)]]
      disposition_line(4)
    unfolding more by simp
qed

lemma annotate_connection_stated:
  "header_value (head_part resp) (ascii ''connection'') \<noteq> None \<Longrightarrow> annotate_connection resp k = resp"
  by (simp add: annotate_connection_def Let_def split: option.split)

text \<open>
  Stamping the connection disposition changes a response in one place only: a response without a
  status line end, or whose head already states a disposition, is left alone; otherwise one header is
  inserted right after the status line, and the head then states exactly the host's decision. Stamping
  again, with any decision, changes nothing.
\<close>

theorem annotate_connection_stamps_once:
  "(case find_sub resp CRLF of
      None \<Rightarrow> annotate_connection resp k = resp
    | Some p \<Rightarrow>
        if header_value (head_part resp) (ascii ''connection'') \<noteq> None then annotate_connection resp k = resp
        else annotate_connection resp k = take (p + 2) resp @ disposition k @ drop (p + 2) resp \<and>
             header_value (head_part (annotate_connection resp k)) (ascii ''connection'')
               = Some (if k then ascii ''keep-alive'' else ascii ''close'')) \<and>
   annotate_connection (annotate_connection resp k) k' = annotate_connection resp k"
proof (cases "find_sub resp CRLF")
  case None
  then show ?thesis by (simp add: annotate_connection_def)
next
  case (Some p)
  show ?thesis
  proof (cases "header_value (head_part resp) (ascii ''connection'')")
    case None
    note lookup = annotate_connection_lookup [OF Some None, of k]
    have "annotate_connection (annotate_connection resp k) k' = annotate_connection resp k"
      by (rule annotate_connection_stated) (use lookup in simp)
    moreover have "annotate_connection resp k = take (p + 2) resp @ disposition k @ drop (p + 2) resp"
      using Some None by (simp add: annotate_connection_def)
    ultimately show ?thesis
      using Some None lookup by simp
  next
    case (Some v)
    then show ?thesis
      using annotate_connection_stated [of resp] \<open>find_sub resp CRLF = Some p\<close> by simp
  qed
qed

section \<open>The gates only ever tighten\<close>

lemma head_end_of_append:
  "head_end_of acc = Some e \<Longrightarrow> head_end_of (acc @ more) = Some e \<and> e \<le> length acc"
proof -
  assume "head_end_of acc = Some e"
  then obtain p where p: "find_sub acc (CRLF @ CRLF) = Some p" "e = p + 4"
    by (auto simp: head_end_of_def)
  then have "starts_with (drop p acc) (CRLF @ CRLF)"
    using find_sub_Some_iff [of "CRLF @ CRLF" acc p] by auto
  then have "e \<le> length acc"
    using p(2) starts_with_length [of "drop p acc" "CRLF @ CRLF"] by simp
  moreover have "head_end_of (acc @ more) = Some e"
    using find_sub_append [OF _ p(1), of more] p(2) by (simp add: head_end_of_def)
  ultimately show ?thesis by simp
qed

text \<open>
  The body-size gate fires exactly when a complete head declares a length over the cap or more
  body bytes than the cap have arrived, whether or not a length was declared, and once it has
  fired it stays fired however the stream continues.
\<close>

theorem body_over_limit_exact:
  "(body_over_limit acc cap \<longleftrightarrow>
      0 < cap \<and> (\<exists>e. head_end_of acc = Some e \<and>
        ((\<exists>n. declared_length (take e acc) = Some n \<and> cap < n) \<or> cap < length (drop e acc)))) \<and>
   (body_over_limit acc cap \<longrightarrow> body_over_limit (acc @ more) cap)"
proof
  show exact: "body_over_limit acc cap \<longleftrightarrow>
      0 < cap \<and> (\<exists>e. head_end_of acc = Some e \<and>
        ((\<exists>n. declared_length (take e acc) = Some n \<and> cap < n) \<or> cap < length (drop e acc)))" for acc
    by (auto simp: body_over_limit_def split: option.splits if_splits)
  show "body_over_limit acc cap \<longrightarrow> body_over_limit (acc @ more) cap"
    unfolding exact by (auto dest: head_end_of_append [of acc _ more])
qed

theorem body_over_limit_exact_witness:
  "body_over_limit (ascii ''P'' @ CRLF @ CRLF @ ascii ''abc'' @ ascii ''d'') 2"
  using body_over_limit_exact [of "ascii ''P'' @ CRLF @ CRLF @ ascii ''abc''" 2 "ascii ''d''"]
  by (simp add: body_over_limit_def head_end_of_def find_sub_def declared_length_def header_value.simps
      line_value_def split: option.split)

section \<open>The keep-alive default\<close>

text \<open>
  The version test of the keep-alive decision looks for \<open>http/1.1\<close> anywhere in the head: an
  HTTP/1.0 request without a \<open>Connection\<close> header, which defaults to close, is kept open when
  another header happens to contain that text.
\<close>

theorem keepalive_misreads_http10:
  "request_wants_keepalive (ascii ''GET / HTTP/1.0'' @ CRLF @ ascii ''Via: http/1.1 p'' @ CRLF @ CRLF) \<and>
   \<not> request_wants_keepalive (ascii ''GET / HTTP/1.0'' @ CRLF @ ascii ''Via: 1.1 p'' @ CRLF @ CRLF)"
  by (simp add: request_wants_keepalive_def find_ci_def header_value.simps find_sub_def line_value_def
      name_matches_def to_ascii_lowercase_def Let_def)

section \<open>HTTP/2 opening burst\<close>

text \<open>A frame on the wire: a 24-bit length, the type, flags, the stream identifier, the payload.\<close>

definition h2_frame :: "byte \<times> bytes \<times> bytes \<Rightarrow> bytes" where
  "h2_frame f =
     (case f of (ftype, rest, payload) \<Rightarrow>
        [of_nat (length payload div 2 ^ 16), of_nat (length payload div 2 ^ 8), of_nat (length payload), ftype]
        @ rest @ payload)"

definition h2_frame_ok :: "byte \<times> bytes \<times> bytes \<Rightarrow> bool" where
  "h2_frame_ok f \<longleftrightarrow> length (fst (snd f)) = 5 \<and> length (snd (snd f)) < 2 ^ 24"

lemma u24_split:
  assumes "n < 2 ^ 24"
  shows "u24 (of_nat (n div 2 ^ 16)) (of_nat (n div 2 ^ 8)) (of_nat n) = n"
proof -
  have "n div 2 ^ 16 < 2 ^ 8"
    using assms by (simp add: less_mult_imp_div_less)
  moreover have "n div 65536 * 65536 + n div 256 mod 256 * 256 + n mod 256 = n"
    using div_mult2_eq [of n 256 256, simplified] div_mult_mod_eq [of "n div 256" 256] div_mult_mod_eq [of n 256]
    by linarith
  ultimately show ?thesis
    by (simp add: u24_def unat_of_nat)
qed

lemma h2c_scan_frame:
  assumes "h2_frame_ok f"
  shows "h2c_scan (pre @ h2_frame f @ rest) (length pre) \<longleftrightarrow>
           fst f = 1 \<or> h2c_scan (pre @ h2_frame f @ rest) (length (pre @ h2_frame f))"
proof -
  obtain ty hd payload where f: "f = (ty, hd, payload)"
    by (cases f)
  have len: "length (h2_frame f) = 9 + length payload" and hd: "length hd = 5"
    using assms by (simp_all add: h2_frame_def h2_frame_ok_def f)
  let ?buf = "pre @ h2_frame f @ rest"
  have "?buf ! length pre = of_nat (length payload div 2 ^ 16)"
    "?buf ! (length pre + 1) = of_nat (length payload div 2 ^ 8)"
    "?buf ! (length pre + 2) = of_nat (length payload)" "?buf ! (length pre + 3) = ty"
    by (simp_all add: h2_frame_def f nth_append numeral_2_eq_2 numeral_3_eq_3)
  moreover have "u24 (of_nat (length payload div 2 ^ 16)) (of_nat (length payload div 2 ^ 8))
      (of_nat (length payload)) = length payload"
    using assms by (intro u24_split) (simp add: h2_frame_ok_def f)
  ultimately show ?thesis
    using len f by (subst h2c_scan.simps) (simp add: Let_def add.assoc)
qed

lemma h2c_scan_frames:
  assumes "\<forall>f \<in> set fs. h2_frame_ok f"
  shows "h2c_scan (pre @ concat (map h2_frame fs)) (length pre) \<longleftrightarrow> (\<exists>f \<in> set fs. fst f = 1)"
  using assms
proof (induction fs arbitrary: pre)
  case Nil
  then show ?case by (simp add: h2c_scan.simps)
next
  case (Cons f fs)
  then show ?case
    using h2c_scan_frame [of f pre "concat (map h2_frame fs)"] Cons.IH [of "pre @ h2_frame f"] by simp
qed

text \<open>
  On an opening burst that holds the 24-octet preface and then whole HTTP/2 frames, the burst is
  reported complete exactly when one of the frames is a HEADERS frame.
\<close>

theorem h2c_burst_complete_frames:
  assumes "length preface = 24" "\<forall>f \<in> set fs. h2_frame_ok f"
  shows "h2c_burst_complete (preface @ concat (map h2_frame fs)) \<longleftrightarrow> (\<exists>f \<in> set fs. fst f = 1)"
  using h2c_scan_frames [OF assms(2), of preface] assms(1)
  by (simp add: h2c_burst_complete_def H2_PREFACE_FULL_def)

theorem h2c_burst_complete_frames_witness:
  "h2c_burst_complete (replicate 24 0 @ concat (map h2_frame [(4, [0,0,0,0,0], []), (1, [5,0,0,0,1], [130, 134])]))"
  by (subst h2c_burst_complete_frames) (simp_all add: h2_frame_ok_def)

end
