(* ===== verification/Proxy_Head.thy ===== *)
theory Proxy_Head
  imports Http
begin

text \<open>
  What the reverse proxy reads off a message head, after \<^verbatim>\<open>proxy_dial.rs\<close>: the body framing and
  reusability of an upstream response, the proxied path and the affinity key of a request. Lines end
  at a line feed here, with an optional carriage return before it.
\<close>

section \<open>Scanning\<close>

definition trim_ascii :: "bytes \<Rightarrow> bytes" where
  "trim_ascii b = trim_by is_ascii_whitespace b"

definition header_name_lower :: "bytes \<Rightarrow> bytes" where
  "header_name_lower line = map to_ascii_lowercase (takeWhile (\<lambda>b. b \<noteq> 58) line)"

definition trim_ows :: "bytes \<Rightarrow> bytes" where
  "trim_ows b = trim_by is_ows b"

definition find :: "bytes \<Rightarrow> bytes \<Rightarrow> nat option" where
  "find hay needle = find_sub hay needle"

text \<open>The first line that starts with \<open>field\<close> in any case, without it.\<close>

fun first_field :: "bytes \<Rightarrow> bytes list \<Rightarrow> bytes option" where
  "first_field field [] = None"
| "first_field field (line # lines) =
     (if length field \<le> length line \<and> eq_ignore_ascii_case (take (length field) line) field
      then Some (drop (length field) line) else first_field field lines)"

definition content_length :: "bytes \<Rightarrow> nat option" where
  "content_length head =
     (case first_field (ascii ''content-length:'') (lf_lines head) of
        None \<Rightarrow> None
      | Some v \<Rightarrow>
          let v = trim_ascii v in
          if utf8_valid v then parse_uint 64 (str_trim v) else None)"

definition is_chunked :: "bytes \<Rightarrow> bool" where
  "is_chunked head =
     (case first_field (ascii ''transfer-encoding:'') (lf_lines head) of
        None \<Rightarrow> False
      | Some v \<Rightarrow> find_sub (map to_ascii_lowercase (trim_ascii v)) (ascii ''chunked'') \<noteq> None)"

definition is_event_stream :: "bytes \<Rightarrow> bool" where
  "is_event_stream head =
     (case first_field (ascii ''content-type:'') (lf_lines head) of
        None \<Rightarrow> False
      | Some v \<Rightarrow>
          let v = trim_ascii v;
              mt = (case position (\<lambda>b. b = 59) v of Some p \<Rightarrow> trim_ascii (take p v) | None \<Rightarrow> v)
          in eq_ignore_ascii_case mt (ascii ''text/event-stream''))"

text \<open>The tokens of the \<open>Connection\<close> fields, lowercased and trimmed.\<close>

definition connection_tokens :: "bytes \<Rightarrow> bytes list" where
  "connection_tokens line =
     (if header_name_lower line = ascii ''connection''
      then let value = (case position (\<lambda>b. b = 58) line of Some p \<Rightarrow> drop (p + 1) line | None \<Rightarrow> [])
           in map (\<lambda>tok. map to_ascii_lowercase (trim_ows tok)) (split_on (\<lambda>b. b = 44) value)
      else [])"

definition resp_upstream_keepalive :: "bytes \<Rightarrow> bool" where
  "resp_upstream_keepalive head =
     (let lines = lf_lines head;
          http11 = window_position 8 (\<lambda>w. eq_ignore_ascii_case w (ascii ''HTTP/1.1'')) (hd lines) \<noteq> None;
          tokens = concat (map connection_tokens (tl lines));
          saw_close = ascii ''close'' \<in> set tokens;
          saw_keepalive = ascii ''keep-alive'' \<in> set tokens
      in if saw_close then False else http11 \<or> saw_keepalive)"

section \<open>Requests\<close>

definition request_target :: "bytes \<Rightarrow> bytes option" where
  "request_target req =
     (case find_sub req CRLF of
        None \<Rightarrow> None
      | Some line_end \<Rightarrow>
          (case split_once (\<lambda>c. c = SP) (take line_end req) of
             (method, None) \<Rightarrow> None
           | (method, Some rest) \<Rightarrow> Some (fst (split_once (\<lambda>c. c = SP) rest))))"

definition is_proxy_path :: "bytes \<Rightarrow> bool" where
  "is_proxy_path req =
     (case request_target req of
        Some t \<Rightarrow> t = ascii ''/api'' \<or> starts_with t (ascii ''/api/'') \<or> starts_with t (ascii ''/api?'')
      | None \<Rightarrow> False)"

text \<open>The \<open>sid=\<close> crumb of the first cookie line that has one.\<close>

fun first_sid :: "bytes list \<Rightarrow> bytes option" where
  "first_sid [] = None"
| "first_sid (crumb # crumbs) =
     (if starts_with (trim_ascii crumb) (ascii ''sid='') then Some (drop 4 (trim_ascii crumb)) else first_sid crumbs)"

fun cookie_sid :: "bytes list \<Rightarrow> bytes option" where
  "cookie_sid [] = None"
| "cookie_sid (line # lines) =
     (case (if 7 \<le> length line \<and> eq_ignore_ascii_case (take 7 line) (ascii ''cookie:'')
            then first_sid (split_on (\<lambda>c. c = 59) (drop 7 line)) else None) of
        Some v \<Rightarrow> Some v
      | None \<Rightarrow> cookie_sid lines)"

definition sticky_key :: "bytes \<Rightarrow> bytes" where
  "sticky_key req =
     (case cookie_sid (lf_lines (head_part req)) of
        Some v \<Rightarrow> v
      | None \<Rightarrow> (case request_target req of Some t \<Rightarrow> t | None \<Rightarrow> []))"

section \<open>Heads written line by line\<close>

lemma split_on_line:
  assumes "c \<notin> set line"
  shows "split_on (\<lambda>b. b = c) (line @ c # rest) = line # split_on (\<lambda>b. b = c) rest"
  using assms by (induction line) auto

lemma lf_lines_line:
  assumes "LF \<notin> set line" "CR \<notin> set line"
  shows "lf_lines (line @ CRLF @ rest) = line # lf_lines rest"
  using split_on_line [of LF "line @ [CR]" rest] assms
  by (simp add: lf_lines_def strip_cr_def ends_with_def)

text \<open>A line whose name part differs does not interfere with the scan.\<close>

lemma first_field_skip:
  assumes "\<not> eq_ignore_ascii_case (take (length field) line) field"
  shows "first_field field (line # lines) = first_field field lines"
  using assms by auto

lemma digits_not_whitespace:
  assumes "is_ascii_digit b"
  shows "\<not> is_ascii_whitespace b" "b < 128" "\<not> is_unicode_whitespace [b]"
  using assms by (auto simp: is_ascii_digit_def is_ascii_whitespace_def is_unicode_whitespace_def
      word_le_nat_alt word_less_nat_alt)

lemma trim_digits: "trim_ascii (SP # dec_digits n) = dec_digits n"
proof -
  have "trim_by is_ascii_whitespace (dec_digits n) = dec_digits n"
    using digits_not_whitespace(1) dec_digits_are_digits by (intro trim_by_id) (metis hd_in_set last_in_set)
  then show ?thesis
    by (simp add: trim_ascii_def trim_by_def trim_start_by_def is_ascii_whitespace_def)
qed

lemma str_trim_digits: "utf8_valid (dec_digits n) \<and> str_trim (dec_digits n) = dec_digits n"
proof -
  have chars: "utf8_chars (dec_digits n) = Some (map (\<lambda>b. [b]) (dec_digits n))"
    using digits_not_whitespace(2) dec_digits_are_digits by (intro utf8_chars_ascii) blast
  moreover have "trim_by is_unicode_whitespace (map (\<lambda>b. [b]) (dec_digits n)) = map (\<lambda>b. [b]) (dec_digits n)"
    using digits_not_whitespace(3) [OF dec_digits_are_digits [OF hd_in_set [OF dec_digits_not_Nil]]]
      digits_not_whitespace(3) [OF dec_digits_are_digits [OF last_in_set [OF dec_digits_not_Nil]]]
    by (intro trim_by_id) (simp add: hd_map last_map)
  moreover have "concat (map (\<lambda>b. [b]) (dec_digits n)) = dec_digits n"
    using utf8_chars_concat chars by blast
  ultimately show ?thesis
    by (simp add: str_trim_def utf8_valid_def)
qed

text \<open>
  The content length announced by a response head is read back exactly: in a head whose earlier
  lines do not start with the field name, \<open>Content-Length: n\<close> yields \<open>n\<close>, in any letter case of
  the field name and for every \<open>n\<close> of 64 bits.
\<close>

theorem content_length_reads_field:
  assumes "\<forall>l \<in> set before. LF \<notin> set l \<and> CR \<notin> set l \<and>
             \<not> eq_ignore_ascii_case (take 15 l) (ascii ''content-length:'')"
    and "eq_ignore_ascii_case name (ascii ''content-length:'')" "LF \<notin> set name" "CR \<notin> set name"
    and "n < 2 ^ 64"
  shows "content_length (concat (map (\<lambda>l. l @ CRLF) before) @ name @ SP # dec_digits n @ CRLF @ rest) = Some n"
  using assms(1)
proof (induction before)
  case Nil
  have digits: "LF \<notin> set (dec_digits n)" "CR \<notin> set (dec_digits n)"
    using dec_digits_are_digits by (fastforce simp: is_ascii_digit_def)+
  have len: "length name = 15"
    using assms(2) by (auto dest: eq_ignore_ascii_case_length)
  have "lf_lines ((name @ SP # dec_digits n) @ CRLF @ rest) = (name @ SP # dec_digits n) # lf_lines rest"
    using digits assms by (intro lf_lines_line) auto
  then show ?case
    using assms len by (simp add: content_length_def trim_digits str_trim_digits parse_uint_dec_digits)
next
  case (Cons l before)
  then show ?case
    by (simp add: content_length_def lf_lines_line [simplified] eval_nat_numeral)
qed

theorem content_length_reads_field_witness:
  "content_length (ascii ''HTTP/1.1 200 OK'' @ CRLF @ ascii ''CONTENT-length: 12'' @ CRLF @ CRLF) = Some 12"
  using content_length_reads_field [of "[ascii ''HTTP/1.1 200 OK'']" "ascii ''CONTENT-length:''" 12 CRLF]
  by (simp add: eq_ignore_ascii_case_def to_ascii_lowercase_def dec_digits.simps)

end
