(* ===== verification/Host_IO.thy ===== *)
theory Host_IO
  imports Prelude
begin

text \<open>
  Sockets as the host's code sees them. A peer's side of a connection is the script of the results
  that successive reads return; a script that has run out is a read that has not returned yet. A
  client is what was written to it so far, and the script of the write and flush calls that fail;
  what a failing write has put on the wire is not tracked, the connection is closed after it.
\<close>

datatype io_kind = TimedOut | WouldBlock | UnexpectedEof | InvalidSplice | OtherError

section \<open>Reading\<close>

type_synonym read_script = "(io_kind + bytes) list"

text \<open>One read of at most \<open>n\<close> bytes; an empty block is the end of the stream.\<close>

fun read_some :: "nat \<Rightarrow> read_script \<Rightarrow> ((io_kind + bytes) \<times> read_script) option" where
  "read_some n [] = None"
| "read_some n (Inl e # us) = Some (Inl e, us)"
| "read_some n (Inr bs # us) =
     (if length bs \<le> n then Some (Inr bs, us) else Some (Inr (take n bs), Inr (drop n bs) # us))"

fun script_size :: "read_script \<Rightarrow> nat" where
  "script_size [] = 0"
| "script_size (Inl e # us) = Suc (script_size us)"
| "script_size (Inr bs # us) = Suc (length bs) + script_size us"

text \<open>The bytes a script delivers before it ends, fails or blocks.\<close>

fun delivered :: "read_script \<Rightarrow> bytes" where
  "delivered [] = []"
| "delivered (Inl e # us) = []"
| "delivered (Inr bs # us) = (if bs = [] then [] else bs @ delivered us)"

lemma read_some_size: "0 < n \<Longrightarrow> read_some n us = Some (r, us') \<Longrightarrow> script_size us' < script_size us"
  by (cases "(n, us)" rule: read_some.cases) (auto split: if_splits)

lemma read_some_delivered:
  assumes "read_some n us = Some (Inr bs, us')" "bs \<noteq> []"
  shows "delivered us = bs @ delivered us'" "length bs \<le> n"
  using assms by (cases "(n, us)" rule: read_some.cases; auto split: if_splits)+

lemma read_some_end:
  assumes "read_some n us = Some (r, us')" "r = Inr [] \<or> (\<exists>e. r = Inl e)" "0 < n"
  shows "delivered us = []"
  using assms by (cases "(n, us)" rule: read_some.cases) (auto split: if_splits)

text \<open>A read blocks, ends the stream, fails, or brings a block and leaves a shorter script.\<close>

lemma read_cases [case_names Blocked Ended Failed Block]:
  assumes "read_some n us = None \<Longrightarrow> P"
    and "\<And>us'. read_some n us = Some (Inr [], us') \<Longrightarrow> P"
    and "\<And>e us'. read_some n us = Some (Inl e, us') \<Longrightarrow> P"
    and "\<And>bs us'. read_some n us = Some (Inr bs, us') \<Longrightarrow> bs \<noteq> [] \<Longrightarrow> P"
  shows P
  using assms by (cases "read_some n us") (auto, metis sum.exhaust)

lemma read_induct [case_names Read]:
  assumes "\<And>us. (\<And>n r us'. 0 < n \<Longrightarrow> read_some n us = Some (r, us') \<Longrightarrow> P us') \<Longrightarrow> P us"
  shows "P us"
proof (induction us rule: measure_induct_rule [of script_size])
  case (less us)
  then show ?case
    using assms read_some_size by blast
qed

section \<open>Writing\<close>

record client =
  sent :: bytes
  faults :: "bool list"

definition io_call :: "client \<Rightarrow> bool \<times> client" where
  "io_call c = (case faults c of [] \<Rightarrow> (True, c) | f # fs \<Rightarrow> (\<not> f, c\<lparr> faults := fs \<rparr>))"

definition write_all :: "client \<Rightarrow> bytes \<Rightarrow> bool \<times> client" where
  "write_all c bs = (let (ok, c') = io_call c in if ok then (True, c'\<lparr> sent := sent c' @ bs \<rparr>) else (False, c'))"

definition flush_client :: "client \<Rightarrow> bool \<times> client" where
  "flush_client c = io_call c"

lemma io_call_sent [simp]: "sent (snd (io_call c)) = sent c"
  by (auto simp: io_call_def split: list.splits)

lemma write_all_sent: "write_all c bs = (ok, c') \<Longrightarrow> sent c' = (if ok then sent c @ bs else sent c)"
  by (auto simp: write_all_def case_prod_beta Let_def split: if_splits prod.splits)

lemma flush_client_sent: "flush_client c = (ok, c') \<Longrightarrow> sent c' = sent c"
  using io_call_sent [of c] by (simp add: flush_client_def)

lemma write_all_reliable: "faults c = [] \<Longrightarrow> write_all c bs = (True, c\<lparr> sent := sent c @ bs \<rparr>)"
  by (simp add: write_all_def io_call_def)

lemma flush_client_reliable: "faults c = [] \<Longrightarrow> flush_client c = (True, c)"
  by (simp add: flush_client_def io_call_def)

end
