(* ===== verification/Fleet.thy ===== *)
theory Fleet
  imports Proxy_Head Host_IO "HOL-Library.AList"
begin

unbundle bit_operations_syntax

text \<open>
  The backend fleet of \<^verbatim>\<open>proxy_dial.rs\<close>: targets, resolution cache, health mask, circuit breaker and
  in-flight counters, and the forward that runs under them (\<open>handle_streaming_via\<close>). The system
  resolver and the connection attempts are parameters; the backend itself is chosen by the
  compiled Lean selector, the parameter \<open>pick\<close>. A hash map whose iteration order matters is an
  association list in that order.
\<close>

section \<open>The fleet\<close>

record 'addr fleet =
  targets :: "(u32 \<times> bytes) list"
  resolved :: "u32 \<rightharpoonup> 'addr option"
  health :: u32
  breaker :: "u32 \<rightharpoonup> u32"
  inflight :: "u32 \<rightharpoonup> u32"
  breaker_threshold :: u32
  dial_timeout :: nat
  fl_round :: u32

text \<open>\<open>1u32 << bid\<close>: a shift by 32 or more overflows.\<close>

definition shift_one :: "u32 \<Rightarrow> u32 outcome" where
  "shift_one bid = (if bid < 32 then Return (push_bit (unat bid) 1) else Panic)"

text \<open>The entries of the specification string, one after the other.\<close>

fun parse_entries ::
  "(bytes \<Rightarrow> 'addr option) \<Rightarrow> bytes list \<Rightarrow> (u32 \<times> bytes) list \<times> (u32 \<rightharpoonup> 'addr option) \<times> u32
     \<Rightarrow> ((u32 \<times> bytes) list \<times> (u32 \<rightharpoonup> 'addr option) \<times> u32) option outcome" where
  "parse_entries resolve_target [] acc = Return (Some acc)"
| "parse_entries resolve_target (entry # entries) (ts, rs, msk) =
     (case split_once (\<lambda>c. c = 61) entry of
        (_, None) \<Rightarrow> Return None
      | (id_s, Some addr_s) \<Rightarrow>
          (case parse_uint 32 (str_trim id_s) of
             None \<Rightarrow> Return None
           | Some n \<Rightarrow>
               let bid = of_nat n; target = str_trim addr_s in
               bind_outcome (shift_one bid) (\<lambda>bit.
                 parse_entries resolve_target entries
                   (AList.update bid target ts, rs(bid \<mapsto> resolve_target target), msk OR bit))))"

definition fleet_parse ::
  "(bytes \<Rightarrow> 'addr option) \<Rightarrow> bytes \<Rightarrow> u32 \<Rightarrow> nat \<Rightarrow> 'addr fleet option outcome" where
  "fleet_parse resolve_target spec threshold timeout =
     (let entries = filter (\<lambda>s. s \<noteq> []) (map str_trim (split_on (\<lambda>c. c = 44) spec)) in
      bind_outcome (parse_entries resolve_target entries ([], \<lambda>_. None, 0)) (\<lambda>res.
        Return (case res of
                  None \<Rightarrow> None
                | Some (ts, rs, msk) \<Rightarrow>
                    if ts = [] then None
                    else Some \<lparr> targets = ts, resolved = rs, health = msk, breaker = (\<lambda>_. None),
                                inflight = (\<lambda>bid. if bid \<in> fst ` set ts then Some 0 else None),
                                breaker_threshold = threshold, dial_timeout = timeout, fl_round = 0 \<rparr>)))"

definition fleet_mask :: "'addr fleet \<Rightarrow> byte" where
  "fleet_mask f = ucast (health f AND 0xff)"

definition fleet_addr :: "(bytes \<Rightarrow> 'addr option) \<Rightarrow> 'addr fleet \<Rightarrow> u32 \<Rightarrow> 'addr option \<times> 'addr fleet" where
  "fleet_addr resolve_target f bid =
     (case map_of (targets f) bid of
        None \<Rightarrow> (None, f)
      | Some target \<Rightarrow>
          (case resolved f bid of
             Some (Some cached) \<Rightarrow> (Some cached, f)
           | cache \<Rightarrow>
               (case resolve_target target of
                  None \<Rightarrow> (None, f)
                | Some addr \<Rightarrow>
                    (Some addr, if cache = None then f else f\<lparr> resolved := (resolved f)(bid \<mapsto> Some addr) \<rparr>))))"

definition next_round :: "'addr fleet \<Rightarrow> byte \<times> 'addr fleet" where
  "next_round f = (ucast (fl_round f AND 0xff), f\<lparr> fl_round := fl_round f + 1 \<rparr>)"

definition conns_bytes :: "'addr fleet \<Rightarrow> bytes" where
  "conns_bytes f = map (\<lambda>bid. case inflight f bid of Some c \<Rightarrow> ucast (min c 255) | None \<Rightarrow> 0) [0, 1, 2]"

definition set_up :: "'addr fleet \<Rightarrow> u32 \<Rightarrow> bool \<Rightarrow> 'addr fleet outcome" where
  "set_up f bid up =
     bind_outcome (shift_one bid) (\<lambda>bit.
       Return (f\<lparr> health := (if up then health f OR bit else health f AND NOT bit) \<rparr>))"

definition record_success :: "'addr fleet \<Rightarrow> u32 \<Rightarrow> 'addr fleet outcome" where
  "record_success f bid = set_up (f\<lparr> breaker := (breaker f)(bid \<mapsto> 0) \<rparr>) bid True"

definition record_failure :: "'addr fleet \<Rightarrow> u32 \<Rightarrow> 'addr fleet outcome" where
  "record_failure f bid =
     (case checked_add (case breaker f bid of None \<Rightarrow> 0 | Some n \<Rightarrow> n) 1 of
        None \<Rightarrow> Panic
      | Some n \<Rightarrow>
          let f' = f\<lparr> breaker := (breaker f)(bid \<mapsto> n) \<rparr> in
          if breaker_threshold f \<le> n then set_up f' bid False else Return f')"

definition inflight_inc :: "'addr fleet \<Rightarrow> u32 \<Rightarrow> 'addr fleet" where
  "inflight_inc f bid =
     (case inflight f bid of None \<Rightarrow> f | Some c \<Rightarrow> f\<lparr> inflight := (inflight f)(bid \<mapsto> c + 1) \<rparr>)"

definition inflight_dec :: "'addr fleet \<Rightarrow> u32 \<Rightarrow> 'addr fleet" where
  "inflight_dec f bid =
     (case inflight f bid of None \<Rightarrow> f | Some c \<Rightarrow> f\<lparr> inflight := (inflight f)(bid \<mapsto> c - 1) \<rparr>)"

record backend_health =
  bh_id :: u32
  bh_addr :: bytes
  bh_up :: bool
  bh_inflight :: u32
  bh_failures :: u32
  bh_open :: bool

definition backend_snapshot :: "'addr fleet \<Rightarrow> u32 \<times> bytes \<Rightarrow> backend_health outcome" where
  "backend_snapshot f t =
     (let failures = (case breaker f (fst t) of Some n \<Rightarrow> n | None \<Rightarrow> 0) in
      bind_outcome (shift_one (fst t)) (\<lambda>bit.
        Return \<lparr> bh_id = fst t, bh_addr = snd t, bh_up = (health f AND bit \<noteq> 0),
                 bh_inflight = (case inflight f (fst t) of Some c \<Rightarrow> c | None \<Rightarrow> 0),
                 bh_failures = failures, bh_open = (breaker_threshold f \<le> failures) \<rparr>))"

fun collect_outcomes :: "('a \<Rightarrow> 'b outcome) \<Rightarrow> 'a list \<Rightarrow> 'b list outcome" where
  "collect_outcomes g [] = Return []"
| "collect_outcomes g (x # xs) =
     bind_outcome (g x) (\<lambda>y. bind_outcome (collect_outcomes g xs) (\<lambda>ys. Return (y # ys)))"

definition fleet_snapshot :: "'addr fleet \<Rightarrow> backend_health list outcome" where
  "fleet_snapshot f =
     bind_outcome (collect_outcomes (backend_snapshot f) (targets f)) (\<lambda>out. Return (sort_key bh_id out))"

text \<open>One health sweep: resolve, connect, and set the backend's bit by the outcome.\<close>

definition probe_backend ::
  "(bytes \<Rightarrow> 'addr option) \<Rightarrow> ('addr \<Rightarrow> bool) \<Rightarrow> u32 \<times> bytes \<Rightarrow> 'addr fleet \<Rightarrow> 'addr fleet outcome" where
  "probe_backend resolve_target connects t f =
     (let bid = fst t;
          addr = resolve_target (snd t);
          f1 = (if resolved f bid = None then f else f\<lparr> resolved := (resolved f)(bid \<mapsto> addr) \<rparr>);
          up = (case addr of Some a \<Rightarrow> connects a | None \<Rightarrow> False);
          f2 = (if up then f1\<lparr> breaker := (breaker f1)(bid \<mapsto> 0) \<rparr> else f1)
      in set_up f2 bid up)"

fun probe_backends ::
  "(bytes \<Rightarrow> 'addr option) \<Rightarrow> ('addr \<Rightarrow> bool) \<Rightarrow> (u32 \<times> bytes) list \<Rightarrow> 'addr fleet \<Rightarrow> 'addr fleet outcome" where
  "probe_backends resolve_target connects [] f = Return f"
| "probe_backends resolve_target connects (t # ts) f =
     bind_outcome (probe_backend resolve_target connects t f) (probe_backends resolve_target connects ts)"

definition probe_once ::
  "(bytes \<Rightarrow> 'addr option) \<Rightarrow> ('addr \<Rightarrow> bool) \<Rightarrow> 'addr fleet \<Rightarrow> (byte \<times> 'addr fleet) outcome" where
  "probe_once resolve_target connects f =
     bind_outcome (probe_backends resolve_target connects (targets f) f) (\<lambda>f'. Return (fleet_mask f', f'))"

section \<open>The forward under the breaker\<close>

definition bad_gateway :: bytes where
  "bad_gateway = ascii ''HTTP/1.1 502 Bad Gateway'' @ CRLF @ ascii ''Content-Length: 11'' @ CRLF @
     ascii ''Connection: close'' @ CRLF @ CRLF @ ascii ''bad gateway''"

definition gateway_timeout :: bytes where
  "gateway_timeout = ascii ''HTTP/1.1 504 Gateway Timeout'' @ CRLF @ ascii ''Content-Length: 15'' @ CRLF @
     ascii ''Connection: close'' @ CRLF @ CRLF @ ascii ''gateway timeout''"

definition service_unavailable :: bytes where
  "service_unavailable = ascii ''HTTP/1.1 503 Service Unavailable'' @ CRLF @ ascii ''Content-Length: 19'' @ CRLF @
     ascii ''Connection: close'' @ CRLF @ CRLF @ ascii ''no healthy upstream''"

record streamed =
  st_head :: bytes
  st_bytes :: nat
  st_keepalive :: bool
  st_complete :: bool

record stream_outcome =
  so_head :: bytes
  so_bytes :: nat
  so_keepalive :: bool
  so_backend :: "bytes option"

text \<open>Answer with a canned response and close; a failed write drops the connection.\<close>

definition answer :: "client \<Rightarrow> bytes \<Rightarrow> (io_kind + stream_outcome) \<times> client" where
  "answer c resp =
     (let (ok, c') = write_all c resp in
      (if ok then Inr \<lparr> so_head = resp, so_bytes = length resp, so_keepalive = False, so_backend = None \<rparr>
       else Inl OtherError, c'))"

definition handle_streaming_via ::
  "(bytes \<Rightarrow> 'addr option) \<Rightarrow> ('addr \<Rightarrow> bytes) \<Rightarrow> (byte \<Rightarrow> bytes \<Rightarrow> u32 option)
     \<Rightarrow> ('addr \<Rightarrow> bytes \<Rightarrow> nat \<Rightarrow> client \<Rightarrow> (io_kind + streamed) \<times> client)
     \<Rightarrow> bytes \<Rightarrow> 'addr fleet \<Rightarrow> client
     \<Rightarrow> ((io_kind + stream_outcome) \<times> client \<times> 'addr fleet) outcome" where
  "handle_streaming_via resolve_target addr_str pick forward_via req f c =
     (case pick (fleet_mask f) (sticky_key req) of
        None \<Rightarrow> (let (out, c') = answer c service_unavailable in Return (out, c', f))
      | Some bid \<Rightarrow>
          (case fleet_addr resolve_target f bid of
             (None, f1) \<Rightarrow> (let (out, c') = answer c bad_gateway in Return (out, c', f1))
           | (Some addr, f1) \<Rightarrow>
               let f2 = inflight_inc f1 bid;
                   (out, c1) = forward_via addr req (dial_timeout f2) c;
                   f3 = inflight_dec f2 bid
               in case out of
                    Inr s \<Rightarrow>
                      bind_outcome (if st_complete s then record_success f3 bid else record_failure f3 bid) (\<lambda>f4.
                        Return (Inr \<lparr> so_head = st_head s, so_bytes = st_bytes s,
                                      so_keepalive = st_keepalive s, so_backend = Some (addr_str addr) \<rparr>, c1, f4))
                  | Inl e \<Rightarrow>
                      bind_outcome (record_failure f3 bid) (\<lambda>f4.
                        let (res, c2) = answer c1 (if e = TimedOut \<or> e = WouldBlock then gateway_timeout else bad_gateway)
                        in Return (res, c2, f4))))"

section \<open>The circuit breaker\<close>

definition backend_up :: "'addr fleet \<Rightarrow> u32 \<Rightarrow> bool" where
  "backend_up f bid \<longleftrightarrow> bit (health f) (unat bid)"

fun failures :: "nat \<Rightarrow> 'addr fleet \<Rightarrow> u32 \<Rightarrow> 'addr fleet outcome" where
  "failures 0 f bid = Return f"
| "failures (Suc k) f bid = bind_outcome (failures k f bid) (\<lambda>f'. record_failure f' bid)"

lemma set_up_facts:
  assumes "bid < 32"
  shows "\<exists>h. set_up f bid b = Return (f\<lparr> health := h \<rparr>) \<and>
             (\<forall>j < 32. bit h (unat j) \<longleftrightarrow> (if j = bid then b else bit (health f) (unat j)))"
proof -
  let ?h = "if b then health f OR push_bit (unat bid) 1 else health f AND NOT (push_bit (unat bid) 1)"
  have "bit ?h (unat j) \<longleftrightarrow> (if j = bid then b else bit (health f) (unat j))" if "j < 32" for j
    using that assms by (auto simp: bit_simps word_less_nat_alt bit_1_iff word_unat_eq_iff)
  then show ?thesis
    using assms by (intro exI [of _ ?h]) (auto simp: set_up_def shift_one_def)
qed

lemma record_success_facts:
  assumes "bid < 32"
  shows "\<exists>h. record_success f bid = Return (f\<lparr> breaker := (breaker f)(bid \<mapsto> 0), health := h \<rparr>) \<and>
             (\<forall>j < 32. bit h (unat j) \<longleftrightarrow> j = bid \<or> bit (health f) (unat j))"
proof -
  obtain h where "set_up (f\<lparr> breaker := (breaker f)(bid \<mapsto> 0) \<rparr>) bid True
        = Return (f\<lparr> breaker := (breaker f)(bid \<mapsto> 0), health := h \<rparr>)"
      "\<forall>j < 32. bit h (unat j) \<longleftrightarrow> (if j = bid then True else bit (health f) (unat j))"
    using set_up_facts [OF assms, of "f\<lparr> breaker := (breaker f)(bid \<mapsto> 0) \<rparr>" True] by auto
  then show ?thesis
    by (intro exI [of _ h]) (auto simp: record_success_def)
qed

definition breaker_count :: "'addr fleet \<Rightarrow> u32 \<Rightarrow> u32" where
  "breaker_count f bid = (case breaker f bid of None \<Rightarrow> 0 | Some n \<Rightarrow> n)"

lemma record_failure_facts:
  assumes "bid < 32" "checked_add (breaker_count f bid) 1 = Some n"
  shows "\<exists>h. record_failure f bid = Return (f\<lparr> breaker := (breaker f)(bid \<mapsto> n), health := h \<rparr>) \<and>
             (\<forall>j < 32. bit h (unat j) \<longleftrightarrow>
                (if j = bid \<and> breaker_threshold f \<le> n then False else bit (health f) (unat j)))"
proof (cases "breaker_threshold f \<le> n")
  case True
  obtain h where h: "set_up (f\<lparr> breaker := (breaker f)(bid \<mapsto> n) \<rparr>) bid False
        = Return (f\<lparr> breaker := (breaker f)(bid \<mapsto> n), health := h \<rparr>)"
      "\<forall>j < 32. bit h (unat j) \<longleftrightarrow> (if j = bid then False else bit (health f) (unat j))"
    using set_up_facts [OF assms(1), of "f\<lparr> breaker := (breaker f)(bid \<mapsto> n) \<rparr>" False] by auto
  have "record_failure f bid = Return (f\<lparr> breaker := (breaker f)(bid \<mapsto> n), health := h \<rparr>)"
    using True assms(2) h(1) by (simp add: record_failure_def breaker_count_def)
  then show ?thesis
    using True h(2) by (intro exI [of _ h] conjI) simp_all
next
  case False
  then show ?thesis
    using assms by (intro exI [of _ "health f"]) (simp add: record_failure_def breaker_count_def)
qed

lemma checked_add_1:
  fixes m :: u32
  assumes "unat m + 1 < 2 ^ 32"
  shows "checked_add m 1 = Some (m + 1)"
  using assms by (simp add: checked_add_def)

lemma failures_facts:
  assumes "bid < 32" "breaker f bid = Some 0" "backend_up f bid" "0 < breaker_threshold f" "k < 2 ^ 32"
  shows "\<exists>f'. failures k f bid = Return f' \<and> breaker_count f' bid = of_nat k \<and>
              breaker_threshold f' = breaker_threshold f \<and>
              (backend_up f' bid \<longleftrightarrow> k < unat (breaker_threshold f)) \<and> (\<forall>j < 32. j \<noteq> bid \<longrightarrow> backend_up f' j = backend_up f j)"
  using assms(5)
proof (induction k)
  case 0
  then show ?case
    using assms by (simp add: breaker_count_def word_less_nat_alt)
next
  case (Suc k)
  then obtain f' where f': "failures k f bid = Return f'" "breaker_count f' bid = of_nat k"
      "breaker_threshold f' = breaker_threshold f" "backend_up f' bid \<longleftrightarrow> k < unat (breaker_threshold f)"
      "\<forall>j < 32. j \<noteq> bid \<longrightarrow> backend_up f' j = backend_up f j"
    by auto
  have k: "unat (of_nat k :: u32) = k" "unat (of_nat (Suc k) :: u32) = Suc k"
    using Suc.prems by (simp_all only: unat_of_nat) simp_all
  have n: "checked_add (breaker_count f' bid) 1 = Some (of_nat (Suc k))"
    using checked_add_1 [of "of_nat k"] Suc.prems k f'(2) by (simp add: add.commute)
  obtain h where h: "record_failure f' bid = Return (f'\<lparr> breaker := (breaker f')(bid \<mapsto> of_nat (Suc k)), health := h \<rparr>)"
      "\<forall>j < 32. bit h (unat j) \<longleftrightarrow>
         (if j = bid \<and> breaker_threshold f' \<le> of_nat (Suc k) then False else bit (health f') (unat j))"
    using record_failure_facts [OF assms(1) n] by blast
  have "breaker_threshold f \<le> of_nat (Suc k) \<longleftrightarrow> unat (breaker_threshold f) \<le> Suc k"
    by (simp only: word_le_nat_alt k)
  then have "bit h (unat bid) \<longleftrightarrow> Suc k < unat (breaker_threshold f)"
    using h(2) assms(1) f'(3,4) by (auto simp: backend_up_def)
  then show ?case
    using f' h by (auto simp: breaker_count_def backend_up_def)
qed

text \<open>
  The circuit breaker opens exactly at its threshold: after a successful forward, \<open>k\<close> failures in a
  row leave the backend eligible precisely while \<open>k\<close> is below the threshold, no failure of one backend
  changes the eligibility of another, and the next success makes the backend eligible again.
\<close>

theorem breaker_opens_at_threshold:
  assumes "bid < 32" "record_success f bid = Return f0" "0 < breaker_threshold f" "k < 2 ^ 32"
  shows "\<exists>f' f''. failures k f0 bid = Return f' \<and> (backend_up f' bid \<longleftrightarrow> k < unat (breaker_threshold f)) \<and>
           (\<forall>j < 32. j \<noteq> bid \<longrightarrow> backend_up f' j = backend_up f j) \<and>
           record_success f' bid = Return f'' \<and> backend_up f'' bid"
proof -
  obtain h where h: "record_success f bid = Return (f\<lparr> breaker := (breaker f)(bid \<mapsto> 0), health := h \<rparr>)"
      "\<forall>j < 32. bit h (unat j) \<longleftrightarrow> j = bid \<or> bit (health f) (unat j)"
    using record_success_facts [OF assms(1)] by blast
  then have f0: "f0 = f\<lparr> breaker := (breaker f)(bid \<mapsto> 0), health := h \<rparr>"
    using assms(2) by simp
  then have up0: "backend_up f0 bid" "\<forall>j < 32. j \<noteq> bid \<longrightarrow> backend_up f0 j = backend_up f j"
    using h(2) assms(1) by (auto simp: backend_up_def)
  obtain f' where f': "failures k f0 bid = Return f'" "backend_up f' bid \<longleftrightarrow> k < unat (breaker_threshold f)"
      "\<forall>j < 32. j \<noteq> bid \<longrightarrow> backend_up f' j = backend_up f0 j"
    using failures_facts [OF assms(1) _ up0(1) _ assms(4)] assms(3) f0 by auto
  obtain h' where "record_success f' bid = Return (f'\<lparr> breaker := (breaker f')(bid \<mapsto> 0), health := h' \<rparr>)"
      "\<forall>j < 32. bit h' (unat j) \<longleftrightarrow> j = bid \<or> bit (health f') (unat j)"
    using record_success_facts [OF assms(1)] by blast
  then show ?thesis
    using f' up0 assms(1) by (auto simp: backend_up_def)
qed

definition sample_fleet :: "nat fleet" where
  "sample_fleet = \<lparr> targets = [(0, ascii ''a:1''), (1, ascii ''b:2'')], resolved = (\<lambda>_. None), health = 3,
     breaker = (\<lambda>_. None), inflight = (\<lambda>i. if i < 2 then Some 0 else None), breaker_threshold = 3,
     dial_timeout = 500, fl_round = 0 \<rparr>"

theorem breaker_opens_at_threshold_witness:
  "\<exists>f' f''. failures 3 (sample_fleet\<lparr> breaker := [1 \<mapsto> 0] \<rparr>) 1 = Return f' \<and> \<not> backend_up f' 1 \<and> backend_up f' 0 \<and>
           record_success f' 1 = Return f'' \<and> backend_up f'' 1"
proof -
  let ?f0 = "sample_fleet\<lparr> breaker := [1 \<mapsto> 0] \<rparr>"
  have f0: "record_success sample_fleet 1 = Return ?f0"
    by (simp add: record_success_def set_up_def shift_one_def sample_fleet_def)
  have thr: "breaker_threshold sample_fleet = 3" and up0: "backend_up sample_fleet 0"
    by (simp_all add: sample_fleet_def backend_up_def)
  obtain f' f'' where f': "failures 3 ?f0 1 = Return f'" "backend_up f' 1 \<longleftrightarrow> (3::nat) < unat (3::u32)"
      "\<forall>j < 32. j \<noteq> 1 \<longrightarrow> backend_up f' j = backend_up sample_fleet j" "record_success f' 1 = Return f''" "backend_up f'' 1"
    using breaker_opens_at_threshold [OF _ f0, of 3] thr by auto
  have "backend_up f' 0"
    using f'(3) [rule_format, of 0] up0 by simp
  then show ?thesis
    using f' by (intro exI [of _ f'] exI [of _ f'']) simp
qed

section \<open>A forward accounts for itself\<close>

lemma inflight_inc_dec:
  "inflight (inflight_dec (inflight_inc f bid) bid) = inflight f"
  "targets (inflight_dec (inflight_inc f bid) bid) = targets f"
  "breaker (inflight_dec (inflight_inc f bid) bid) = breaker f"
  "health (inflight_dec (inflight_inc f bid) bid) = health f"
  by (auto simp: inflight_dec_def inflight_inc_def split: option.split)

lemma fleet_addr_frame:
  "inflight (snd (fleet_addr resolve_target f bid)) = inflight f"
  "targets (snd (fleet_addr resolve_target f bid)) = targets f"
  "breaker (snd (fleet_addr resolve_target f bid)) = breaker f"
  by (simp_all add: fleet_addr_def split: option.split)

text \<open>
  C18: One proxied request, on every path: the hop neither panics nor changes any backend's in-flight
  count, the targets or the breaker of any backend but the picked one; without an eligible backend
  the client is answered 503 and nothing is dialled; an unresolvable backend is answered 502; a
  completed forward clears the picked backend's failure count and every other outcome adds one failure.
\<close>

theorem handle_streaming_accounts:
  assumes "\<forall>bid. pick (fleet_mask f) (sticky_key req) = Some bid \<longrightarrow> bid < 32 \<and> unat (breaker_count f bid) + 1 < 2 ^ 32"
  shows "\<exists>res c' f'. handle_streaming_via resolve_target addr_str pick forward_via req f c = Return (res, c', f') \<and>
           inflight f' = inflight f \<and> targets f' = targets f \<and>
           (case pick (fleet_mask f) (sticky_key req) of
              None \<Rightarrow> f' = f \<and> (res, c') = answer c service_unavailable
            | Some bid \<Rightarrow>
                (\<forall>j. j \<noteq> bid \<longrightarrow> breaker f' j = breaker f j) \<and>
                (case fst (fleet_addr resolve_target f bid) of
                   None \<Rightarrow> breaker f' = breaker f \<and> (res, c') = answer c bad_gateway
                 | Some addr \<Rightarrow>
                     breaker_count f' bid =
                       (case fst (forward_via addr req (dial_timeout (snd (fleet_addr resolve_target f bid))) c) of
                          Inr s \<Rightarrow> if st_complete s then 0 else breaker_count f bid + 1
                        | Inl _ \<Rightarrow> breaker_count f bid + 1)))"
proof (cases "pick (fleet_mask f) (sticky_key req)")
  case None
  then show ?thesis
    by (auto simp: handle_streaming_via_def case_prod_beta Let_def)
next
  case (Some bid)
  obtain a f1 where addr: "fleet_addr resolve_target f bid = (a, f1)"
    by fastforce
  note f1 = fleet_addr_frame [of resolve_target f bid, unfolded addr snd_conv]
  show ?thesis
  proof (cases a)
    case None
    then show ?thesis
      using Some addr f1 by (auto simp: handle_streaming_via_def case_prod_beta Let_def)
  next
    case addr1: (Some ad)
    obtain out c1 where fwd: "forward_via ad req (dial_timeout f1) c = (out, c1)"
      by fastforce
    let ?f3 = "inflight_dec (inflight_inc f1 bid) bid"
    have timeout: "dial_timeout (inflight_inc f1 bid) = dial_timeout f1"
      by (auto simp: inflight_inc_def split: option.split)
    have bid: "bid < 32" "checked_add (breaker_count ?f3 bid) 1 = Some (breaker_count f bid + 1)"
      using assms Some checked_add_1 [of "breaker_count f bid"] f1 by (auto simp: breaker_count_def inflight_inc_dec)
    obtain h where ok: "record_success ?f3 bid = Return (?f3\<lparr> breaker := (breaker ?f3)(bid \<mapsto> 0), health := h \<rparr>)"
      using record_success_facts [OF bid(1)] by blast
    obtain h' where fail: "record_failure ?f3 bid
        = Return (?f3\<lparr> breaker := (breaker ?f3)(bid \<mapsto> breaker_count f bid + 1), health := h' \<rparr>)"
      using record_failure_facts [OF bid] by blast
    show ?thesis
      using Some addr addr1 fwd timeout ok fail f1
      by (cases out) (auto simp: handle_streaming_via_def case_prod_beta Let_def inflight_inc_dec breaker_count_def)
  qed
qed

theorem handle_streaming_accounts_witness:
  "\<exists>res c' f'. handle_streaming_via (\<lambda>_. Some 7) (\<lambda>_. []) (\<lambda>_ _. Some 0) (\<lambda>_ _ _ c. (Inl TimedOut, c)) [] sample_fleet
       \<lparr> sent = [], faults = [] \<rparr> = Return (res, c', f') \<and>
     inflight f' = inflight sample_fleet \<and> targets f' = targets sample_fleet \<and> breaker_count f' 0 = 1"
proof -
  have addr: "fst (fleet_addr (\<lambda>_. Some 7) sample_fleet 0) = Some 7"
    and count: "breaker_count sample_fleet 0 = 0"
    by (simp_all add: fleet_addr_def sample_fleet_def breaker_count_def)
  show ?thesis
    using handle_streaming_accounts [of "\<lambda>_ _. Some 0" sample_fleet "[]" "\<lambda>_. Some 7" "\<lambda>_. []"
        "\<lambda>_ _ _ c. (Inl TimedOut, c)" "\<lparr> sent = [], faults = [] \<rparr>"] addr count
    by auto
qed

text \<open>
  A backend id is not checked against the width of the health mask: an id of 32 or more in the
  fleet specification overflows the shift that sets its bit, and a backend with an id from 8 to 31 is
  registered and probed but can never show in the mask byte handed to the selector.
\<close>

theorem fleet_ids_overrun_mask:
  "fleet_parse resolve_target (ascii ''32=a:1'') threshold timeout = Panic \<and>
   (\<exists>f. fleet_parse resolve_target (ascii ''8=a:1'') threshold timeout = Return (Some f) \<and> backend_up f 8 \<and> fleet_mask f = 0)"
  by (simp add: fleet_parse_def split_once_def str_trim_def utf8_chars.simps trim_by_def trim_start_by_def
      trim_end_by_def is_unicode_whitespace_def parse_uint_def is_ascii_digit_def shift_one_def backend_up_def
      fleet_mask_def Let_def)

end
