(* ===== verification/Stream_Framer.thy ===== *)
theory Stream_Framer
  imports Prelude
begin

text \<open>
  The contract of an incremental recogniser: it is fed a byte stream in blocks of any size and
  reports when the message it looks for has ended. Where the blocks are cut does not matter.
\<close>

text \<open>Feed blocks one after the other until the end is reported.\<close>

fun feed_blocks :: "('s \<Rightarrow> 'a list \<Rightarrow> bool \<times> 's) \<Rightarrow> 's \<Rightarrow> 'a list list \<Rightarrow> bool \<times> 's" where
  "feed_blocks feed s [] = (False, s)"
| "feed_blocks feed s (b # bs) = (case feed s b of (True, s') \<Rightarrow> (True, s') | (False, s') \<Rightarrow> feed_blocks feed s' bs)"

locale stream_framer =
  fixes feed :: "'s \<Rightarrow> 'a list \<Rightarrow> bool \<times> 's"
  assumes feed_append:
    "feed s (xs @ ys) = (case feed s xs of (True, s') \<Rightarrow> (True, s') | (False, s') \<Rightarrow> feed s' ys)"
begin

lemma feed_blocks_concat:
  assumes "fst (feed s []) = False"
  shows "fst (feed_blocks feed s bs) = fst (feed s (concat bs)) \<and>
         (feed_blocks feed s bs = feed s (concat bs) \<or> bs = [])"
  using assms
proof (induction bs arbitrary: s)
  case (Cons b bs)
  obtain d s' where d: "feed s b = (d, s')"
    by (cases "feed s b")
  show ?case
  proof (cases d)
    case False
    have "feed s b = (case feed s b of (True, s') \<Rightarrow> (True, s') | (False, s') \<Rightarrow> feed s' [])"
      using feed_append [of s b "[]"] by simp
    then have s': "feed s' [] = (False, s')"
      using d False by simp
    then show ?thesis
      using Cons.IH [of s'] d False by (cases bs) (auto simp: feed_append)
  qed (simp add: d feed_append)
qed simp

text \<open>The end is reported at one place of the stream: on no shorter prefix, and on every longer one.\<close>

lemma not_done_prefix:
  assumes "fst (feed s (xs @ ys)) = False"
  shows "fst (feed s xs) = False"
  using assms by (auto simp: feed_append split: prod.splits bool.splits)

lemma done_extends:
  assumes "feed s xs = (True, s')"
  shows "feed s (xs @ ys) = (True, s')"
  using assms by (simp add: feed_append)

end

end
