(* ===== verification/Chunked.thy ===== *)
theory Chunked
  imports Stream_Framer Bytes
begin

text \<open>
  The incremental chunked-transfer recogniser of \<^verbatim>\<open>proxy_dial.rs\<close> (\<open>ChunkedParser\<close>), which the
  streaming proxy runs over the blocks it relays to find the end of the body. Sizes are 64-bit words;
  their arithmetic wraps, as it does in the release build.
\<close>

section \<open>The recogniser\<close>

datatype chunk_st =
    Size | SizeExt | SizeCr | Data u64 | DataCr | DataLf
  | TrailerStart | TrailerLine | TrailerLineCr | TrailerFinalCr | Done

record chunked_parser =
  st :: chunk_st
  psize :: u64

definition chunked_new :: chunked_parser where
  "chunked_new = \<lparr> st = Size, psize = 0 \<rparr>"

text \<open>One byte of the size line.\<close>

definition size_byte :: "chunked_parser \<Rightarrow> byte \<Rightarrow> chunked_parser" where
  "size_byte p b =
     (if 48 \<le> b \<and> b \<le> 57 then p\<lparr> psize := psize p * 16 + ucast (b - 48) \<rparr>
      else if 97 \<le> b \<and> b \<le> 102 then p\<lparr> psize := psize p * 16 + ucast (b - 97 + 10) \<rparr>
      else if 65 \<le> b \<and> b \<le> 70 then p\<lparr> psize := psize p * 16 + ucast (b - 65 + 10) \<rparr>
      else if b = CR then p\<lparr> st := SizeCr \<rparr>
      else if b = 59 then p\<lparr> st := SizeExt \<rparr>
      else p)"

fun rank :: "chunk_st \<Rightarrow> nat" where
  "rank (Data n) = (if n = 0 then 1 else 0)"
| "rank TrailerStart = 1"
| "rank _ = 0"

function advance :: "chunked_parser \<Rightarrow> bytes \<Rightarrow> bool \<times> chunked_parser" where
  "advance p [] = (st p = Done, p)"
| "advance p (b # rest) =
     (case st p of
        Size \<Rightarrow> advance (size_byte p b) rest
      | SizeExt \<Rightarrow> advance (if b = CR then p\<lparr> st := SizeCr \<rparr> else p) rest
      | SizeCr \<Rightarrow> advance (p\<lparr> st := (if psize p = 0 then TrailerStart else Data (psize p)) \<rparr>) rest
      | Data n \<Rightarrow>
          (let take = min (unat n) (length (b # rest));
               left = n - of_nat take
           in advance (p\<lparr> st := (if left = 0 then DataCr else Data left) \<rparr>) (drop take (b # rest)))
      | DataCr \<Rightarrow> advance (p\<lparr> st := DataLf \<rparr>) rest
      | DataLf \<Rightarrow> advance (p\<lparr> psize := 0, st := Size \<rparr>) rest
      | TrailerStart \<Rightarrow>
          if b = CR then advance (p\<lparr> st := TrailerFinalCr \<rparr>) rest
          else advance (p\<lparr> st := TrailerLine \<rparr>) (b # rest)
      | TrailerLine \<Rightarrow> advance (if b = CR then p\<lparr> st := TrailerLineCr \<rparr> else p) rest
      | TrailerLineCr \<Rightarrow> advance (p\<lparr> st := TrailerStart \<rparr>) rest
      | TrailerFinalCr \<Rightarrow> (True, p\<lparr> st := Done \<rparr>)
      | Done \<Rightarrow> (True, p))"
  by pat_completeness auto
termination
proof (relation "measures [\<lambda>(p, data). length data, \<lambda>(p, data). rank (st p)]", goal_cases)
  case (5 p b rest n take left)
  show ?case
  proof (cases "n = 0")
    case False
    then have "0 < unat n"
      by (simp add: unat_gt_0)
    then show ?thesis
      using 5 by simp
  qed (use 5 in simp)
qed simp_all

declare advance.simps(2) [simp del]

section \<open>Cutting the stream\<close>

lemma advance_Done [simp]: "st p = Done \<Longrightarrow> advance p xs = (True, p)"
  by (cases xs) (simp_all add: advance.simps)

text \<open>Chunk data is consumed in one go, up to its end or the end of the block.\<close>

lemma advance_data:
  assumes "st p = Data n" "xs \<noteq> []"
  shows "advance p xs =
           (if unat n \<le> length xs then advance (p\<lparr> st := DataCr \<rparr>) (drop (unat n) xs)
            else (False, p\<lparr> st := Data (n - of_nat (length xs)) \<rparr>))"
proof -
  obtain b rest where xs: "xs = b # rest"
    using assms(2) by (cases xs) auto
  show ?thesis
  proof (cases "unat n \<le> length xs")
    case True
    then show ?thesis
      using assms xs by (simp add: advance.simps Let_def min_def)
  next
    case False
    then have "n - of_nat (length xs) \<noteq> 0"
      by (metis eq_iff_diff_eq_0 unat_of_nat mod_le_divisor unsigned_less mod_less_eq_dividend)
    then show ?thesis
      using False assms xs by (simp add: advance.simps Let_def min_def)
  qed
qed

lemma unat_minus_of_nat: "m < unat n \<Longrightarrow> unat ((n :: u64) - of_nat m) = unat n - m"
  using unsigned_less [of n, where ?'a = nat]
  by (subst unat_sub) (simp_all add: word_le_nat_alt unat_of_nat)

lemma advance_append:
  "advance p (xs @ ys) = (case advance p xs of (True, p') \<Rightarrow> (True, p') | (False, p') \<Rightarrow> advance p' ys)"
proof (induction p xs rule: advance.induct)
  case (1 p)
  then show ?case by (cases "st p = Done") auto
next
  case (2 p b rest)
  show ?case
  proof (cases "st p")
    case (Data n)
    show ?thesis
    proof (cases "unat n \<le> length (b # rest)")
      case True
      then have "advance (p\<lparr> st := DataCr \<rparr>) (drop (unat n) (b # rest) @ ys) =
          (case advance (p\<lparr> st := DataCr \<rparr>) (drop (unat n) (b # rest)) of
             (True, p') \<Rightarrow> (True, p') | (False, p') \<Rightarrow> advance p' ys)"
        using "2.IH"(4) [OF Data refl refl] by (simp add: min_def)
      moreover have "drop (unat n) (b # rest @ ys) = drop (unat n) (b # rest) @ ys"
        using True drop_append [of "unat n" "b # rest" ys] by simp
      ultimately show ?thesis
        using True by (simp add: advance_data [OF Data])
    next
      case False
      define zs where "zs = b # rest"
      let ?p = "p\<lparr> st := Data (n - of_nat (length zs)) \<rparr>"
      have lt: "length zs < unat n" and ne: "zs \<noteq> []"
        using False by (simp_all add: zs_def)
      have m: "unat (n - of_nat (length zs)) = unat n - length zs"
        using lt by (rule unat_minus_of_nat)
      have first: "advance p zs = (False, ?p)"
        using lt by (simp add: advance_data [OF Data ne])
      have "advance p (zs @ ys) = advance ?p ys"
      proof (cases "ys = []")
        case False
        then show ?thesis
          using lt ne m by (simp add: advance_data [OF Data] advance_data [of ?p "n - of_nat (length zs)" ys]
              less_imp_le diff_diff_eq le_diff_conv add.commute)
      qed (simp add: first)
      then show ?thesis
        using first unfolding zs_def by simp
    qed
  qed (use "2.IH" in \<open>simp_all add: advance.simps(2)\<close>)
qed

interpretation chunked: stream_framer advance
  by unfold_locales (rule advance_append)

section \<open>Chunked bodies\<close>

definition is_hex :: "byte \<Rightarrow> bool" where
  "is_hex b \<longleftrightarrow> 48 \<le> b \<and> b \<le> 57 \<or> 97 \<le> b \<and> b \<le> 102 \<or> 65 \<le> b \<and> b \<le> 70"

definition hex_digit :: "byte \<Rightarrow> nat" where
  "hex_digit b = (if b \<le> 57 then unat b - 48 else if b \<le> 70 then unat b - 55 else unat b - 87)"

definition hex_fold :: "nat \<Rightarrow> bytes \<Rightarrow> nat" where
  "hex_fold = foldl (\<lambda>a b. 16 * a + hex_digit b)"

text \<open>
  A chunk as RFC 9112 writes it: the size in hexadecimal, an optional extension, the data; and the
  whole body: the chunks, the zero-size line, trailer lines, the empty line.
\<close>

record chunk =
  c_size :: bytes
  c_ext :: bytes
  c_data :: bytes

definition chunk_line :: "chunk \<Rightarrow> bytes" where
  "chunk_line c = c_size c @ c_ext c @ CRLF"

definition chunk_wire :: "chunk \<Rightarrow> bytes" where
  "chunk_wire c = chunk_line c @ c_data c @ CRLF"

definition size_line_ok :: "chunk \<Rightarrow> bool" where
  "size_line_ok c \<longleftrightarrow>
     (\<forall>b \<in> set (c_size c). is_hex b) \<and> hex_fold 0 (c_size c) = length (c_data c) \<and>
     length (c_data c) < 2 ^ 64 \<and>
     (c_ext c = [] \<or> (\<exists>e. c_ext c = 59 # e \<and> CR \<notin> set e))"

definition trailer_ok :: "bytes \<Rightarrow> bool" where
  "trailer_ok t \<longleftrightarrow> t \<noteq> [] \<and> CR \<notin> set t"

definition body_wire :: "chunk list \<Rightarrow> chunk \<Rightarrow> bytes list \<Rightarrow> bytes" where
  "body_wire cs zero trailers =
     concat (map chunk_wire cs) @ chunk_line zero @ concat (map (\<lambda>t. t @ CRLF) trailers) @ CRLF"

definition body_ok :: "chunk list \<Rightarrow> chunk \<Rightarrow> bytes list \<Rightarrow> bool" where
  "body_ok cs zero trailers \<longleftrightarrow>
     (\<forall>c \<in> set cs. size_line_ok c \<and> c_data c \<noteq> []) \<and>
     size_line_ok zero \<and> c_data zero = [] \<and> (\<forall>t \<in> set trailers. trailer_ok t)"

lemma hex_fold_simps [simp]: "hex_fold a [] = a" "hex_fold a (b # bs) = hex_fold (16 * a + hex_digit b) bs"
  by (simp_all add: hex_fold_def)

lemma hex_fold_mono: "a \<le> hex_fold a bs"
proof (induction bs arbitrary: a)
  case (Cons b bs)
  show ?case
    using Cons.IH [of "16 * a + hex_digit b"] by simp
qed simp

lemma size_byte_hex:
  assumes "is_hex b"
  shows "size_byte p b = p\<lparr> psize := psize p * 16 + of_nat (hex_digit b) \<rparr>"
proof -
  have of_nat: "(ucast x :: u64) = of_nat (unat x)" for x :: byte
    by simp
  have le: "unat b < 256"
    using unsigned_less [of b, where ?'a = nat] by simp
  have "unat (b - 48) = unat b - 48" if "48 \<le> b"
    using that by (simp add: unat_sub)
  moreover have "unat (b - 97 + 10) = unat b - 87" if "97 \<le> b"
  proof -
    have "b - 97 + 10 = b - 87" by simp
    moreover have "(87 :: byte) \<le> b"
      using that by (auto intro: order_trans [rotated])
    ultimately show ?thesis by (simp add: unat_sub)
  qed
  moreover have "unat (b - 65 + 10) = unat b - 55" if "65 \<le> b"
  proof -
    have "b - 65 + 10 = b - 55" by simp
    moreover have "(55 :: byte) \<le> b"
      using that by (auto intro: order_trans [rotated])
    ultimately show ?thesis by (simp add: unat_sub)
  qed
  ultimately show ?thesis
    using assms by (auto simp: size_byte_def is_hex_def hex_digit_def of_nat word_le_nat_alt simp del: of_nat_unat)
qed

lemma advance_hex:
  assumes "\<forall>b \<in> set h. is_hex b" "st p = Size" "hex_fold (unat (psize p)) h < 2 ^ 64"
  shows "advance p (h @ rest) = advance (p\<lparr> psize := of_nat (hex_fold (unat (psize p)) h) \<rparr>) rest"
  using assms
proof (induction h arbitrary: p)
  case (Cons b h)
  let ?p = "p\<lparr> psize := psize p * 16 + of_nat (hex_digit b) \<rparr>"
  have lt: "16 * unat (psize p) + hex_digit b < 2 ^ 64"
    using Cons.prems(3) hex_fold_mono [of "16 * unat (psize p) + hex_digit b" h] by simp
  have acc: "psize p * 16 + of_nat (hex_digit b) = of_nat (16 * unat (psize p) + hex_digit b)"
    by simp
  have "unat (psize ?p) = unat (psize p * 16 + of_nat (hex_digit b))"
    by simp
  also have "\<dots> = unat (of_nat (16 * unat (psize p) + hex_digit b) :: u64)"
    by (simp only: acc)
  also have "\<dots> = (16 * unat (psize p) + hex_digit b) mod 2 ^ 64"
    by (simp only: unat_of_nat) simp
  finally have size: "unat (psize ?p) = 16 * unat (psize p) + hex_digit b"
    using lt by simp
  have "advance p ((b # h) @ rest) = advance ?p (h @ rest)"
    using Cons.prems(1,2) size_byte_hex [of b p] by (simp add: advance.simps(2))
  then show ?case
    using Cons.IH [of ?p] Cons.prems size by simp
qed simp

lemma advance_ext:
  assumes "CR \<notin> set e" "st p = SizeExt"
  shows "advance p (e @ CR # rest) = advance (p\<lparr> st := SizeCr \<rparr>) rest"
  using assms by (induction e) (auto simp: advance.simps(2))

lemma advance_trailer_line:
  assumes "CR \<notin> set t" "st p = TrailerLine"
  shows "advance p (t @ CR # rest) = advance (p\<lparr> st := TrailerLineCr \<rparr>) rest"
  using assms by (induction t) (auto simp: advance.simps(2))

text \<open>A size line brings the recogniser to the place its value says.\<close>

lemma advance_size_line:
  assumes "size_line_ok c" "st p = Size" "psize p = 0"
  shows "advance p (chunk_line c @ rest) =
           advance (p\<lparr> psize := of_nat (length (c_data c)),
                      st := (if c_data c = [] then TrailerStart else Data (of_nat (length (c_data c)))) \<rparr>) rest"
proof -
  let ?n = "length (c_data c)" and ?p = "p\<lparr> psize := of_nat (length (c_data c)) \<rparr>"
  have n: "(of_nat ?n :: u64) = 0 \<longleftrightarrow> c_data c = []"
    using assms(1) by (simp add: size_line_ok_def word_unat_eq_iff unat_of_nat)
  have "advance p (chunk_line c @ rest) = advance ?p (c_ext c @ CR # LF # rest)"
    using assms by (simp add: chunk_line_def advance_hex size_line_ok_def)
  also have "\<dots> = advance (?p\<lparr> st := SizeCr \<rparr>) (LF # rest)"
    using assms by (auto simp: size_line_ok_def advance.simps(2) size_byte_def advance_ext)
  also have "\<dots> = advance (?p\<lparr> st := (if c_data c = [] then TrailerStart else Data (of_nat ?n)) \<rparr>) rest"
    using n by (simp add: advance.simps(2))
  finally show ?thesis
    by simp
qed

lemma advance_chunk:
  assumes "size_line_ok c" "c_data c \<noteq> []" "st p = Size" "psize p = 0"
  shows "advance p (chunk_wire c @ rest) = advance p rest"
proof -
  let ?n = "length (c_data c)"
  have n: "unat (of_nat ?n :: u64) = ?n"
    using assms(1) by (simp only: unat_of_nat) (simp add: size_line_ok_def)
  have "advance (p\<lparr> psize := of_nat ?n, st := Data (of_nat ?n) \<rparr>) (c_data c @ CRLF @ rest)
      = advance (p\<lparr> psize := of_nat ?n, st := DataCr \<rparr>) (CRLF @ rest)"
    by (subst advance_data [where n = "of_nat ?n"]) (simp_all only: n, simp_all)
  also have "\<dots> = advance (p\<lparr> psize := 0, st := Size \<rparr>) rest"
    by (simp add: advance.simps(2))
  also have "p\<lparr> psize := 0, st := Size \<rparr> = p"
    using assms by (cases p) simp
  finally show ?thesis
    using advance_size_line [OF assms(1,3,4), of "c_data c @ CRLF @ rest"] assms(2)
    by (simp add: chunk_wire_def)
qed

lemma advance_chunks:
  assumes "\<forall>c \<in> set cs. size_line_ok c \<and> c_data c \<noteq> []" "st p = Size" "psize p = 0"
  shows "advance p (concat (map chunk_wire cs) @ rest) = advance p rest"
  using assms by (induction cs) (simp_all add: advance_chunk)

lemma advance_trailers:
  assumes "\<forall>t \<in> set ts. trailer_ok t" "st p = TrailerStart"
  shows "advance p (concat (map (\<lambda>t. t @ CRLF) ts) @ rest) = advance p rest"
  using assms
proof (induction ts)
  case (Cons t ts)
  obtain b t' where t: "t = b # t'" "b \<noteq> CR"
    using Cons.prems by (cases t) (auto simp: trailer_ok_def)
  let ?more = "concat (map (\<lambda>t. t @ CRLF) ts) @ rest"
  have "advance p (t @ CR # LF # ?more) = advance (p\<lparr> st := TrailerLine \<rparr>) (t @ CR # LF # ?more)"
    using t Cons.prems by (simp add: advance.simps(2))
  also have "\<dots> = advance (p\<lparr> st := TrailerLineCr \<rparr>) (LF # ?more)"
    using Cons.prems by (subst advance_trailer_line) (simp_all add: trailer_ok_def)
  also have "\<dots> = advance (p\<lparr> st := TrailerStart \<rparr>) ?more"
    by (simp add: advance.simps(2))
  also have "p\<lparr> st := TrailerStart \<rparr> = p"
    using Cons.prems by (cases p) simp
  finally show ?case
    using Cons by simp
qed simp

text \<open>The body without its last byte leaves the recogniser waiting for exactly that byte.\<close>

lemma advance_body_but_last:
  assumes "body_ok cs zero ts"
  shows "advance chunked_new (butlast (body_wire cs zero ts)) = (False, \<lparr> st = TrailerFinalCr, psize = 0 \<rparr>)"
proof -
  let ?ts = "concat (map (\<lambda>t. t @ CRLF) ts)"
  have "butlast (body_wire cs zero ts) = concat (map chunk_wire cs) @ chunk_line zero @ ?ts @ [CR]"
    by (simp add: body_wire_def butlast_append)
  also have "advance chunked_new \<dots> = advance chunked_new (chunk_line zero @ ?ts @ [CR])"
    using assms by (subst advance_chunks) (simp_all add: body_ok_def chunked_new_def)
  also have "\<dots> = advance \<lparr> st = TrailerStart, psize = 0 \<rparr> (?ts @ [CR])"
    using assms by (subst advance_size_line) (simp_all add: body_ok_def chunked_new_def)
  also have "\<dots> = (False, \<lparr> st = TrailerFinalCr, psize = 0 \<rparr>)"
    using assms by (subst advance_trailers) (simp_all add: body_ok_def advance.simps(2))
  finally show ?thesis .
qed

text \<open>So a prefix of the stream ends the body exactly when it holds all of it.\<close>

lemma advance_stream_prefix:
  assumes "body_ok cs zero ts" "data = take k (body_wire cs zero ts @ extra)"
  shows "fst (advance chunked_new data) \<longleftrightarrow> length (body_wire cs zero ts) \<le> length data"
proof -
  let ?body = "body_wire cs zero ts"
  have ne: "?body = butlast ?body @ [LF]"
    by (simp add: body_wire_def butlast_append)
  show ?thesis
  proof (cases "length ?body \<le> length data")
    case True
    then have "data = ?body @ take (k - length ?body) extra"
      using assms(2) by simp
    also have "\<dots> = butlast ?body @ LF # take (k - length ?body) extra"
      by (subst ne) simp
    finally have "fst (advance chunked_new data)"
      using advance_body_but_last [OF assms(1)] by (simp add: advance_append advance.simps(2))
    then show ?thesis
      using True by simp
  next
    case False
    then have k: "k < length ?body"
      using assms(2) by (simp add: min_def split: if_splits)
    then have "data = take k (butlast ?body @ [LF])"
      using assms(2) ne by simp
    then have "data = take k (butlast ?body)"
      using k by simp
    then have "\<exists>more. butlast ?body = data @ more"
      by (metis append_take_drop_id)
    then show ?thesis
      using advance_body_but_last [OF assms(1)] chunked.not_done_prefix False by (metis fst_conv)
  qed
qed

text \<open>
  C12: Fed a chunked body in blocks cut anywhere, followed by any other bytes, the recogniser reports
  the end exactly when the last byte of the body has been fed, neither earlier nor later, for any
  chunk sizes, extensions and trailers.
\<close>

theorem chunked_end_is_exact:
  assumes "body_ok cs zero ts" "concat blocks = take k (body_wire cs zero ts @ extra)"
  shows "fst (feed_blocks advance chunked_new blocks) \<longleftrightarrow> length (body_wire cs zero ts) \<le> length (concat blocks)"
  using chunked.feed_blocks_concat [of chunked_new blocks] advance_stream_prefix [OF assms]
  by (simp add: chunked_new_def)

definition sample_body :: bytes where
  "sample_body = body_wire [\<lparr> c_size = ascii ''3'', c_ext = ascii '';x'', c_data = ascii ''abc'' \<rparr>]
     \<lparr> c_size = ascii ''0'', c_ext = [], c_data = [] \<rparr> [ascii ''T: v'']"

lemma sample_body_ok:
  "body_ok [\<lparr> c_size = ascii ''3'', c_ext = ascii '';x'', c_data = ascii ''abc'' \<rparr>]
     \<lparr> c_size = ascii ''0'', c_ext = [], c_data = [] \<rparr> [ascii ''T: v'']"
  by (simp add: body_ok_def size_line_ok_def trailer_ok_def is_hex_def hex_digit_def)

theorem chunked_end_is_exact_witness:
  "fst (feed_blocks advance chunked_new [take 4 sample_body, drop 4 sample_body @ [1, 2]]) \<and>
   \<not> fst (feed_blocks advance chunked_new [take 4 sample_body, [hd (drop 4 sample_body)]])"
proof -
  note exact = chunked_end_is_exact [OF sample_body_ok, folded sample_body_def]
  have body: "sample_body = ascii ''3;x'' @ CRLF @ ascii ''abc'' @ CRLF @ ascii ''0'' @ CRLF @ ascii ''T: v'' @ CRLF @ CRLF"
    by (simp add: sample_body_def body_wire_def chunk_wire_def chunk_line_def)
  show ?thesis
    using exact [of "[take 4 sample_body, drop 4 sample_body @ [1, 2]]" 100 "[1, 2]"]
      exact [of "[take 4 sample_body, [hd (drop 4 sample_body)]]" 5 "[]"]
    by (simp add: body)
qed

text \<open>
  The chunk size is accumulated without an overflow check: a size line of a one and sixteen
  zeros, which announces 2 to the power 64 data bytes, is read as size zero, and the next empty line
  is taken for the end of the body.
\<close>

theorem chunked_size_wraps:
  "hex_fold 0 (ascii ''10000000000000000'') = 2 ^ 64 \<and>
   fst (advance chunked_new (ascii ''10000000000000000'' @ CRLF @ CRLF))"
  by (simp add: chunked_new_def advance.simps(2) size_byte_def hex_digit_def)

end
