(* ===== verification/Pool.thy ===== *)
theory Pool
  imports Prelude "HOL-Library.Multiset"
begin

text \<open>
  The two pools of \<^verbatim>\<open>pool.rs\<close>: reusable byte buffers (\<open>BufferPool\<close>) and idle upstream
  sockets (\<open>ConnPool\<close>). A socket is any value; the liveness probe of a checkout
  (\<open>is_reusable\<close>, a peek at the kernel's receive queue) is a parameter. Each operation runs under
  the pool's lock.
\<close>

section \<open>Buffers\<close>

text \<open>A buffer is its contents; what capacity it has reserved is invisible to its user.\<close>

record buffer_pool =
  free_bufs :: "bytes list"
  max_retained :: nat

definition buffer_pool_new :: "nat \<Rightarrow> buffer_pool" where
  "buffer_pool_new n = \<lparr> free_bufs = [], max_retained = n \<rparr>"

definition buf_take :: "buffer_pool \<Rightarrow> bytes \<times> buffer_pool" where
  "buf_take p =
     (case vec_pop (free_bufs p) of
        None \<Rightarrow> ([], p)
      | Some (b, rest) \<Rightarrow> (b, p\<lparr> free_bufs := rest \<rparr>))"

definition give_back :: "buffer_pool \<Rightarrow> bytes \<Rightarrow> buffer_pool" where
  "give_back p buf =
     (if length (free_bufs p) < max_retained p then p\<lparr> free_bufs := free_bufs p @ [[]] \<rparr> else p)"

section \<open>Idle sockets\<close>

record 's idle_conn =
  idle_stream :: 's
  idle_returned :: nat

record ('addr, 's) conn_pool =
  idle :: "'addr \<rightharpoonup> 's idle_conn list"
  max_idle_per_host :: nat
  max_idle_age :: nat
  reused :: u64
  dialed :: u64

definition conn_pool_new :: "nat \<Rightarrow> nat \<Rightarrow> ('addr, 's) conn_pool" where
  "conn_pool_new per_host age =
     \<lparr> idle = (\<lambda>_. None), max_idle_per_host = per_host, max_idle_age = age, reused = 0, dialed = 0 \<rparr>"

text \<open>The loop of \<open>checkout\<close>, on the list with its newest entry last; \<open>duration_since\<close> saturates.\<close>

function checkout_loop :: "('s \<Rightarrow> bool) \<Rightarrow> nat \<Rightarrow> nat \<Rightarrow> 's idle_conn list \<Rightarrow> 's option \<times> 's idle_conn list" where
  "checkout_loop is_reusable age now cs =
     (if cs = [] then (None, [])
      else if age < now - idle_returned (last cs) then checkout_loop is_reusable age now (butlast cs)
      else if is_reusable (idle_stream (last cs)) then (Some (idle_stream (last cs)), butlast cs)
      else checkout_loop is_reusable age now (butlast cs))"
  by pat_completeness auto
termination
  by (relation "measure (\<lambda>(_, _, _, cs). length cs)") auto

declare checkout_loop.simps [simp del]

definition checkout ::
  "('s \<Rightarrow> bool) \<Rightarrow> nat \<Rightarrow> ('addr, 's) conn_pool \<Rightarrow> 'addr \<Rightarrow> 's option \<times> ('addr, 's) conn_pool" where
  "checkout is_reusable now p addr =
     (case idle p addr of
        None \<Rightarrow> (None, p)
      | Some cs \<Rightarrow>
          let (got, rest) = checkout_loop is_reusable (max_idle_age p) now cs
          in (got, p\<lparr> idle := (idle p)(addr \<mapsto> rest) \<rparr>))"

definition checkin :: "nat \<Rightarrow> ('addr, 's) conn_pool \<Rightarrow> 'addr \<Rightarrow> 's \<Rightarrow> ('addr, 's) conn_pool" where
  "checkin now p addr stream =
     (let cs = (case idle p addr of None \<Rightarrow> [] | Some cs \<Rightarrow> cs);
          cs' = (if length cs < max_idle_per_host p
                 then cs @ [\<lparr> idle_stream = stream, idle_returned = now \<rparr>] else cs)
      in p\<lparr> idle := (idle p)(addr \<mapsto> cs') \<rparr>)"

definition note_reused :: "('addr, 's) conn_pool \<Rightarrow> ('addr, 's) conn_pool" where
  "note_reused p = p\<lparr> reused := reused p + 1 \<rparr>"

definition note_dialed :: "('addr, 's) conn_pool \<Rightarrow> ('addr, 's) conn_pool" where
  "note_dialed p = p\<lparr> dialed := dialed p + 1 \<rparr>"

definition pool_stats :: "('addr, 's) conn_pool \<Rightarrow> u64 \<times> u64" where
  "pool_stats p = (reused p, dialed p)"

section \<open>Buffers come out empty\<close>

definition buffer_pool_inv :: "buffer_pool \<Rightarrow> bool" where
  "buffer_pool_inv p \<longleftrightarrow> set (free_bufs p) \<subseteq> {[]} \<and> length (free_bufs p) \<le> max_retained p"

datatype pool_op = Take | Give bytes

fun pool_run :: "pool_op list \<Rightarrow> buffer_pool \<Rightarrow> bytes list \<times> buffer_pool" where
  "pool_run [] p = ([], p)"
| "pool_run (Take # ops) p = (let (b, p') = buf_take p; (bs, p'') = pool_run ops p' in (b # bs, p''))"
| "pool_run (Give b # ops) p = pool_run ops (give_back p b)"

lemma buf_take_inv: "buffer_pool_inv p \<Longrightarrow> fst (buf_take p) = [] \<and> buffer_pool_inv (snd (buf_take p))"
  by (auto simp: buffer_pool_inv_def buf_take_def vec_pop_def dest: in_set_butlastD last_in_set)

lemma give_back_inv: "buffer_pool_inv p \<Longrightarrow> buffer_pool_inv (give_back p b)"
  by (auto simp: buffer_pool_inv_def give_back_def)

lemma pool_run_inv:
  assumes "buffer_pool_inv p"
  shows "set (fst (pool_run ops p)) \<subseteq> {[]} \<and> buffer_pool_inv (snd (pool_run ops p))"
  using assms
proof (induction ops arbitrary: p)
  case (Cons op ops)
  then show ?case
    using buf_take_inv [of p] give_back_inv [of p] by (cases op) (simp_all add: case_prod_beta Let_def)
qed simp

text \<open>
  No bytes of one request ever reach another through the buffer pool: whatever buffers were
  returned and with whatever contents, every buffer checked out is empty, and no more idle buffers are
  retained than the pool's cap.
\<close>

theorem buffers_come_out_empty:
  "set (fst (pool_run ops (buffer_pool_new n))) \<subseteq> {[]} \<and>
   length (free_bufs (snd (pool_run ops (buffer_pool_new n)))) \<le> n"
proof -
  have "buffer_pool_inv (buffer_pool_new n)"
    by (simp add: buffer_pool_inv_def buffer_pool_new_def)
  moreover have "max_retained (snd (pool_run ops p)) = max_retained p" for p
  proof (induction ops arbitrary: p)
    case (Cons op ops)
    then show ?case
      by (cases op) (auto simp: buf_take_def give_back_def case_prod_beta Let_def split: option.split)
  qed simp
  ultimately show ?thesis
    using pool_run_inv [of "buffer_pool_new n" ops] by (simp add: buffer_pool_inv_def buffer_pool_new_def)
qed

section \<open>Sockets are reused for their own backend\<close>

text \<open>
  What a checkout finds in the list of a backend: the newest entry that is young enough and passes the
  probe; the entries after it are dropped.
\<close>

definition handed_out :: "('s \<Rightarrow> bool) \<Rightarrow> nat \<Rightarrow> nat \<Rightarrow> 's idle_conn list \<Rightarrow> 's option \<Rightarrow> 's idle_conn list \<Rightarrow> bool" where
  "handed_out is_reusable age now cs got rest \<longleftrightarrow>
     (case got of
        None \<Rightarrow> rest = [] \<and> (\<forall>d \<in> set cs. age < now - idle_returned d \<or> \<not> is_reusable (idle_stream d))
      | Some s \<Rightarrow> \<exists>c dead. cs = rest @ c # dead \<and> s = idle_stream c \<and> is_reusable s \<and> now - idle_returned c \<le> age \<and>
          (\<forall>d \<in> set dead. age < now - idle_returned d \<or> \<not> is_reusable (idle_stream d)))"

lemma handed_out_snoc:
  assumes "handed_out is_reusable age now cs got rest" "age < now - idle_returned c \<or> \<not> is_reusable (idle_stream c)"
  shows "handed_out is_reusable age now (cs @ [c]) got rest"
  using assms by (fastforce simp: handed_out_def split: option.splits)

lemma checkout_loop_hands_out:
  assumes "checkout_loop is_reusable age now cs = (got, rest)"
  shows "handed_out is_reusable age now cs got rest"
  using assms
proof (induction cs rule: rev_induct)
  case Nil
  then show ?case
    by (simp add: checkout_loop.simps handed_out_def)
next
  case (snoc c cs)
  show ?case
  proof (cases "age < now - idle_returned c \<or> \<not> is_reusable (idle_stream c)")
    case True
    then have "checkout_loop is_reusable age now cs = (got, rest)"
      using snoc.prems by (subst (asm) checkout_loop.simps) (auto split: if_splits)
    then show ?thesis
      using snoc.IH True handed_out_snoc by blast
  next
    case False
    then have "got = Some (idle_stream c) \<and> rest = cs"
      using snoc.prems by (subst (asm) checkout_loop.simps) (auto split: if_splits)
    then show ?thesis
      using False by (auto simp: handed_out_def)
  qed
qed

text \<open>
  A history of the pool: check-ins and checkouts with the time and the probe's answers of each
  call; the run collects, per call, what a checkout handed out.
\<close>

datatype ('addr, 's) conn_op = In nat 'addr 's | Out nat 'addr "'s \<Rightarrow> bool"

fun conn_run ::
  "('addr, 's) conn_op list \<Rightarrow> ('addr, 's) conn_pool \<Rightarrow> ('addr \<times> 's) list \<times> ('addr, 's) conn_pool" where
  "conn_run [] p = ([], p)"
| "conn_run (In now a s # ops) p = conn_run ops (checkin now p a s)"
| "conn_run (Out now a probe # ops) p =
     (let (got, p') = checkout probe now p a; (outs, p'') = conn_run ops p'
      in ((case got of None \<Rightarrow> [] | Some s \<Rightarrow> [(a, s)]) @ outs, p''))"

fun conn_ins :: "('addr, 's) conn_op list \<Rightarrow> ('addr \<times> 's) list" where
  "conn_ins [] = []"
| "conn_ins (In now a s # ops) = (a, s) # conn_ins ops"
| "conn_ins (Out now a probe # ops) = conn_ins ops"

definition parked :: "('addr, 's) conn_pool \<Rightarrow> 'addr \<Rightarrow> 's list" where
  "parked p a = (case idle p a of None \<Rightarrow> [] | Some cs \<Rightarrow> map idle_stream cs)"

definition sockets_of :: "('addr \<times> 's) list \<Rightarrow> 'addr \<Rightarrow> 's multiset" where
  "sockets_of xs a = mset (map snd (filter (\<lambda>x. fst x = a) xs))"

lemma checkin_parked:
  "mset (parked (checkin now p a s) b) \<subseteq># mset (parked p b) + sockets_of [(a, s)] b"
  "length (parked p b) \<le> max_idle_per_host p \<Longrightarrow>
     length (parked (checkin now p a s) b) \<le> max_idle_per_host (checkin now p a s)"
  "max_idle_per_host (checkin now p a s) = max_idle_per_host p"
  by (auto simp: checkin_def parked_def sockets_of_def Let_def split: option.splits)

lemma checkout_parked:
  assumes "checkout probe now p a = (got, p')"
  shows "mset (parked p' b) + (case got of None \<Rightarrow> {#} | Some s \<Rightarrow> sockets_of [(a, s)] b) \<subseteq># mset (parked p b)"
    "length (parked p' b) \<le> length (parked p b)" "max_idle_per_host p' = max_idle_per_host p"
proof -
  have "mset (parked p' b) + (case got of None \<Rightarrow> {#} | Some s \<Rightarrow> sockets_of [(a, s)] b) \<subseteq># mset (parked p b) \<and>
    length (parked p' b) \<le> length (parked p b) \<and> max_idle_per_host p' = max_idle_per_host p"
  proof (cases "idle p a")
    case None
    then show ?thesis
      using assms by (auto simp: checkout_def sockets_of_def)
  next
    case (Some cs)
    obtain got' rest where loop: "checkout_loop probe (max_idle_age p) now cs = (got', rest)"
      by fastforce
    then have p': "got = got'" "p' = p\<lparr> idle := (idle p)(a \<mapsto> rest) \<rparr>"
      using assms Some by (auto simp: checkout_def)
    show ?thesis
      using checkout_loop_hands_out [OF loop] Some p'
      by (auto simp: handed_out_def parked_def sockets_of_def split: option.splits)
  qed
  then show "mset (parked p' b) + (case got of None \<Rightarrow> {#} | Some s \<Rightarrow> sockets_of [(a, s)] b) \<subseteq># mset (parked p b)"
    "length (parked p' b) \<le> length (parked p b)" "max_idle_per_host p' = max_idle_per_host p"
    by simp_all
qed

lemma sockets_of_Nil [simp]: "sockets_of [] b = {#}"
  by (simp add: sockets_of_def)

lemma sockets_of_Cons: "sockets_of (x # xs) b = sockets_of [x] b + sockets_of xs b"
  by (simp add: sockets_of_def)

lemma conn_run_conserves:
  assumes "length (parked p b) \<le> max_idle_per_host p"
  shows "sockets_of (fst (conn_run ops p)) b + mset (parked (snd (conn_run ops p)) b)
           \<subseteq># mset (parked p b) + sockets_of (conn_ins ops) b \<and>
         length (parked (snd (conn_run ops p)) b) \<le> max_idle_per_host p"
  using assms
proof (induction ops arbitrary: p)
  case (Cons op ops)
  show ?case
  proof (cases op)
    case (In now a s)
    let ?p = "checkin now p a s"
    have IH: "sockets_of (fst (conn_run ops ?p)) b + mset (parked (snd (conn_run ops ?p)) b)
           \<subseteq># mset (parked ?p b) + sockets_of (conn_ins ops) b \<and>
         length (parked (snd (conn_run ops ?p)) b) \<le> max_idle_per_host ?p"
      using checkin_parked(2) Cons.prems by (intro Cons.IH)
    have ins: "sockets_of (conn_ins (op # ops)) b = sockets_of [(a, s)] b + sockets_of (conn_ins ops) b"
      unfolding In conn_ins.simps by (rule sockets_of_Cons)
    have "mset (parked ?p b) + sockets_of (conn_ins ops) b
        \<subseteq># mset (parked p b) + sockets_of (conn_ins (op # ops)) b"
      unfolding ins using checkin_parked(1) subset_mset.add_right_mono by (simp flip: add.assoc)
    then show ?thesis
      using IH subset_mset.order_trans In checkin_parked(3) [of now p a s] by auto
  next
    case (Out now a probe)
    obtain got p' where out: "checkout probe now p a = (got, p')"
      by fastforce
    note facts = checkout_parked(1,2) [OF out, of b] checkout_parked(3) [OF out]
    have IH: "sockets_of (fst (conn_run ops p')) b + mset (parked (snd (conn_run ops p')) b)
           \<subseteq># mset (parked p' b) + sockets_of (conn_ins ops) b \<and>
         length (parked (snd (conn_run ops p')) b) \<le> max_idle_per_host p'"
      using facts Cons.prems by (intro Cons.IH) simp
    have "sockets_of (fst (conn_run (op # ops) p)) b =
        (case got of None \<Rightarrow> {#} | Some s \<Rightarrow> sockets_of [(a, s)] b) + sockets_of (fst (conn_run ops p')) b"
      using Out out sockets_of_Cons [of "(a, _)" "fst (conn_run ops p')" b]
      by (simp add: case_prod_beta split: option.split)
    moreover have "snd (conn_run (op # ops) p) = snd (conn_run ops p')" "conn_ins (op # ops) = conn_ins ops"
      using Out out by (simp_all add: case_prod_beta)
    ultimately show ?thesis
      using IH facts subset_mset.add_mono [OF facts(1) conjunct1 [OF IH]]
      by (simp add: add_ac)
  qed
qed simp

text \<open>
  C17: Over any history of check-ins and checkouts, with any probe answers and ages, every socket handed
  out for a backend was returned for that same backend, each return pays for at most one handing-out,
  and no backend ever has more idle sockets parked than the per-host cap.
\<close>

theorem sockets_reused_at_most_once:
  fixes ops :: "('addr, 's) conn_op list"
  shows "sockets_of (fst (conn_run ops (conn_pool_new n age))) a \<subseteq># sockets_of (conn_ins ops) a \<and>
   length (parked (snd (conn_run ops (conn_pool_new n age))) a) \<le> n"
proof -
  let ?p = "conn_pool_new n age :: ('addr, 's) conn_pool"
  have "parked ?p a = []" "max_idle_per_host ?p = n"
    by (simp_all add: parked_def conn_pool_new_def)
  then show ?thesis
    using conn_run_conserves [of ?p a ops] by (auto intro: subset_mset.order_trans [OF mset_subset_eq_add_left])
qed

end
