(* ===== verification/Proxy_Pump.thy ===== *)
theory Proxy_Pump
  imports Fleet Chunked Pool
begin

text \<open>
  The streaming forward of \<^verbatim>\<open>proxy_dial.rs\<close>: reading the upstream's response head, relaying its body
  to the client by length, by chunks or to the end of the stream, through a userspace buffer or
  through a kernel pipe, and deciding whether the upstream socket may be reused. A pump that is
  still waiting for the upstream when the read script has run out has the value \<open>None\<close>. The
  transforms of the request and of the response head are the compiled Lean exports, parameters here.
\<close>

section \<open>Userspace pumps\<close>

definition STREAM_CHUNK :: nat where "STREAM_CHUNK = 64 * 1024"

text \<open>Write one block and, for an event stream, flush it.\<close>

definition write_block :: "bool \<Rightarrow> client \<Rightarrow> bytes \<Rightarrow> bool \<times> client" where
  "write_block flush c bs =
     (case write_all c bs of
        (False, c1) \<Rightarrow> (False, c1)
      | (True, c1) \<Rightarrow> if flush then flush_client c1 else (True, c1))"

type_synonym pump = "(bool \<times> client \<times> read_script \<times> nat) option"

function fixed_loop :: "read_script \<Rightarrow> client \<Rightarrow> nat \<Rightarrow> nat \<Rightarrow> bool \<Rightarrow> pump" where
  "fixed_loop us c remaining bytes flush =
     (if remaining = 0 then Some (True, c, us, bytes)
      else case read_some STREAM_CHUNK us of
             None \<Rightarrow> None
           | Some (Inl e, us') \<Rightarrow> Some (False, c, us', bytes)
           | Some (Inr bs, us') \<Rightarrow>
               if bs = [] then Some (False, c, us', bytes)
               else let w = min (length bs) remaining; (ok, c') = write_block flush c (take w bs)
                    in if ok then fixed_loop us' c' (remaining - w) (bytes + w) flush
                       else Some (False, c', us', bytes))"
  by pat_completeness auto
termination
  by (relation "measure (\<lambda>(us, _). script_size us)")
    (auto simp: STREAM_CHUNK_def dest: read_some_size [rotated])

declare fixed_loop.simps [simp del]

definition stream_fixed :: "read_script \<Rightarrow> client \<Rightarrow> bytes \<Rightarrow> nat \<Rightarrow> nat \<Rightarrow> bool \<Rightarrow> pump" where
  "stream_fixed us c leftover clen bytes flush =
     (let n = min (length leftover) clen in
      if 0 < n then
        (let (ok, c') = write_block flush c (take n leftover) in
         if ok then fixed_loop us c' (clen - n) (bytes + n) flush else Some (False, c', us, bytes))
      else fixed_loop us c clen bytes flush)"

function eof_loop :: "read_script \<Rightarrow> client \<Rightarrow> nat \<Rightarrow> bool \<Rightarrow> pump" where
  "eof_loop us c bytes flush =
     (case read_some STREAM_CHUNK us of
        None \<Rightarrow> None
      | Some (Inl e, us') \<Rightarrow> Some (False, c, us', bytes)
      | Some (Inr bs, us') \<Rightarrow>
          if bs = [] then Some (True, c, us', bytes)
          else let (ok, c') = write_block flush c bs
               in if ok then eof_loop us' c' (bytes + length bs) flush else Some (False, c', us', bytes))"
  by pat_completeness auto
termination
  by (relation "measure (\<lambda>(us, _). script_size us)")
    (auto simp: STREAM_CHUNK_def dest: read_some_size [rotated])

declare eof_loop.simps [simp del]

definition stream_to_eof :: "read_script \<Rightarrow> client \<Rightarrow> bytes \<Rightarrow> nat \<Rightarrow> bool \<Rightarrow> pump" where
  "stream_to_eof us c leftover bytes flush =
     (if leftover = [] then eof_loop us c bytes flush
      else let (ok, c') = write_block flush c leftover
           in if ok then eof_loop us c' (bytes + length leftover) flush else Some (False, c', us, bytes))"

function chunked_loop :: "read_script \<Rightarrow> client \<Rightarrow> chunked_parser \<Rightarrow> nat \<Rightarrow> bool \<Rightarrow> pump" where
  "chunked_loop us c p bytes flush =
     (case read_some STREAM_CHUNK us of
        None \<Rightarrow> None
      | Some (Inl e, us') \<Rightarrow> Some (False, c, us', bytes)
      | Some (Inr bs, us') \<Rightarrow>
          if bs = [] then Some (False, c, us', bytes)
          else let (ok, c') = write_block flush c bs
               in if \<not> ok then Some (False, c', us', bytes)
                  else let (fin, p') = advance p bs
                       in if fin then Some (True, c', us', bytes + length bs)
                          else chunked_loop us' c' p' (bytes + length bs) flush)"
  by pat_completeness auto
termination
  by (relation "measure (\<lambda>(us, _). script_size us)")
    (auto simp: STREAM_CHUNK_def dest: read_some_size [rotated])

declare chunked_loop.simps [simp del]

definition stream_chunked :: "read_script \<Rightarrow> client \<Rightarrow> bytes \<Rightarrow> nat \<Rightarrow> bool \<Rightarrow> pump" where
  "stream_chunked us c leftover bytes flush =
     (if leftover = [] then chunked_loop us c chunked_new bytes flush
      else let (ok, c') = write_block flush c leftover
           in if \<not> ok then Some (False, c', us, bytes)
              else let (fin, p) = advance chunked_new leftover
                   in if fin then Some (True, c', us, bytes + length leftover)
                      else chunked_loop us c' p (bytes + length leftover) flush)"

section \<open>The kernel pipe\<close>

text \<open>
  A relay is a pipe: the bytes spliced into it and not yet out of it. \<open>drains\<close> is the script of
  the results of the splices from the pipe to the client (how many bytes each moves); when it has run
  out a splice moves everything asked of it.
\<close>

record relay =
  pipe :: bytes
  drains :: "(io_kind + nat) list"

definition SPLICE_CHUNK :: nat where "SPLICE_CHUNK = 64 * 1024"

datatype relay_outcome = Ran bool | Unsupported

function drain :: "relay \<Rightarrow> client \<Rightarrow> nat \<Rightarrow> nat \<Rightarrow> bool \<times> relay \<times> client \<times> nat" where
  "drain r c in_pipe bytes =
     (if in_pipe = 0 then (True, r, c, bytes)
      else case drains r of
             [] \<Rightarrow> (True, r\<lparr> pipe := drop in_pipe (pipe r) \<rparr>,
                     c\<lparr> sent := sent c @ take in_pipe (pipe r) \<rparr>, bytes + in_pipe)
           | Inl e # ds \<Rightarrow> (False, r\<lparr> drains := ds \<rparr>, c, bytes)
           | Inr k # ds \<Rightarrow>
               if k = 0 then (False, r\<lparr> drains := ds \<rparr>, c, bytes)
               else let m = min k in_pipe
                    in drain (r\<lparr> pipe := drop m (pipe r), drains := ds \<rparr>)
                         (c\<lparr> sent := sent c @ take m (pipe r) \<rparr>) (in_pipe - m) (bytes + m))"
  by pat_completeness auto
termination
  by (relation "measure (\<lambda>(_, _, in_pipe, _). in_pipe)") auto

declare drain.simps [simp del]

type_synonym relayed = "(relay_outcome \<times> client \<times> read_script \<times> relay \<times> nat) option"

function move_exact :: "read_script \<Rightarrow> client \<Rightarrow> relay \<Rightarrow> nat \<Rightarrow> nat \<Rightarrow> bool \<Rightarrow> relayed" where
  "move_exact us c r remaining bytes first =
     (if remaining = 0 then Some (Ran True, c, us, r, bytes)
      else case read_some (min remaining SPLICE_CHUNK) us of
             None \<Rightarrow> None
           | Some (Inl e, us') \<Rightarrow>
               Some (if first \<and> e = InvalidSplice then Unsupported else Ran False, c, us', r, bytes)
           | Some (Inr bs, us') \<Rightarrow>
               if bs = [] then Some (Ran False, c, us', r, bytes)
               else (case drain (r\<lparr> pipe := pipe r @ bs \<rparr>) c (length bs) bytes of
                       (ok, r', c', bytes') \<Rightarrow>
                         if ok then move_exact us' c' r' (remaining - length bs) bytes' False
                         else Some (Ran False, c', us', r', bytes')))"
  by pat_completeness auto
termination
  by (relation "measure (\<lambda>(us, _). script_size us)")
    (auto simp: SPLICE_CHUNK_def dest: read_some_size [rotated])

declare move_exact.simps [simp del]

function move_to_eof :: "read_script \<Rightarrow> client \<Rightarrow> relay \<Rightarrow> nat \<Rightarrow> bool \<Rightarrow> relayed" where
  "move_to_eof us c r bytes first =
     (case read_some SPLICE_CHUNK us of
        None \<Rightarrow> None
      | Some (Inl e, us') \<Rightarrow>
          Some (if first \<and> e = InvalidSplice then Unsupported else Ran False, c, us', r, bytes)
      | Some (Inr bs, us') \<Rightarrow>
          if bs = [] then Some (Ran True, c, us', r, bytes)
          else (case drain (r\<lparr> pipe := pipe r @ bs \<rparr>) c (length bs) bytes of
                  (ok, r', c', bytes') \<Rightarrow>
                    if ok then move_to_eof us' c' r' bytes' False
                    else Some (Ran False, c', us', r', bytes')))"
  by pat_completeness auto
termination
  by (relation "measure (\<lambda>(us, _). script_size us)")
    (auto simp: SPLICE_CHUNK_def dest: read_some_size [rotated])

declare move_to_eof.simps [simp del]

section \<open>What the pumps put on the wire\<close>

lemma write_block_sent:
  assumes "write_block flush c bs = (ok, c')"
  shows "if ok then sent c' = sent c @ bs else sent c' = sent c \<or> sent c' = sent c @ bs"
proof -
  obtain w c1 where w: "write_all c bs = (w, c1)"
    by fastforce
  show ?thesis
    using assms write_all_sent [OF w] w flush_client_sent [of c1 ok c']
    by (cases w) (auto simp: write_block_def split: if_splits)
qed

lemma write_block_reliable: "faults c = [] \<Longrightarrow> write_block flush c bs = (True, c\<lparr> sent := sent c @ bs \<rparr>)"
  by (simp add: write_block_def write_all_reliable flush_client_reliable)

lemma chunk_pos [simp]: "0 < STREAM_CHUNK" "0 < SPLICE_CHUNK"
  by (simp_all add: STREAM_CHUNK_def SPLICE_CHUNK_def)

text \<open>Whatever fails, the client has received a prefix of the body, and all of it on success.\<close>

lemma fixed_loop_prefix:
  assumes "fixed_loop us c n bytes flush = Some (ok, c', us', bytes')"
  shows "\<exists>m \<le> n. m \<le> length (delivered us) \<and> sent c' = sent c @ take m (delivered us) \<and>
                 (ok \<longrightarrow> m = n \<and> bytes' = bytes + n)"
  using assms
proof (induction us arbitrary: c n bytes rule: read_induct)
  case (Read us)
  show ?case
  proof (cases "n = 0")
    case True
    then show ?thesis
      using Read.prems by (auto simp: fixed_loop.simps)
  next
    case n: False
    show ?thesis
    proof (cases us rule: read_cases [of STREAM_CHUNK])
      case (Block bs us1)
      note del = read_some_delivered [OF Block]
      let ?w = "min (length bs) n"
      obtain k c1 where w: "write_block flush c (take ?w bs) = (k, c1)"
        by fastforce
      have loop: "fixed_loop us c n bytes flush =
          (if k then fixed_loop us1 c1 (n - ?w) (bytes + ?w) flush else Some (False, c1, us1, bytes))"
        using n Block w by (subst fixed_loop.simps) (simp add: Let_def)
      show ?thesis
      proof (cases k)
        case False
        then show ?thesis
          using write_block_sent [OF w] loop Read.prems del(1) by (auto intro: exI [of _ 0] exI [of _ ?w])
      next
        case True
        obtain m where m: "m \<le> n - ?w" "m \<le> length (delivered us1)"
            "sent c' = sent c1 @ take m (delivered us1)" "ok \<longrightarrow> m = n - ?w \<and> bytes' = bytes + ?w + (n - ?w)"
          using Read.IH [OF chunk_pos(1) Block(1), of c1 "n - ?w" "bytes + ?w"] Read.prems loop True by auto
        have "take ?w bs @ take m (delivered us1) = take (?w + m) (delivered us)"
          unfolding del(1) using m(1) by (cases "length bs \<le> n") simp_all
        then show ?thesis
          using m write_block_sent [OF w] True del(1) by (intro exI [of _ "?w + m"]) auto
      qed
    qed (use Read.prems n in \<open>auto simp: fixed_loop.simps intro: exI [of _ 0]\<close>)
  qed
qed

lemma drain_facts:
  assumes "drain r c n bytes = (ok, r', c', bytes')" "n \<le> length (pipe r)"
  shows "\<exists>m \<le> n. sent c' = sent c @ take m (pipe r) \<and> pipe r' = drop m (pipe r) \<and>
                 (ok \<longrightarrow> m = n) \<and> bytes' = bytes + m \<and> faults c' = faults c"
  using assms
proof (induction r c n bytes rule: drain.induct)
  case (1 r c n bytes)
  show ?case
  proof (cases "n = 0")
    case True
    then show ?thesis
      using "1.prems" by (auto simp: drain.simps)
  next
    case n: False
    show ?thesis
    proof (cases "drains r")
      case Nil
      then show ?thesis
        using "1.prems" n by (auto simp: drain.simps)
    next
      case (Cons d ds)
      show ?thesis
      proof (cases "\<exists>k. d = Inr k \<and> k \<noteq> 0")
        case False
        then have "ok = False \<and> c' = c \<and> pipe r' = pipe r \<and> bytes' = bytes"
          using "1.prems" n Cons by (cases d) (auto simp: drain.simps)
        then show ?thesis
          by (intro exI [of _ 0]) simp
      next
        case True
        then obtain k where k: "d = Inr k" "k \<noteq> 0" by blast
        let ?m = "min k n"
        let ?r = "r\<lparr> pipe := drop ?m (pipe r), drains := ds \<rparr>" and ?c = "c\<lparr> sent := sent c @ take ?m (pipe r) \<rparr>"
        have "drain ?r ?c (n - ?m) (bytes + ?m) = (ok, r', c', bytes')"
          using "1.prems"(1) n Cons k by (subst (asm) drain.simps) (simp add: Let_def)
        moreover have "n - ?m \<le> length (pipe ?r)"
          using "1.prems"(2) by simp
        ultimately obtain m where m: "m \<le> n - ?m" "sent c' = sent ?c @ take m (pipe ?r)"
            "pipe r' = drop m (pipe ?r)" "ok \<longrightarrow> m = n - ?m" "bytes' = bytes + ?m + m" "faults c' = faults ?c"
          using "1.IH" [OF n Cons k refl] by blast
        have "take ?m (pipe r) @ take m (drop ?m (pipe r)) = take (?m + m) (pipe r)"
          by (simp add: take_add)
        then show ?thesis
          using m by (intro exI [of _ "?m + m"]) (auto simp: add.commute)
      qed
    qed
  qed
qed

lemma drain_block:
  assumes "drain (r\<lparr> pipe := pipe r @ bs \<rparr>) c (length bs) bytes = (ok, r', c', bytes')" "pipe r = []"
  shows "\<exists>m \<le> length bs. sent c' = sent c @ take m bs \<and> bytes' = bytes + m \<and> faults c' = faults c \<and>
           (ok \<longrightarrow> m = length bs \<and> pipe r' = [])"
  using drain_facts [OF assms(1)] assms(2) by auto

text \<open>Only the first splice can report that splicing is unsupported.\<close>

lemma move_exact_later: "move_exact us c r n bytes False \<noteq> Some (Unsupported, x)"
proof (induction us arbitrary: c r n bytes rule: read_induct)
  case (Read us)
  show ?case
  proof (cases "n = 0")
    case False
    then have pos: "0 < min n SPLICE_CHUNK"
      by simp
    show ?thesis
      using False
      by (subst move_exact.simps) (auto dest: Read.IH [OF pos, THEN notE] split: option.splits sum.splits prod.splits)
  qed (simp add: move_exact.simps)
qed

text \<open>
  The kernel relay: the client receives a prefix of the upstream's bytes, the whole body on success,
  and a relay that ran to the end, or never moved a byte, is left with an empty pipe.
\<close>

lemma move_exact_prefix:
  assumes "move_exact us c r n bytes first = Some (out, c', us', r', bytes')" "pipe r = []"
  shows "\<exists>m \<le> n. m \<le> length (delivered us) \<and> sent c' = sent c @ take m (delivered us) \<and> bytes' = bytes + m \<and>
                 (case out of Ran ok \<Rightarrow> ok \<longrightarrow> m = n \<and> pipe r' = [] | Unsupported \<Rightarrow> m = 0 \<and> pipe r' = [] \<and> c' = c)"
  using assms
proof (induction us arbitrary: c r n bytes first rule: read_induct)
  case (Read us)
  show ?case
  proof (cases "n = 0")
    case True
    then show ?thesis
      using Read.prems by (auto simp: move_exact.simps)
  next
    case n: False
    then have pos: "0 < min n SPLICE_CHUNK"
      by simp
    show ?thesis
    proof (cases us rule: read_cases [of "min n SPLICE_CHUNK"])
      case (Block bs us1)
      note del = read_some_delivered [OF Block]
      obtain k r1 c1 b1 where d: "drain (r\<lparr> pipe := pipe r @ bs \<rparr>) c (length bs) bytes = (k, r1, c1, b1)"
        by (metis prod_cases4)
      then obtain j where j: "j \<le> length bs" "sent c1 = sent c @ take j bs" "b1 = bytes + j"
          "k \<longrightarrow> j = length bs \<and> pipe r1 = []"
        using drain_block [OF d Read.prems(2)] by blast
      have loop: "move_exact us c r n bytes first =
          (if k then move_exact us1 c1 r1 (n - length bs) b1 False else Some (Ran False, c1, us1, r1, b1))"
        using n Block d by (subst move_exact.simps) simp
      show ?thesis
      proof (cases k)
        case False
        then show ?thesis
          using loop Read.prems j del by (intro exI [of _ j]) auto
      next
        case True
        then obtain m where m: "m \<le> n - length bs" "m \<le> length (delivered us1)"
            "sent c' = sent c1 @ take m (delivered us1)" "bytes' = b1 + m"
            "case out of Ran ok \<Rightarrow> ok \<longrightarrow> m = n - length bs \<and> pipe r' = []
             | Unsupported \<Rightarrow> m = 0 \<and> pipe r' = [] \<and> c' = c1"
          using Read.IH [OF pos Block(1), of c1 r1 "n - length bs" b1 False] Read.prems loop j by auto
        moreover have "out \<noteq> Unsupported"
          using move_exact_later Read.prems(1) loop True by fastforce
        ultimately show ?thesis
          using j True del by (intro exI [of _ "length bs + m"]) (auto split: relay_outcome.splits)
      qed
    qed (use Read.prems n in \<open>auto simp: move_exact.simps intro: exI [of _ 0]\<close>)
  qed
qed

section \<open>The two pumps are the same to the client\<close>

text \<open>Whether the bytes of a script run out before the stream ends or fails.\<close>

fun blocks :: "read_script \<Rightarrow> bool" where
  "blocks [] = True"
| "blocks (Inl e # us) = False"
| "blocks (Inr bs # us) = (bs \<noteq> [] \<and> blocks us)"

lemma read_some_blocks:
  assumes "read_some n us = Some (r, us')" "0 < n"
  shows "blocks us \<longleftrightarrow> (case r of Inl e \<Rightarrow> False | Inr bs \<Rightarrow> bs \<noteq> [] \<and> blocks us')"
  using assms by (cases "(n, us)" rule: read_some.cases) (auto split: if_splits)

lemma read_some_None: "read_some n us = None \<longleftrightarrow> us = []"
  by (cases "(n, us)" rule: read_some.cases) auto

lemma read_some_set:
  assumes "read_some n us = Some (r, us')"
  shows "\<And>e. Inl e \<in> set us' \<Longrightarrow> Inl e \<in> set us" "\<And>e. r = Inl e \<Longrightarrow> Inl e \<in> set us"
  using assms by (cases "(n, us)" rule: read_some.cases; auto split: if_splits)+

text \<open>
  What a pump of exactly \<open>n\<close> bytes must do: deliver them, or deliver what there is and fail, or wait
  for an upstream that has neither sent them nor ended.
\<close>

definition exact_pump :: "read_script \<Rightarrow> client \<Rightarrow> nat \<Rightarrow> nat \<Rightarrow> (bool \<times> client \<times> nat) option" where
  "exact_pump us c n bytes =
     (if n \<le> length (delivered us) \<or> \<not> blocks us
      then Some (n \<le> length (delivered us), c\<lparr> sent := sent c @ take n (delivered us) \<rparr>,
                 bytes + min n (length (delivered us)))
      else None)"

definition pumped :: "pump \<Rightarrow> (bool \<times> client \<times> nat) option" where
  "pumped p = map_option (\<lambda>(ok, c, us, bytes). (ok, c, bytes)) p"

lemma pumped_simps [simp]:
  "pumped None = None"
  "pumped (Some (ok, c, us, bytes)) = Some (ok, c, bytes)"
  by (simp_all add: pumped_def)

lemma exact_pump_block:
  assumes "read_some k us = Some (Inr bs, us')" "bs \<noteq> []" "0 < k" "0 < n"
  shows "exact_pump us c n bytes =
           exact_pump us' (c\<lparr> sent := sent c @ take n bs \<rparr>) (n - length bs) (bytes + min (length bs) n)"
proof -
  have "delivered us = bs @ delivered us'" "blocks us = blocks us'"
    using read_some_delivered [OF assms(1,2)] read_some_blocks [OF assms(1,3)] assms(2) by auto
  then show ?thesis
    by (auto simp: exact_pump_def)
qed

lemma exact_pump_end:
  assumes "read_some k us = Some (r, us')" "r = Inr [] \<or> (\<exists>e. r = Inl e)" "0 < k" "0 < n"
  shows "exact_pump us c n bytes = Some (False, c, bytes)"
  using read_some_end [OF assms(1,2,3)] read_some_blocks [OF assms(1,3)] assms(2,4)
  by (auto simp: exact_pump_def)

lemma exact_pump_blocked: "0 < n \<Longrightarrow> exact_pump [] c n bytes = None"
  by (simp add: exact_pump_def)

lemma exact_pump_zero: "exact_pump us c 0 bytes = Some (True, c, bytes)"
  by (simp add: exact_pump_def)

lemma fixed_loop_reliable:
  "faults c = [] \<Longrightarrow> pumped (fixed_loop us c n bytes flush) = exact_pump us c n bytes"
proof (induction us arbitrary: c n bytes rule: read_induct)
  case (Read us)
  show ?case
  proof (cases "n = 0")
    case True
    then show ?thesis
      by (simp add: fixed_loop.simps exact_pump_zero)
  next
    case n: False
    show ?thesis
    proof (cases us rule: read_cases [of STREAM_CHUNK])
      case Blocked
      then show ?thesis
        using n by (simp add: fixed_loop.simps read_some_None exact_pump_blocked)
    next
      case (Block bs us1)
      let ?w = "min (length bs) n"
      have "pumped (fixed_loop us c n bytes flush) =
          pumped (fixed_loop us1 (c\<lparr> sent := sent c @ take ?w bs \<rparr>) (n - ?w) (bytes + ?w) flush)"
        using n Block Read.prems by (subst fixed_loop.simps) (simp add: Let_def write_block_reliable)
      also have "\<dots> = exact_pump us1 (c\<lparr> sent := sent c @ take ?w bs \<rparr>) (n - ?w) (bytes + ?w)"
        using Read.IH [OF chunk_pos(1) Block(1)] Read.prems by simp
      also have "\<dots> = exact_pump us c n bytes"
        using exact_pump_block [OF Block chunk_pos(1)] n by (simp add: min_def)
      finally show ?thesis .
    qed (use n in \<open>auto simp: fixed_loop.simps exact_pump_end [OF _ _ chunk_pos(1)]\<close>)
  qed
qed

text \<open>A relay whose splices to the client move something each time, however little.\<close>

definition good_drains :: "relay \<Rightarrow> bool" where
  "good_drains r \<longleftrightarrow> (\<forall>d \<in> set (drains r). \<exists>k. d = Inr (Suc k))"

lemma drain_good:
  "good_drains r \<Longrightarrow> n \<le> length (pipe r) \<Longrightarrow>
     \<exists>r'. drain r c n bytes = (True, r', c\<lparr> sent := sent c @ take n (pipe r) \<rparr>, bytes + n) \<and>
          good_drains r' \<and> pipe r' = drop n (pipe r)"
proof (induction r c n bytes rule: drain.induct)
  case (1 r c n bytes)
  show ?case
  proof (cases "n = 0 \<or> drains r = []")
    case True
    then show ?thesis
      using "1.prems" by (subst drain.simps) (auto simp: good_drains_def)
  next
    case False
    then obtain k ds where ds: "drains r = Inr (Suc k) # ds"
      using "1.prems"(1) by (auto simp: good_drains_def neq_Nil_conv)
    let ?m = "min (Suc k) n"
    let ?r = "r\<lparr> pipe := drop ?m (pipe r), drains := ds \<rparr>" and ?c = "c\<lparr> sent := sent c @ take ?m (pipe r) \<rparr>"
    have nz: "n \<noteq> 0" and good: "good_drains ?r" "n - ?m \<le> length (pipe ?r)"
      using "1.prems" ds False by (auto simp: good_drains_def)
    from "1.IH" [OF nz ds refl Suc_not_Zero refl good] obtain r' where r': "drain ?r ?c (n - ?m) (bytes + ?m) =
          (True, r', ?c\<lparr> sent := sent ?c @ take (n - ?m) (pipe ?r) \<rparr>, bytes + ?m + (n - ?m))"
        "good_drains r'" "pipe r' = drop (n - ?m) (pipe ?r)"
      by (elim exE conjE)
    have "take ?m (pipe r) @ take (n - ?m) (drop ?m (pipe r)) = take n (pipe r)"
      by (simp add: take_add [symmetric])
    then show ?thesis
      using r' False ds by (intro exI [of _ r'], subst drain.simps) (simp add: Let_def)
  qed
qed

lemma drain_good_block:
  assumes "good_drains r" "pipe r = []"
  obtains r' where "drain (r\<lparr> pipe := pipe r @ bs \<rparr>) c (length bs) bytes =
      (True, r', c\<lparr> sent := sent c @ bs \<rparr>, bytes + length bs)" "good_drains r'" "pipe r' = []"
  using drain_good [of "r\<lparr> pipe := pipe r @ bs \<rparr>" "length bs" c bytes] assms
  by (auto simp: good_drains_def)

definition spliced :: "relayed \<Rightarrow> (bool \<times> client \<times> nat) option" where
  "spliced p = map_option (\<lambda>(out, c, us, r, bytes). (out = Ran True, c, bytes)) p"

lemma spliced_simps [simp]:
  "spliced None = None"
  "spliced (Some (out, c, us, r, bytes)) = Some (out = Ran True, c, bytes)"
  by (simp_all add: spliced_def)

lemma move_exact_reliable:
  "good_drains r \<Longrightarrow> pipe r = [] \<Longrightarrow> Inl InvalidSplice \<notin> set us \<Longrightarrow>
     spliced (move_exact us c r n bytes first) = exact_pump us c n bytes"
proof (induction us arbitrary: c r n bytes first rule: read_induct)
  case (Read us)
  show ?case
  proof (cases "n = 0")
    case True
    then show ?thesis
      by (simp add: move_exact.simps exact_pump_zero)
  next
    case n: False
    then have pos: "0 < min n SPLICE_CHUNK"
      by simp
    show ?thesis
    proof (cases us rule: read_cases [of "min n SPLICE_CHUNK"])
      case Blocked
      then show ?thesis
        using n by (simp add: move_exact.simps read_some_None exact_pump_blocked)
    next
      case (Block bs us1)
      obtain r1 where r1: "drain (r\<lparr> pipe := pipe r @ bs \<rparr>) c (length bs) bytes =
          (True, r1, c\<lparr> sent := sent c @ bs \<rparr>, bytes + length bs)" "good_drains r1" "pipe r1 = []"
        using drain_good_block [OF Read.prems(1,2)] .
      have le: "length bs \<le> n"
        using read_some_delivered(2) [OF Block] by simp
      have "spliced (move_exact us c r n bytes first) =
          spliced (move_exact us1 (c\<lparr> sent := sent c @ bs \<rparr>) r1 (n - length bs) (bytes + length bs) False)"
        using n Block r1(1) by (subst move_exact.simps) simp
      also have "\<dots> = exact_pump us1 (c\<lparr> sent := sent c @ bs \<rparr>) (n - length bs) (bytes + length bs)"
        using Read.IH [OF pos Block(1)] r1 read_some_set(1) [OF Block(1)] Read.prems(3) by blast
      also have "\<dots> = exact_pump us c n bytes"
        using exact_pump_block [OF Block pos] n le by (simp add: min_def)
      finally show ?thesis .
    next
      case (Failed e us1)
      then have "e \<noteq> InvalidSplice"
        using read_some_set(2) [OF Failed] Read.prems(3) by blast
      then show ?thesis
        using n Failed exact_pump_end [OF Failed _ pos] by (simp add: move_exact.simps)
    next
      case (Ended us1)
      then show ?thesis
        using n exact_pump_end [OF Ended _ pos] by (simp add: move_exact.simps)
    qed
  qed
qed

text \<open>The splice of a body takes exactly the body from the upstream.\<close>

lemma move_exact_boundary:
  assumes "move_exact us c r n bytes first = Some (Ran True, c', us', r', bytes')"
  shows "n \<le> length (delivered us) \<and> delivered us' = drop n (delivered us)"
  using assms
proof (induction us arbitrary: c r n bytes first rule: read_induct)
  case (Read us)
  show ?case
  proof (cases "n = 0")
    case True
    then show ?thesis
      using Read.prems by (simp add: move_exact.simps)
  next
    case n: False
    then have pos: "0 < min n SPLICE_CHUNK"
      by simp
    show ?thesis
    proof (cases us rule: read_cases [of "min n SPLICE_CHUNK"])
      case (Block bs us1)
      obtain k r1 c1 b1 where d: "drain (r\<lparr> pipe := pipe r @ bs \<rparr>) c (length bs) bytes = (k, r1, c1, b1)"
        by (metis prod_cases4)
      then have "move_exact us1 c1 r1 (n - length bs) b1 False = Some (Ran True, c', us', r', bytes')"
        using Read.prems n Block by (subst (asm) move_exact.simps) (auto split: if_splits)
      then show ?thesis
        using Read.IH [OF pos Block(1)] read_some_delivered [OF Block] by fastforce
    qed (use Read.prems n in \<open>auto simp: move_exact.simps split: if_splits\<close>)
  qed
qed

text \<open>A pump to the end of the stream: it succeeds exactly when the stream ends cleanly.\<close>

fun clean_end :: "read_script \<Rightarrow> bool" where
  "clean_end [] = False"
| "clean_end (Inl e # us) = False"
| "clean_end (Inr bs # us) = (bs = [] \<or> clean_end us)"

definition eof_pump :: "read_script \<Rightarrow> client \<Rightarrow> nat \<Rightarrow> (bool \<times> client \<times> nat) option" where
  "eof_pump us c bytes =
     (if blocks us then None
      else Some (clean_end us, c\<lparr> sent := sent c @ delivered us \<rparr>, bytes + length (delivered us)))"

lemma read_some_clean_end:
  assumes "read_some n us = Some (r, us')" "0 < n"
  shows "clean_end us \<longleftrightarrow> (case r of Inl e \<Rightarrow> False | Inr bs \<Rightarrow> bs = [] \<or> clean_end us')"
  using assms by (cases "(n, us)" rule: read_some.cases) (auto split: if_splits)

lemma eof_pump_block:
  assumes "read_some k us = Some (Inr bs, us')" "bs \<noteq> []" "0 < k"
  shows "eof_pump us c bytes = eof_pump us' (c\<lparr> sent := sent c @ bs \<rparr>) (bytes + length bs)"
  using read_some_delivered [OF assms(1,2)] read_some_blocks [OF assms(1,3)] read_some_clean_end [OF assms(1,3)]
    assms(2) by (simp add: eof_pump_def)

lemma eof_pump_end:
  assumes "read_some k us = Some (r, us')" "r = Inr [] \<or> (\<exists>e. r = Inl e)" "0 < k"
  shows "eof_pump us c bytes = Some (r = Inr [], c, bytes)"
  using read_some_end [OF assms] read_some_blocks [OF assms(1,3)] read_some_clean_end [OF assms(1,3)] assms(2)
  by (auto simp: eof_pump_def)

lemma eof_loop_reliable: "faults c = [] \<Longrightarrow> pumped (eof_loop us c bytes flush) = eof_pump us c bytes"
proof (induction us arbitrary: c bytes rule: read_induct)
  case (Read us)
  show ?case
  proof (cases us rule: read_cases [of STREAM_CHUNK])
    case Blocked
    then show ?thesis
      by (simp add: eof_loop.simps read_some_None eof_pump_def)
  next
    case (Block bs us1)
    have "pumped (eof_loop us c bytes flush) =
        pumped (eof_loop us1 (c\<lparr> sent := sent c @ bs \<rparr>) (bytes + length bs) flush)"
      using Block Read.prems by (subst eof_loop.simps) (simp add: write_block_reliable)
    then show ?thesis
      using Read.IH [OF chunk_pos(1) Block(1)] eof_pump_block [OF Block chunk_pos(1)] Read.prems by simp
  qed (auto simp: eof_loop.simps eof_pump_end [OF _ _ chunk_pos(1)])
qed

lemma move_to_eof_reliable:
  "good_drains r \<Longrightarrow> pipe r = [] \<Longrightarrow> Inl InvalidSplice \<notin> set us \<Longrightarrow>
     spliced (move_to_eof us c r bytes first) = eof_pump us c bytes"
proof (induction us arbitrary: c r bytes first rule: read_induct)
  case (Read us)
  show ?case
  proof (cases us rule: read_cases [of SPLICE_CHUNK])
    case Blocked
    then show ?thesis
      by (simp add: move_to_eof.simps read_some_None eof_pump_def)
  next
    case (Block bs us1)
    obtain r1 where r1: "drain (r\<lparr> pipe := pipe r @ bs \<rparr>) c (length bs) bytes =
        (True, r1, c\<lparr> sent := sent c @ bs \<rparr>, bytes + length bs)" "good_drains r1" "pipe r1 = []"
      using drain_good_block [OF Read.prems(1,2)] .
    have "spliced (move_to_eof us c r bytes first) =
        spliced (move_to_eof us1 (c\<lparr> sent := sent c @ bs \<rparr>) r1 (bytes + length bs) False)"
      using Block r1(1) by (subst move_to_eof.simps) simp
    also have "\<dots> = eof_pump us1 (c\<lparr> sent := sent c @ bs \<rparr>) (bytes + length bs)"
      using Read.IH [OF chunk_pos(2) Block(1)] r1 read_some_set(1) [OF Block(1)] Read.prems(3) by blast
    also have "\<dots> = eof_pump us c bytes"
      using eof_pump_block [OF Block chunk_pos(2)] by simp
    finally show ?thesis .
  next
    case (Failed e us1)
    then have "e \<noteq> InvalidSplice"
      using read_some_set(2) [OF Failed] Read.prems(3) by blast
    then show ?thesis
      using Failed eof_pump_end [OF Failed _ chunk_pos(2)] by (simp add: move_to_eof.simps)
  next
    case (Ended us1)
    then show ?thesis
      using eof_pump_end [OF Ended _ chunk_pos(2)] by (simp add: move_to_eof.simps)
  qed
qed

lemma move_to_eof_later: "move_to_eof us c r bytes False \<noteq> Some (Unsupported, x)"
proof (induction us arbitrary: c r bytes rule: read_induct)
  case (Read us)
  then show ?case
    by (subst move_to_eof.simps)
      (auto dest: Read.IH [OF chunk_pos(2), THEN notE] split: option.splits sum.splits prod.splits)
qed

lemma move_to_eof_pipe:
  assumes "move_to_eof us c r bytes first = Some (out, c', us', r', bytes')" "pipe r = []" "out \<noteq> Ran False"
  shows "pipe r' = []"
  using assms(1,2)
proof (induction us arbitrary: c r bytes first rule: read_induct)
  case (Read us)
  show ?case
  proof (cases us rule: read_cases [of SPLICE_CHUNK])
    case (Block bs us1)
    obtain k r1 c1 b1 where d: "drain (r\<lparr> pipe := pipe r @ bs \<rparr>) c (length bs) bytes = (k, r1, c1, b1)"
      by (metis prod_cases4)
    have "k" "move_to_eof us1 c1 r1 b1 False = Some (out, c', us', r', bytes')"
      using Read.prems(1) Block d assms(3) by (subst (asm) move_to_eof.simps; auto split: if_splits)+
    then show ?thesis
      using Read.IH [OF chunk_pos(2) Block(1)] drain_block [OF d Read.prems(2)] by blast
  qed (use Read.prems in \<open>auto simp: move_to_eof.simps split: if_splits\<close>)
qed

section \<open>Chunked bodies\<close>

text \<open>
  With the whole body on its way, the chunked pump finishes, having relayed the body verbatim and at
  most the rest of the block that held its end.
\<close>

lemma chunked_loop_finishes:
  assumes "body_ok cs zero ts"
  shows "faults c = [] \<Longrightarrow> advance chunked_new data = (False, p) \<Longrightarrow>
     data @ delivered us = body_wire cs zero ts @ extra \<Longrightarrow>
     \<exists>m us'. chunked_loop us c p bytes flush =
         Some (True, c\<lparr> sent := sent c @ take m (delivered us) \<rparr>, us', bytes + m) \<and>
       m \<le> length (delivered us) \<and> length (body_wire cs zero ts) \<le> length data + m"
proof (induction us arbitrary: c p data bytes rule: read_induct)
  case (Read us)
  let ?body = "body_wire cs zero ts"
  have part: "length data < length ?body"
    using advance_stream_prefix [OF assms, of data "length data" extra] Read.prems(2,3)
    by (metis append_eq_conv_conj fst_conv not_le)
  show ?case
  proof (cases us rule: read_cases [of STREAM_CHUNK])
    case (Block bs us1)
    note del = read_some_delivered(1) [OF Block]
    obtain fin p' where adv: "advance p bs = (fin, p')"
      by fastforce
    then have both: "advance chunked_new (data @ bs) = (fin, p')"
      using Read.prems(2) by (simp add: advance_append)
    have loop: "chunked_loop us c p bytes flush =
        (if fin then Some (True, c\<lparr> sent := sent c @ bs \<rparr>, us1, bytes + length bs)
         else chunked_loop us1 (c\<lparr> sent := sent c @ bs \<rparr>) p' (bytes + length bs) flush)"
      using Block Read.prems(1) adv by (subst chunked_loop.simps) (simp add: write_block_reliable)
    show ?thesis
    proof (cases fin)
      case True
      have "data @ bs = take (length (data @ bs)) (?body @ extra)"
        using Read.prems(3) del by (metis append.assoc append_eq_conv_conj)
      then have "length ?body \<le> length (data @ bs)"
        using advance_stream_prefix [OF assms] both True by (metis fst_conv)
      then show ?thesis
        using True loop del by (intro exI [of _ "length bs"] exI [of _ us1]) simp
    next
      case False
      let ?c = "c\<lparr> sent := sent c @ bs \<rparr>"
      have prems: "faults ?c = []" "advance chunked_new (data @ bs) = (False, p')"
          "(data @ bs) @ delivered us1 = ?body @ extra"
        using Read.prems both False del by auto
      from Read.IH [OF chunk_pos(1) Block(1) prems, of "bytes + length bs"] obtain m us' where
        "chunked_loop us1 ?c p' (bytes + length bs) flush =
           Some (True, ?c\<lparr> sent := sent ?c @ take m (delivered us1) \<rparr>, us', bytes + length bs + m)"
        "m \<le> length (delivered us1)" "length ?body \<le> length (data @ bs) + m"
        by (elim exE conjE)
      then show ?thesis
        using False loop del by (intro exI [of _ "length bs + m"] exI [of _ us']) simp
    qed
  next
    case (Ended us1)
    then show ?thesis
      using read_some_end [OF Ended] part Read.prems(3) by simp
  next
    case (Failed e us1)
    then show ?thesis
      using read_some_end [OF Failed] part Read.prems(3) by simp
  next
    case Blocked
    then show ?thesis
      using part Read.prems(3) by (simp add: read_some_None)
  qed
qed

text \<open>
  C16: A chunked response is relayed whole: with a client that accepts what it is sent, an upstream
  stream that holds a well-formed chunked body, cut anywhere into the head's leftover and into reads,
  makes the pump return success after a prefix of that stream which contains all of the body.
\<close>

theorem stream_chunked_finishes:
  assumes "body_ok cs zero ts" "faults c = []" "leftover @ delivered us = body_wire cs zero ts @ extra"
  shows "\<exists>m us'. stream_chunked us c leftover bytes flush =
           Some (True, c\<lparr> sent := sent c @ take m (leftover @ delivered us) \<rparr>, us', bytes + m) \<and>
         length (body_wire cs zero ts) \<le> m \<and> m \<le> length (leftover @ delivered us)"
proof -
  let ?body = "body_wire cs zero ts"
  obtain fin p where adv: "advance chunked_new leftover = (fin, p)"
    by fastforce
  have run: "stream_chunked us c leftover bytes flush =
      (if fin then Some (True, c\<lparr> sent := sent c @ leftover \<rparr>, us, bytes + length leftover)
       else chunked_loop us (c\<lparr> sent := sent c @ leftover \<rparr>) p (bytes + length leftover) flush)"
    using assms(2) adv by (auto simp: stream_chunked_def write_block_reliable chunked_new_def)
  show ?thesis
  proof (cases fin)
    case True
    have "leftover = take (length leftover) (?body @ extra)"
      using assms(3) by (metis append_eq_conv_conj)
    then have "length ?body \<le> length leftover"
      using advance_stream_prefix [OF assms(1)] adv True by (metis fst_conv)
    then show ?thesis
      using run True by (intro exI [of _ "length leftover"] exI [of _ us]) simp
  next
    case False
    let ?c = "c\<lparr> sent := sent c @ leftover \<rparr>"
    have prems: "faults ?c = []" "advance chunked_new leftover = (False, p)"
      using assms(2) adv False by simp_all
    from chunked_loop_finishes [OF assms(1) prems assms(3), of "bytes + length leftover" flush]
    obtain m us' where "chunked_loop us ?c p (bytes + length leftover) flush =
           Some (True, ?c\<lparr> sent := sent ?c @ take m (delivered us) \<rparr>, us', bytes + length leftover + m)"
        "m \<le> length (delivered us)" "length ?body \<le> length leftover + m"
      by (elim exE conjE)
    then show ?thesis
      using run False by (intro exI [of _ "length leftover + m"] exI [of _ us']) simp
  qed
qed

theorem stream_chunked_finishes_witness:
  "\<exists>m us'. stream_chunked [Inr (drop 4 sample_body @ [1, 2])] \<lparr> sent = [], faults = [] \<rparr> (take 4 sample_body) 0 True =
     Some (True, \<lparr> sent = take m (sample_body @ [1, 2]), faults = [] \<rparr>, us', m) \<and> length sample_body \<le> m"
proof -
  have body: "take 4 sample_body @ delivered [Inr (drop 4 sample_body @ [1, 2])] = sample_body @ [1, 2]"
    by simp
  have "faults \<lparr> sent = [], faults = [] \<rparr> = []"
    by simp
  from stream_chunked_finishes [OF sample_body_ok, folded sample_body_def, OF this body, of 0 True]
  show ?thesis
    unfolding body by (elim exE conjE) (intro exI conjI, simp_all)
qed

end
