(* ===== verification/Proxy_Forward.thy ===== *)
theory Proxy_Forward
  imports Proxy_Pump
begin

text \<open>
  The forwards of \<^verbatim>\<open>proxy_dial.rs\<close>: taking an upstream socket from the pool or dialling one, sending
  the request, reading the response head, relaying the response and deciding whether the socket goes
  back to the pool. An upstream socket is the script of its reads, what was sent to it, and the error
  its write calls return, if any. Dial results, new pipes and read scripts come from the operating
  system and are part of the state; the socket probe, the time and the compiled Lean transforms of the
  request (\<open>forward_request\<close>, \<open>strip_hop_by_hop\<close>) and of the response head
  (\<open>forward_response_head_gated\<close>) are parameters. Timeouts are errors of the scripts, so arming and
  clearing them leaves no trace here.
\<close>

section \<open>Sockets and the forwarder's state\<close>

record upstream =
  up_reads :: read_script
  up_sent :: bytes
  up_fault :: "io_kind option"

record 'addr forwarder =
  conns :: "('addr, upstream) conn_pool option"
  dials :: "(io_kind + upstream) list"
  idle_relay :: "relay option"
  pipes :: "relay option list"

definition upstream_write :: "upstream \<Rightarrow> bytes \<Rightarrow> io_kind + upstream" where
  "upstream_write up bs =
     (case up_fault up of Some e \<Rightarrow> Inl e | None \<Rightarrow> Inr (up\<lparr> up_sent := up_sent up @ bs \<rparr>))"

text \<open>One connect; a script of dials that has run out times out.\<close>

definition connect_timeout :: "'addr forwarder \<Rightarrow> (io_kind + upstream) \<times> 'addr forwarder" where
  "connect_timeout e = (case dials e of [] \<Rightarrow> (Inl TimedOut, e) | d # ds \<Rightarrow> (d, e\<lparr> dials := ds \<rparr>))"

definition note_pool :: "(('addr, upstream) conn_pool \<Rightarrow> ('addr, upstream) conn_pool) \<Rightarrow> 'addr forwarder \<Rightarrow> 'addr forwarder" where
  "note_pool g e = e\<lparr> conns := map_option g (conns e) \<rparr>"

section \<open>Dialling\<close>

definition dial_fresh :: "'addr forwarder \<Rightarrow> (io_kind + upstream \<times> bool) \<times> 'addr forwarder" where
  "dial_fresh e =
     (case connect_timeout e of
        (Inl k, e') \<Rightarrow> (Inl k, e')
      | (Inr up, e') \<Rightarrow> (Inr (up, False), e'))"

definition dial_or_reuse ::
  "(upstream \<Rightarrow> bool) \<Rightarrow> nat \<Rightarrow> 'addr forwarder \<Rightarrow> 'addr \<Rightarrow> (io_kind + upstream \<times> bool) \<times> 'addr forwarder" where
  "dial_or_reuse is_reusable now e addr =
     (case conns e of
        None \<Rightarrow> dial_fresh e
      | Some pool \<Rightarrow>
          (case checkout is_reusable now pool addr of
             (Some up, pool') \<Rightarrow> (Inr (up, True), e\<lparr> conns := Some (note_reused pool') \<rparr>)
           | (None, pool') \<Rightarrow> dial_fresh (e\<lparr> conns := Some (note_dialed pool') \<rparr>)))"

definition return_to_pool :: "nat \<Rightarrow> 'addr forwarder \<Rightarrow> 'addr \<Rightarrow> upstream \<Rightarrow> 'addr forwarder" where
  "return_to_pool now e addr up = note_pool (\<lambda>pool. checkin now pool addr up) e"

section \<open>The response head\<close>

record upstream_head =
  uh_up :: upstream
  uh_buf :: bytes
  uh_head_end :: nat
  uh_clen :: "nat option"
  uh_chunked :: bool

definition READ_BLOCK :: nat where "READ_BLOCK = 16384"

text \<open>
  The read loop both readers share: blocks until the end of the head is in the buffer. The left result
  is the error of a read, or \<open>None\<close> when the upstream closed first; the buffer is what was read.
\<close>

function head_loop :: "read_script \<Rightarrow> bytes \<Rightarrow> ((io_kind option + nat) \<times> bytes \<times> read_script) option" where
  "head_loop us buf =
     (case find buf (CRLF @ CRLF) of
        Some p \<Rightarrow> Some (Inr (p + 4), buf, us)
      | None \<Rightarrow>
          (case read_some READ_BLOCK us of
             None \<Rightarrow> None
           | Some (Inl k, us') \<Rightarrow> Some (Inl (Some k), buf, us')
           | Some (Inr bs, us') \<Rightarrow>
               if bs = [] then Some (Inl None, buf, us') else head_loop us' (buf @ bs)))"
  by pat_completeness auto
termination
  by (relation "measure (\<lambda>(us, _). script_size us)")
    (auto simp: READ_BLOCK_def dest: read_some_size [rotated])

declare head_loop.simps [simp del]

definition send_and_read_head :: "upstream \<Rightarrow> bytes \<Rightarrow> (io_kind + upstream_head) option" where
  "send_and_read_head up forward =
     (case upstream_write up forward of
        Inl k \<Rightarrow> Some (Inl k)
      | Inr up1 \<Rightarrow>
          (case head_loop (up_reads up1) [] of
             None \<Rightarrow> None
           | Some (Inl (Some k), buf, us) \<Rightarrow> Some (Inl k)
           | Some (Inl None, buf, us) \<Rightarrow> Some (Inl UnexpectedEof)
           | Some (Inr head_end, buf, us) \<Rightarrow>
               Some (Inr \<lparr> uh_up = up1\<lparr> up_reads := us \<rparr>, uh_buf = buf, uh_head_end = head_end,
                           uh_clen = content_length (take head_end buf),
                           uh_chunked = is_chunked (take head_end buf) \<rparr>)))"

definition dial_and_read_head ::
  "(bytes \<Rightarrow> bytes) \<Rightarrow> (upstream \<Rightarrow> bool) \<Rightarrow> nat \<Rightarrow> 'addr forwarder \<Rightarrow> 'addr \<Rightarrow> bytes
     \<Rightarrow> ((io_kind + upstream_head) \<times> 'addr forwarder) option" where
  "dial_and_read_head forward_request is_reusable now e addr req =
     (let forward = forward_request req in
      case dial_or_reuse is_reusable now e addr of
        (Inl k, e1) \<Rightarrow> Some (Inl k, e1)
      | (Inr (up, warm), e1) \<Rightarrow>
          (case send_and_read_head up forward of
             None \<Rightarrow> None
           | Some (Inr uh) \<Rightarrow> Some (Inr uh, e1)
           | Some (Inl k) \<Rightarrow>
               if warm then
                 (case connect_timeout (note_pool note_dialed e1) of
                    (Inl k', e2) \<Rightarrow> Some (Inl k', e2)
                  | (Inr fresh, e2) \<Rightarrow> map_option (\<lambda>r. (r, e2)) (send_and_read_head fresh forward))
               else Some (Inl k, e1)))"

definition client_resp_head :: "(bytes \<Rightarrow> bytes option) \<Rightarrow> bytes \<Rightarrow> bool \<Rightarrow> bytes option" where
  "client_resp_head gated raw_head keepalive =
     (case gated raw_head of None \<Rightarrow> None | Some head \<Rightarrow> Some (annotate_connection head keepalive))"

definition refuse_upstream_head :: "client \<Rightarrow> streamed \<times> client" where
  "refuse_upstream_head c =
     (let resp = bad_gateway; (wrote, c') = write_all c resp in
      (\<lparr> st_head = resp, st_bytes = (if wrote then length resp else 0),
         st_keepalive = False, st_complete = False \<rparr>, c'))"

definition maybe_pool_upstream ::
  "nat \<Rightarrow> 'addr forwarder \<Rightarrow> 'addr \<Rightarrow> upstream \<Rightarrow> nat option \<Rightarrow> bool \<Rightarrow> bool \<Rightarrow> 'addr forwarder" where
  "maybe_pool_upstream now e addr up clen complete upstream_reusable =
     (if complete \<and> clen \<noteq> None \<and> upstream_reusable then return_to_pool now e addr up else e)"

section \<open>The kernel relay of a thread\<close>

definition relay_new :: "'addr forwarder \<Rightarrow> relay option \<times> 'addr forwarder" where
  "relay_new e = (case pipes e of [] \<Rightarrow> (None, e) | r # rs \<Rightarrow> (r, e\<lparr> pipes := rs \<rparr>))"

definition relay_acquire :: "'addr forwarder \<Rightarrow> relay option \<times> 'addr forwarder" where
  "relay_acquire e =
     (case idle_relay e of
        Some r \<Rightarrow> (Some r, e\<lparr> idle_relay := None \<rparr>)
      | None \<Rightarrow> relay_new e)"

definition relay_release :: "relay \<Rightarrow> 'addr forwarder \<Rightarrow> 'addr forwarder" where
  "relay_release r e = (if idle_relay e = None then e\<lparr> idle_relay := Some r \<rparr> else e)"

section \<open>Relaying the body\<close>

type_synonym 'addr body_pump =
  "(bool \<times> client \<times> read_script \<times> nat \<times> 'addr forwarder) option"

text \<open>The body of the portable \<open>forward_streaming\<close>: all framings in userspace.\<close>

definition pump_body :: "upstream_head \<Rightarrow> client \<Rightarrow> nat \<Rightarrow> bool \<Rightarrow> 'addr forwarder \<Rightarrow> 'addr body_pump" where
  "pump_body uh c bytes sse e =
     (let leftover = drop (uh_head_end uh) (uh_buf uh); us = up_reads (uh_up uh) in
      map_option (\<lambda>(ok, c', us', bytes'). (ok, c', us', bytes', e))
        (case uh_clen uh of
           Some clen \<Rightarrow> stream_fixed us c leftover clen bytes sse
         | None \<Rightarrow>
             if uh_chunked uh then stream_chunked us c leftover bytes sse
             else stream_to_eof us c leftover bytes sse))"

text \<open>The body of \<open>forward_streaming_spliced\<close>: what the head's reads brought in userspace, the rest of a
  fixed-length or close-delimited body by the relay.\<close>

definition relay_fixed :: "read_script \<Rightarrow> client \<Rightarrow> nat \<Rightarrow> nat \<Rightarrow> bool \<Rightarrow> 'addr forwarder \<Rightarrow> 'addr body_pump" where
  "relay_fixed us c remaining bytes sse e =
     (case relay_acquire e of
        (None, e1) \<Rightarrow>
          map_option (\<lambda>(ok, c', us', bytes'). (ok, c', us', bytes', e1)) (stream_fixed us c [] remaining bytes sse)
      | (Some r, e1) \<Rightarrow>
          (case move_exact us c r remaining bytes True of
             None \<Rightarrow> None
           | Some (Ran ok, c', us', r', bytes') \<Rightarrow>
               Some (ok, c', us', bytes', if ok then relay_release r' e1 else e1)
           | Some (Unsupported, c', us', r', bytes') \<Rightarrow>
               map_option (\<lambda>(ok, c2, us2, bytes2). (ok, c2, us2, bytes2, relay_release r' e1))
                 (stream_fixed us' c' [] remaining bytes' sse)))"

definition relay_to_eof :: "read_script \<Rightarrow> client \<Rightarrow> nat \<Rightarrow> bool \<Rightarrow> 'addr forwarder \<Rightarrow> 'addr body_pump" where
  "relay_to_eof us c bytes sse e =
     (case relay_acquire e of
        (None, e1) \<Rightarrow>
          map_option (\<lambda>(ok, c', us', bytes'). (ok, c', us', bytes', e1)) (stream_to_eof us c [] bytes sse)
      | (Some r, e1) \<Rightarrow>
          (case move_to_eof us c r bytes True of
             None \<Rightarrow> None
           | Some (Ran ok, c', us', r', bytes') \<Rightarrow>
               Some (ok, c', us', bytes', if ok then relay_release r' e1 else e1)
           | Some (Unsupported, c', us', r', bytes') \<Rightarrow>
               map_option (\<lambda>(ok, c2, us2, bytes2). (ok, c2, us2, bytes2, relay_release r' e1))
                 (stream_to_eof us' c' [] bytes' sse)))"

definition splice_body :: "upstream_head \<Rightarrow> client \<Rightarrow> nat \<Rightarrow> bool \<Rightarrow> 'addr forwarder \<Rightarrow> 'addr body_pump" where
  "splice_body uh c bytes sse e =
     (let leftover = drop (uh_head_end uh) (uh_buf uh); us = up_reads (uh_up uh) in
      case uh_clen uh of
        Some clen \<Rightarrow>
          (let n = min (length leftover) clen;
               (wrote, c1) = (if 0 < n then write_all c (take n leftover) else (True, c))
           in if \<not> wrote then Some (False, c1, us, bytes, e)
              else if clen - n = 0 then Some (True, c1, us, bytes + n, e)
              else relay_fixed us c1 (clen - n) (bytes + n) sse e)
      | None \<Rightarrow>
          if uh_chunked uh then
            map_option (\<lambda>(ok, c', us', bytes'). (ok, c', us', bytes', e)) (stream_chunked us c leftover bytes sse)
          else
            (let (wrote, c1) = (if leftover \<noteq> [] then write_all c leftover else (True, c))
             in if \<not> wrote then Some (False, c1, us, bytes, e)
                else relay_to_eof us c1 (bytes + length leftover) sse e))"

text \<open>The forward around a body pump; the two forwards of the source differ only in the pump.\<close>

definition forward_streaming_with ::
  "(upstream_head \<Rightarrow> client \<Rightarrow> nat \<Rightarrow> bool \<Rightarrow> 'addr forwarder \<Rightarrow> 'addr body_pump)
     \<Rightarrow> (bytes \<Rightarrow> bytes) \<Rightarrow> (bytes \<Rightarrow> bytes option) \<Rightarrow> (upstream \<Rightarrow> bool) \<Rightarrow> nat
     \<Rightarrow> 'addr \<Rightarrow> bytes \<Rightarrow> bool \<Rightarrow> client \<Rightarrow> 'addr forwarder
     \<Rightarrow> ((io_kind + streamed) \<times> client \<times> 'addr forwarder) option" where
  "forward_streaming_with body forward_request gated is_reusable now addr req keepalive_req c e =
     (case dial_and_read_head forward_request is_reusable now e addr req of
        None \<Rightarrow> None
      | Some (Inl k, e1) \<Rightarrow> Some (Inl k, c, e1)
      | Some (Inr uh, e1) \<Rightarrow>
          (let raw = take (uh_head_end uh) (uh_buf uh);
               keepalive = (keepalive_req \<and> (uh_clen uh \<noteq> None \<or> uh_chunked uh));
               upstream_reusable = resp_upstream_keepalive raw;
               sse = is_event_stream raw
           in case client_resp_head gated raw keepalive of
                None \<Rightarrow> (let (s, c1) = refuse_upstream_head c in Some (Inr s, c1, e1))
              | Some head \<Rightarrow>
                  (case write_all c head of
                     (False, c1) \<Rightarrow>
                       Some (Inr \<lparr> st_head = head, st_bytes = 0, st_keepalive = False, st_complete = False \<rparr>, c1, e1)
                   | (True, c1) \<Rightarrow>
                       (case body uh (if sse then snd (flush_client c1) else c1) (length head) sse e1 of
                          None \<Rightarrow> None
                        | Some (complete, c2, us, bytes, e2) \<Rightarrow>
                            Some (Inr \<lparr> st_head = head, st_bytes = bytes, st_keepalive = (keepalive \<and> complete),
                                        st_complete = complete \<rparr>, c2,
                                  maybe_pool_upstream now e2 addr ((uh_up uh)\<lparr> up_reads := us \<rparr>) (uh_clen uh)
                                    complete upstream_reusable)))))"

definition forward_streaming ::
  "(bytes \<Rightarrow> bytes) \<Rightarrow> (bytes \<Rightarrow> bytes option) \<Rightarrow> (upstream \<Rightarrow> bool) \<Rightarrow> nat
     \<Rightarrow> 'addr \<Rightarrow> bytes \<Rightarrow> bool \<Rightarrow> client \<Rightarrow> 'addr forwarder
     \<Rightarrow> ((io_kind + streamed) \<times> client \<times> 'addr forwarder) option" where
  "forward_streaming = forward_streaming_with pump_body"

definition forward_streaming_spliced ::
  "(bytes \<Rightarrow> bytes) \<Rightarrow> (bytes \<Rightarrow> bytes option) \<Rightarrow> (upstream \<Rightarrow> bool) \<Rightarrow> nat
     \<Rightarrow> 'addr \<Rightarrow> bytes \<Rightarrow> bool \<Rightarrow> client \<Rightarrow> 'addr forwarder
     \<Rightarrow> ((io_kind + streamed) \<times> client \<times> 'addr forwarder) option" where
  "forward_streaming_spliced = forward_streaming_with splice_body"

section \<open>The buffered forward\<close>

text \<open>The body loops of \<open>read_response\<close>: until \<open>want\<close> bytes are buffered, or to the end of the stream.\<close>

function body_loop :: "nat option \<Rightarrow> read_script \<Rightarrow> bytes \<Rightarrow> ((io_kind + bytes) \<times> read_script) option" where
  "body_loop want us buf =
     (if (case want of Some w \<Rightarrow> w \<le> length buf | None \<Rightarrow> False) then Some (Inr buf, us)
      else case read_some READ_BLOCK us of
             None \<Rightarrow> None
           | Some (Inl k, us') \<Rightarrow> Some (Inl k, us')
           | Some (Inr bs, us') \<Rightarrow> if bs = [] then Some (Inr buf, us') else body_loop want us' (buf @ bs))"
  by pat_completeness auto
termination
  by (relation "measure (\<lambda>(_, us, _). script_size us)")
    (auto simp: READ_BLOCK_def dest: read_some_size [rotated])

declare body_loop.simps [simp del]

definition read_response :: "read_script \<Rightarrow> ((io_kind + bytes) \<times> read_script) option" where
  "read_response us =
     (case head_loop us [] of
        None \<Rightarrow> None
      | Some (Inl (Some k), buf, us') \<Rightarrow> Some (Inl k, us')
      | Some (Inl None, buf, us') \<Rightarrow> Some (Inr buf, us')
      | Some (Inr head_end, buf, us') \<Rightarrow>
          body_loop (map_option (\<lambda>clen. head_end + clen) (content_length (take head_end buf))) us' buf)"

definition forward_once :: "upstream \<Rightarrow> bytes \<Rightarrow> (io_kind + bytes \<times> upstream) option" where
  "forward_once up forward_bytes =
     (case upstream_write up forward_bytes of
        Inl k \<Rightarrow> Some (Inl k)
      | Inr up1 \<Rightarrow>
          (case read_response (up_reads up1) of
             None \<Rightarrow> None
           | Some (Inl k, us) \<Rightarrow> Some (Inl k)
           | Some (Inr resp, us) \<Rightarrow> Some (Inr (resp, up1\<lparr> up_reads := us \<rparr>))))"

text \<open>The check-in decision at the end of \<open>forward\<close>.\<close>

definition pool_after ::
  "(bytes \<Rightarrow> bytes option) \<Rightarrow> nat \<Rightarrow> 'addr forwarder \<Rightarrow> 'addr \<Rightarrow> bytes \<Rightarrow> upstream \<Rightarrow> 'addr forwarder" where
  "pool_after gated now e addr resp up =
     (case find resp (CRLF @ CRLF) of
        None \<Rightarrow> e
      | Some p \<Rightarrow>
          (let he = p + 4; head = take he resp in
           if gated head = None then e
           else case content_length head of
                  None \<Rightarrow> e
                | Some clen \<Rightarrow>
                    if length resp = he + clen \<and> resp_upstream_keepalive head
                    then return_to_pool now e addr up else e))"

definition forward ::
  "(bytes \<Rightarrow> bytes) \<Rightarrow> (bytes \<Rightarrow> bytes option) \<Rightarrow> (upstream \<Rightarrow> bool) \<Rightarrow> nat
     \<Rightarrow> 'addr \<Rightarrow> bytes \<Rightarrow> 'addr forwarder \<Rightarrow> ((io_kind + bytes) \<times> 'addr forwarder) option" where
  "forward strip_hop_by_hop gated is_reusable now addr req e =
     (let forward_bytes = strip_hop_by_hop req in
      case dial_or_reuse is_reusable now e addr of
        (Inl k, e1) \<Rightarrow> Some (Inl k, e1)
      | (Inr (up, warm), e1) \<Rightarrow>
          (case forward_once up forward_bytes of
             None \<Rightarrow> None
           | Some (Inr (resp, up1)) \<Rightarrow> Some (Inr resp, pool_after gated now e1 addr resp up1)
           | Some (Inl k) \<Rightarrow>
               if warm then
                 (case connect_timeout (note_pool note_dialed e1) of
                    (Inl k', e2) \<Rightarrow> Some (Inl k', e2)
                  | (Inr fresh, e2) \<Rightarrow>
                      (case forward_once fresh forward_bytes of
                         None \<Rightarrow> None
                       | Some (Inl k') \<Rightarrow> Some (Inl k', e2)
                       | Some (Inr (resp, up1)) \<Rightarrow> Some (Inr resp, pool_after gated now e2 addr resp up1)))
               else Some (Inl k, e1)))"

section \<open>The two forwards are one to the client\<close>

lemma stream_fixed_reliable:
  assumes "faults c = []"
  shows "pumped (stream_fixed us c leftover n bytes flush) =
           exact_pump us (c\<lparr> sent := sent c @ take n leftover \<rparr>) (n - length leftover) (bytes + min (length leftover) n)"
  using assms
  by (auto simp: stream_fixed_def Let_def write_block_reliable fixed_loop_reliable min_def)

lemma stream_to_eof_reliable:
  assumes "faults c = []"
  shows "pumped (stream_to_eof us c leftover bytes flush) =
           eof_pump us (c\<lparr> sent := sent c @ leftover \<rparr>) (bytes + length leftover)"
  using assms by (auto simp: stream_to_eof_def write_block_reliable eof_loop_reliable)

definition client_view :: "'addr body_pump \<Rightarrow> (bool \<times> client \<times> nat) option" where
  "client_view p = map_option (\<lambda>(ok, c, us, bytes, e). (ok, c, bytes)) p"

lemma client_view_simps [simp]:
  "client_view None = None"
  "client_view (Some (ok, c, us, bytes, e)) = Some (ok, c, bytes)"
  by (simp_all add: client_view_def)

lemma client_view_pumped [simp]:
  "client_view (map_option (\<lambda>(ok, c, us, bytes). (ok, c, us, bytes, e)) p) = pumped p"
  by (cases p) (auto simp: client_view_def pumped_def)

definition relays_good :: "'addr forwarder \<Rightarrow> bool" where
  "relays_good e \<longleftrightarrow>
     (\<forall>r. idle_relay e = Some r \<or> Some r \<in> set (pipes e) \<longrightarrow> good_drains r \<and> pipe r = [])"

lemma relay_acquire_good:
  assumes "relay_acquire e = (Some r, e1)" "relays_good e"
  shows "good_drains r" "pipe r = []"
  using assms by (auto simp: relay_acquire_def relay_new_def relays_good_def split: option.splits list.splits)

lemma move_exact_supported:
  assumes "Inl InvalidSplice \<notin> set us"
  shows "move_exact us c r n bytes first \<noteq> Some (Unsupported, x)"
proof (cases "n = 0")
  case False
  show ?thesis
  proof (cases us rule: read_cases [of "min n SPLICE_CHUNK"])
    case (Failed e us1)
    then show ?thesis
      using read_some_set(2) [OF Failed] assms False by (auto simp: move_exact.simps)
  next
    case (Block bs us1)
    then show ?thesis
      using False move_exact_later by (subst move_exact.simps) (auto split: prod.splits)
  qed (use False in \<open>auto simp: move_exact.simps\<close>)
qed (simp add: move_exact.simps)

lemma move_to_eof_supported:
  assumes "Inl InvalidSplice \<notin> set us"
  shows "move_to_eof us c r bytes first \<noteq> Some (Unsupported, x)"
proof (cases us rule: read_cases [of SPLICE_CHUNK])
  case (Failed e us1)
  then show ?thesis
    using read_some_set(2) [OF Failed] assms by (auto simp: move_to_eof.simps)
next
  case (Block bs us1)
  then show ?thesis
    using move_to_eof_later by (subst move_to_eof.simps) (auto split: prod.splits)
qed (auto simp: move_to_eof.simps)

lemma relay_fixed_reliable:
  assumes "faults c = []" "relays_good e" "Inl InvalidSplice \<notin> set us"
  shows "client_view (relay_fixed us c n bytes sse e) = exact_pump us c n bytes"
proof (cases "relay_acquire e")
  case (Pair r e1)
  show ?thesis
  proof (cases r)
    case None
    then show ?thesis
      using Pair assms(1) by (simp add: relay_fixed_def stream_fixed_reliable)
  next
    case (Some r')
    note good = relay_acquire_good [OF Pair [unfolded Some] assms(2)]
    have "client_view (relay_fixed us c n bytes sse e) = spliced (move_exact us c r' n bytes True)"
      using Pair Some move_exact_supported [OF assms(3)]
      by (auto simp: relay_fixed_def split: option.split relay_outcome.split)
    then show ?thesis
      using move_exact_reliable [OF good assms(3)] by simp
  qed
qed

lemma relay_to_eof_reliable:
  assumes "faults c = []" "relays_good e" "Inl InvalidSplice \<notin> set us"
  shows "client_view (relay_to_eof us c bytes sse e) = eof_pump us c bytes"
proof (cases "relay_acquire e")
  case (Pair r e1)
  show ?thesis
  proof (cases r)
    case None
    then show ?thesis
      using Pair assms(1) by (simp add: relay_to_eof_def stream_to_eof_reliable)
  next
    case (Some r')
    note good = relay_acquire_good [OF Pair [unfolded Some] assms(2)]
    have "client_view (relay_to_eof us c bytes sse e) = spliced (move_to_eof us c r' bytes True)"
      using Pair Some move_to_eof_supported [OF assms(3)]
      by (auto simp: relay_to_eof_def split: option.split relay_outcome.split)
    then show ?thesis
      using move_to_eof_reliable [OF good assms(3)] by simp
  qed
qed

lemma splice_body_view:
  assumes "faults c = []" "relays_good e" "Inl InvalidSplice \<notin> set (up_reads (uh_up uh))"
  shows "client_view (splice_body uh c bytes sse e) = client_view (pump_body uh c bytes sse e)"
proof (cases "uh_clen uh")
  case None
  then show ?thesis
    using assms relay_to_eof_reliable [OF _ assms(2,3)]
    by (simp add: splice_body_def pump_body_def Let_def write_all_reliable stream_to_eof_reliable)
next
  case (Some n)
  then show ?thesis
    using assms relay_fixed_reliable [OF _ assms(2,3)]
    by (auto simp: splice_body_def pump_body_def Let_def write_all_reliable stream_fixed_reliable exact_pump_zero)
qed

lemma connect_timeout_relays:
  "connect_timeout e = (r, e1) \<Longrightarrow> idle_relay e1 = idle_relay e \<and> pipes e1 = pipes e"
  by (auto simp: connect_timeout_def split: list.splits)

lemma dial_fresh_relays:
  "dial_fresh e = (r, e1) \<Longrightarrow> idle_relay e1 = idle_relay e \<and> pipes e1 = pipes e"
  by (auto simp: dial_fresh_def dest: connect_timeout_relays split: prod.splits sum.splits)

lemma dial_or_reuse_relays:
  "dial_or_reuse is_reusable now e addr = (r, e1) \<Longrightarrow> idle_relay e1 = idle_relay e \<and> pipes e1 = pipes e"
  by (auto simp: dial_or_reuse_def dest: dial_fresh_relays split: option.splits prod.splits)

lemma dial_and_read_head_relays:
  assumes "dial_and_read_head forward_request is_reusable now e addr req = Some (r, e1)"
  shows "idle_relay e1 = idle_relay e \<and> pipes e1 = pipes e"
  using assms
  by (auto simp: dial_and_read_head_def Let_def note_pool_def
      dest!: dial_or_reuse_relays connect_timeout_relays split: prod.splits sum.splits option.splits if_splits)

definition forward_view ::
  "((io_kind + streamed) \<times> client \<times> 'addr forwarder) option \<Rightarrow> ((io_kind + streamed) \<times> client) option" where
  "forward_view p = map_option (\<lambda>(r, c, e). (r, c)) p"

lemma forward_view_simps [simp]:
  "forward_view None = None"
  "forward_view (Some (r, c, e)) = Some (r, c)"
  by (simp_all add: forward_view_def)

lemma forward_view_body:
  assumes "client_view p = client_view q"
  shows "forward_view (case p of None \<Rightarrow> None | Some (ok, c, us, bytes, e) \<Rightarrow> Some (f ok bytes, c, g ok us e)) =
         forward_view (case q of None \<Rightarrow> None | Some (ok, c, us, bytes, e) \<Rightarrow> Some (f ok bytes, c, h ok us e))"
  using assms by (cases p; cases q) (auto simp: client_view_def split: prod.splits)

lemma forward_with_view:
  assumes "dial_and_read_head forward_request is_reusable now e addr req = Some (Inr uh, e1)" "faults c = []"
    and same: "\<And>c' n sse. faults c' = [] \<Longrightarrow> client_view (b1 uh c' n sse e1) = client_view (b2 uh c' n sse e1)"
  shows "forward_view (forward_streaming_with b1 forward_request gated is_reusable now addr req keepalive_req c e) =
         forward_view (forward_streaming_with b2 forward_request gated is_reusable now addr req keepalive_req c e)"
proof (cases "client_resp_head gated (take (uh_head_end uh) (uh_buf uh))
    (keepalive_req \<and> (uh_clen uh \<noteq> None \<or> uh_chunked uh))")
  case None
  then show ?thesis
    using assms(1) by (simp add: forward_streaming_with_def Let_def)
next
  case (Some head)
  let ?c = "c\<lparr> sent := sent c @ head \<rparr>"
  have "client_view (b1 uh ?c n sse e1) = client_view (b2 uh ?c n sse e1)" for n sse
    using same assms(2) by simp
  note view = forward_view_body [OF this]
  show ?thesis
    using Some assms(1,2)
    by (simp add: forward_streaming_with_def Let_def write_all_reliable flush_client_reliable del: not_None_eq)
      (intro conjI impI view)
qed

text \<open>
  C13: The kernel relay and the portable pump are one to the client: with a client that accepts what
  it is sent and a socket that can be spliced, the two forwards return the same outcome (waiting,
  error, or the same head, byte count, disposition and completeness) and put the same bytes on the
  wire, for every framing, every cut of the upstream's stream into reads and every short splice.
\<close>

theorem spliced_forward_is_portable:
  assumes "faults c = []" "relays_good e"
    and "\<And>uh e1. dial_and_read_head forward_request is_reusable now e addr req = Some (Inr uh, e1)
           \<Longrightarrow> Inl InvalidSplice \<notin> set (up_reads (uh_up uh))"
  shows "forward_view (forward_streaming_spliced forward_request gated is_reusable now addr req keepalive_req c e) =
         forward_view (forward_streaming forward_request gated is_reusable now addr req keepalive_req c e)"
proof (cases "dial_and_read_head forward_request is_reusable now e addr req")
  case (Some d)
  obtain r e1 where d: "d = (r, e1)" by fastforce
  show ?thesis
  proof (cases r)
    case (Inr uh)
    have good: "relays_good e1"
      using dial_and_read_head_relays Some d assms(2) by (fastforce simp: relays_good_def)
    have ready: "Inl InvalidSplice \<notin> set (up_reads (uh_up uh))"
      using assms(3) Some d Inr by simp
    show ?thesis
      unfolding forward_streaming_spliced_def forward_streaming_def
      using forward_with_view [OF Some [unfolded d Inr] assms(1)] splice_body_view [OF _ good ready] by blast
  qed (use Some d in \<open>simp add: forward_streaming_spliced_def forward_streaming_def forward_streaming_with_def\<close>)
qed (simp add: forward_streaming_spliced_def forward_streaming_def forward_streaming_with_def)

definition sample_upstream :: "bytes list \<Rightarrow> upstream" where
  "sample_upstream bs = \<lparr> up_reads = map Inr bs, up_sent = [], up_fault = None \<rparr>"

definition sample_head :: bytes where
  "sample_head = ascii ''HTTP/1.1 200 OK'' @ CRLF @ ascii ''Content-Length: 3'' @ CRLF @ CRLF"

definition sample_forwarder :: "bytes list \<Rightarrow> nat forwarder" where
  "sample_forwarder bs = \<lparr> conns = Some (conn_pool_new 4 90), dials = [Inr (sample_upstream bs)],
     idle_relay = None, pipes = [Some \<lparr> pipe = [], drains = [Inr 1] \<rparr>] \<rparr>"

lemma sample_head_lines:
  "lf_lines sample_head = [ascii ''HTTP/1.1 200 OK'', ascii ''Content-Length: 3'', [], []]"
  by (simp add: sample_head_def lf_lines_def strip_cr_def ends_with_def)

lemma sample_head_facts:
  "find (sample_head @ xs) (CRLF @ CRLF) = Some 34" "length sample_head = 38"
  "content_length sample_head = Some 3" "\<not> is_chunked sample_head" "resp_upstream_keepalive sample_head"
  "\<not> is_event_stream sample_head"
proof -
  have "find_sub sample_head (CRLF @ CRLF) = Some 34"
    by (simp add: sample_head_def find_sub_def)
  then show "find (sample_head @ xs) (CRLF @ CRLF) = Some 34"
    by (simp add: find_def find_sub_append)
  show "length sample_head = 38"
    by (simp add: sample_head_def)
qed (simp_all add: sample_head_lines content_length_def is_chunked_def resp_upstream_keepalive_def
  is_event_stream_def eq_ignore_ascii_case_def to_ascii_lowercase_def trim_ascii_def trim_by_def trim_start_by_def
  trim_end_by_def is_ascii_whitespace_def str_trim_def utf8_valid_def utf8_chars.simps is_unicode_whitespace_def
  parse_uint_def is_ascii_digit_def connection_tokens_def header_name_lower_def Let_def)

lemma sample_head_nonempty: "sample_head \<noteq> []"
  by (simp add: sample_head_def)

lemma sample_dial:
  assumes "length b \<le> 100"
  shows "dial_and_read_head id (\<lambda>_. True) 0 (sample_forwarder ((sample_head @ b) # bs)) 7 [] =
    Some (Inr \<lparr> uh_up = sample_upstream bs, uh_buf = sample_head @ b, uh_head_end = 38, uh_clen = Some 3,
                uh_chunked = False \<rparr>,
          (sample_forwarder ((sample_head @ b) # bs))\<lparr> dials := [], conns := Some (note_dialed (conn_pool_new 4 90)) \<rparr>)"
proof -
  have none: "find [] (CRLF @ CRLF) = None"
    by (simp add: find_def find_sub_def)
  have "head_loop (Inr (sample_head @ b) # map Inr bs) [] = Some (Inr 38, sample_head @ b, map Inr bs)"
    using assms sample_head_facts(1) [of b] none sample_head_nonempty
    by (subst head_loop.simps, subst head_loop.simps)
      (simp add: READ_BLOCK_def sample_head_facts(2))
  then show ?thesis
    using sample_head_facts(2-4)
    by (simp add: dial_and_read_head_def dial_or_reuse_def sample_forwarder_def conn_pool_new_def checkout_def
        note_dialed_def dial_fresh_def connect_timeout_def send_and_read_head_def upstream_write_def
        sample_upstream_def)
qed

theorem spliced_forward_is_portable_witness:
  "forward_view (forward_streaming_spliced id Some (\<lambda>_. True) 0 7 [] True \<lparr> sent = [], faults = [] \<rparr>
     (sample_forwarder [sample_head @ ascii ''a'', ascii ''bc''])) =
   forward_view (forward_streaming id Some (\<lambda>_. True) 0 7 [] True \<lparr> sent = [], faults = [] \<rparr>
     (sample_forwarder [sample_head @ ascii ''a'', ascii ''bc'']))"
proof (rule spliced_forward_is_portable)
  show "relays_good (sample_forwarder [sample_head @ ascii ''a'', ascii ''bc''])"
    by (simp add: relays_good_def sample_forwarder_def good_drains_def)
  show "Inl InvalidSplice \<notin> set (up_reads (uh_up uh))"
    if "dial_and_read_head id (\<lambda>_. True) 0 (sample_forwarder [sample_head @ ascii ''a'', ascii ''bc'']) 7 [] =
        Some (Inr uh, e1)" for uh e1
    using that sample_dial [of "ascii ''a''" "[ascii ''bc'']"] by (auto simp: sample_upstream_def)
qed simp

section \<open>Sockets go back to the pool between two messages\<close>

lemma relay_release_conns [simp]: "conns (relay_release r e) = conns e"
  by (simp add: relay_release_def)

lemma relay_acquire_conns: "relay_acquire e = (x, e1) \<Longrightarrow> conns e1 = conns e"
  by (auto simp: relay_acquire_def relay_new_def split: option.splits list.splits)

lemma relay_fixed_conns:
  assumes "relay_fixed us c n bytes sse e = Some (ok, c', us', bytes', e')"
  shows "conns e' = conns e"
proof (cases "relay_acquire e")
  case (Pair x e1)
  then show ?thesis
    using assms relay_acquire_conns [OF Pair]
    by (auto simp: relay_fixed_def split: option.splits relay_outcome.splits if_splits)
qed

lemma relay_to_eof_conns:
  assumes "relay_to_eof us c bytes sse e = Some (ok, c', us', bytes', e')"
  shows "conns e' = conns e"
proof (cases "relay_acquire e")
  case (Pair x e1)
  then show ?thesis
    using assms relay_acquire_conns [OF Pair]
    by (auto simp: relay_to_eof_def split: option.splits relay_outcome.splits if_splits)
qed

lemma splice_body_conns:
  assumes "splice_body uh c bytes sse e = Some (ok, c', us', bytes', e')"
  shows "conns e' = conns e"
proof (cases "uh_clen uh")
  case None
  then show ?thesis
    using assms relay_to_eof_conns by (auto simp: splice_body_def Let_def split: if_splits prod.splits)
next
  case (Some n)
  then show ?thesis
    using assms relay_fixed_conns by (auto simp: splice_body_def Let_def split: if_splits prod.splits)
qed

lemma relay_fixed_boundary:
  assumes "relay_fixed us c n bytes sse e = Some (True, c', us', bytes', e')"
    and "fst (relay_acquire e) \<noteq> None" "Inl InvalidSplice \<notin> set us"
  shows "n \<le> length (delivered us) \<and> delivered us' = drop n (delivered us)"
proof -
  obtain r e1 where r: "relay_acquire e = (Some r, e1)"
    using assms(2) by (cases "relay_acquire e") auto
  obtain out c1 us1 r1 b1 where m: "move_exact us c r n bytes True = Some (out, c1, us1, r1, b1)"
    using assms(1) r by (auto simp: relay_fixed_def split: option.splits)
  then obtain ok where ok: "out = Ran ok"
    using move_exact_supported [OF assms(3)] by (cases out) blast+
  then have "move_exact us c r n bytes True = Some (Ran True, c1, us', r1, b1)"
    using assms(1) r m by (auto simp: relay_fixed_def)
  then show ?thesis
    by (rule move_exact_boundary)
qed

lemma splice_body_boundary:
  assumes "splice_body uh c bytes sse e = Some (True, c', us', bytes', e')"
    and "uh_clen uh = Some n" "length (uh_buf uh) - uh_head_end uh \<le> n"
    and "fst (relay_acquire e) \<noteq> None" "Inl InvalidSplice \<notin> set (up_reads (uh_up uh))"
  shows "\<exists>body. length body = n \<and>
           uh_buf uh @ delivered (up_reads (uh_up uh)) = take (uh_head_end uh) (uh_buf uh) @ body @ delivered us'"
proof -
  let ?left = "drop (uh_head_end uh) (uh_buf uh)" and ?us = "up_reads (uh_up uh)"
  let ?m = "n - length ?left"
  have "?m \<le> length (delivered ?us) \<and> delivered us' = drop ?m (delivered ?us)"
  proof (cases "?m = 0")
    case True
    then have "us' = ?us"
      using assms(1,2,3) by (auto simp: splice_body_def Let_def min_def split: if_splits prod.splits)
    then show ?thesis
      using True by simp
  next
    case False
    then obtain c1 b1 where "relay_fixed ?us c1 ?m b1 sse e = Some (True, c', us', bytes', e')"
      using assms(1,2,3) by (auto simp: splice_body_def Let_def min_def split: if_splits prod.splits)
    then show ?thesis
      using relay_fixed_boundary assms(4,5) by blast
  qed
  moreover have "take h buf @ (drop h buf @ take k d) @ drop k d = buf @ d" for h k and buf d :: bytes
    by (metis append.assoc append_take_drop_id)
  ultimately show ?thesis
    using assms(3) by (intro exI [of _ "?left @ take ?m (delivered ?us)"]) simp
qed

text \<open>A forward that got a head: it refuses or fails before the body, or runs the body pump.\<close>

lemma forward_with_cases [consumes 2, case_names Early Body]:
  assumes "forward_streaming_with body forward_request gated is_reusable now addr req keepalive_req c e = Some (res, c', e')"
    and "dial_and_read_head forward_request is_reusable now e addr req = Some (Inr uh, e1)"
  obtains "e' = e1"
  | c1 n sse ok us bytes e2 s where "body uh c1 n sse e1 = Some (ok, c', us, bytes, e2)" "res = Inr s" "st_complete s = ok"
      "e' = maybe_pool_upstream now e2 addr ((uh_up uh)\<lparr> up_reads := us \<rparr>) (uh_clen uh) ok
              (resp_upstream_keepalive (take (uh_head_end uh) (uh_buf uh)))"
proof (cases "client_resp_head gated (take (uh_head_end uh) (uh_buf uh)) (keepalive_req \<and> (uh_clen uh \<noteq> None \<or> uh_chunked uh))")
  case None
  then have "e' = e1"
    using assms by (auto simp: forward_streaming_with_def Let_def split: prod.splits)
  then show ?thesis
    using that(1) by blast
next
  case (Some head)
  obtain w c1 where w: "write_all c head = (w, c1)"
    by fastforce
  show ?thesis
  proof (cases w)
    case False
    then have "e' = e1"
      using assms Some w by (auto simp: forward_streaming_with_def Let_def)
    then show ?thesis
      using that(1) by blast
  next
    case True
    let ?sse = "is_event_stream (take (uh_head_end uh) (uh_buf uh))"
    obtain ok c2 us bytes e2 where body:
        "body uh (if ?sse then snd (flush_client c1) else c1) (length head) ?sse e1 = Some (ok, c2, us, bytes, e2)"
      using assms Some w True by (auto simp: forward_streaming_with_def Let_def split: option.splits)
    then show ?thesis
      using assms Some w True that(2) [of _ _ _ ok us bytes e2] by (auto simp: forward_streaming_with_def Let_def)
  qed
qed


lemma sample_annotate: "annotate_connection [] k = []"
  by (simp add: annotate_connection_def find_sub_def)

lemma sample_forwarder_relays:
  "idle_relay (sample_forwarder bs) = None" "pipes (sample_forwarder bs) = [Some \<lparr> pipe = [], drains = [Inr 1] \<rparr>]"
  by (simp_all add: sample_forwarder_def)

lemma sample_spliced:
  "\<exists>s c' e'. forward_streaming_spliced id (\<lambda>_. Some []) (\<lambda>_. True) 0 7 [] True \<lparr> sent = [], faults = [] \<rparr>
       (sample_forwarder [sample_head @ ascii ''a'', ascii ''bcHT'']) = Some (Inr s, c', e') \<and> sent c' = ascii ''abc'' \<and>
     conns e' = Some (checkin 0 (note_dialed (conn_pool_new 4 90)) 7 (sample_upstream [ascii ''HT'']))"
  using sample_head_facts(2,5,6) sample_dial [of "ascii ''a''" "[ascii ''bcHT'']"]
  by (simp add: forward_streaming_spliced_def forward_streaming_with_def client_resp_head_def sample_annotate
      splice_body_def write_all_reliable Let_def relay_fixed_def relay_acquire_def relay_new_def
      sample_forwarder_relays move_exact.simps SPLICE_CHUNK_def drain.simps sample_upstream_def
      maybe_pool_upstream_def return_to_pool_def note_pool_def relay_release_def)


text \<open>
  The check-in rule looks only at the announced length, not at how far the head's reads went: an
  upstream whose first block carries a byte more than the announced body has that byte dropped, and its
  socket is still pooled although it no longer stands between two messages.
\<close>

theorem overread_socket_is_pooled:
  "\<exists>s c' e'. forward_streaming_spliced id (\<lambda>_. Some []) (\<lambda>_. True) 0 7 [] True \<lparr> sent = [], faults = [] \<rparr>
       (sample_forwarder [sample_head @ ascii ''abcH'', ascii ''TTP'']) = Some (Inr s, c', e') \<and>
     sent c' = ascii ''abc'' \<and> st_keepalive s \<and>
     conns e' = Some (checkin 0 (note_dialed (conn_pool_new 4 90)) 7 (sample_upstream [ascii ''TTP'']))"
  using sample_head_facts(2,5,6) sample_dial [of "ascii ''abcH''" "[ascii ''TTP'']"]
  by (simp add: forward_streaming_spliced_def forward_streaming_with_def client_resp_head_def sample_annotate
      splice_body_def write_all_reliable Let_def sample_upstream_def
      maybe_pool_upstream_def return_to_pool_def note_pool_def)

section \<open>A parked relay is empty\<close>

definition relays_empty :: "'addr forwarder \<Rightarrow> bool" where
  "relays_empty e \<longleftrightarrow> (\<forall>r. idle_relay e = Some r \<or> Some r \<in> set (pipes e) \<longrightarrow> pipe r = [])"

lemma relay_acquire_empty:
  assumes "relay_acquire e = (x, e1)" "relays_empty e"
  shows "relays_empty e1" "\<And>r. x = Some r \<Longrightarrow> pipe r = []"
  using assms by (auto simp: relay_acquire_def relay_new_def relays_empty_def split: option.splits list.splits)

lemma relay_release_empty: "relays_empty e \<Longrightarrow> pipe r = [] \<Longrightarrow> relays_empty (relay_release r e)"
  by (auto simp: relay_release_def relays_empty_def)

lemma relay_fixed_empty:
  assumes "relay_fixed us c n bytes sse e = Some (ok, c', us', bytes', e')" "relays_empty e"
  shows "relays_empty e'"
proof (cases "relay_acquire e")
  case (Pair x e1)
  note acq = relay_acquire_empty [OF Pair assms(2)]
  show ?thesis
  proof (cases x)
    case None
    then show ?thesis
      using assms(1) Pair acq by (auto simp: relay_fixed_def)
  next
    case (Some r)
    obtain out c1 us1 r1 b1 where m: "move_exact us c r n bytes True = Some (out, c1, us1, r1, b1)"
      using assms(1) Pair Some by (auto simp: relay_fixed_def split: option.splits)
    have "out \<noteq> Ran False \<Longrightarrow> pipe r1 = []"
      using move_exact_prefix [OF m acq(2) [OF Some]] by (cases out) auto
    then show ?thesis
      using assms(1) Pair Some m acq(1) by (auto simp: relay_fixed_def relay_release_empty split: relay_outcome.splits if_splits)
  qed
qed

lemma relay_to_eof_empty:
  assumes "relay_to_eof us c bytes sse e = Some (ok, c', us', bytes', e')" "relays_empty e"
  shows "relays_empty e'"
proof (cases "relay_acquire e")
  case (Pair x e1)
  note acq = relay_acquire_empty [OF Pair assms(2)]
  show ?thesis
  proof (cases x)
    case None
    then show ?thesis
      using assms(1) Pair acq by (auto simp: relay_to_eof_def)
  next
    case (Some r)
    obtain out c1 us1 r1 b1 where m: "move_to_eof us c r bytes True = Some (out, c1, us1, r1, b1)"
      using assms(1) Pair Some by (auto simp: relay_to_eof_def split: option.splits)
    have "out \<noteq> Ran False \<Longrightarrow> pipe r1 = []"
      using move_to_eof_pipe [OF m acq(2) [OF Some]] by simp
    then show ?thesis
      using assms(1) Pair Some m acq(1) by (auto simp: relay_to_eof_def relay_release_empty split: relay_outcome.splits if_splits)
  qed
qed

lemma splice_body_empty:
  assumes "splice_body uh c bytes sse e = Some (ok, c', us', bytes', e')" "relays_empty e"
  shows "relays_empty e'"
proof (cases "uh_clen uh")
  case None
  then show ?thesis
    using assms relay_to_eof_empty by (auto simp: splice_body_def Let_def split: if_splits prod.splits)
next
  case (Some n)
  then show ?thesis
    using assms relay_fixed_empty by (auto simp: splice_body_def Let_def split: if_splits prod.splits)
qed

lemma maybe_pool_relays [simp]:
  "idle_relay (maybe_pool_upstream now e addr u n ok k) = idle_relay e"
  "pipes (maybe_pool_upstream now e addr u n ok k) = pipes e"
  by (simp_all add: maybe_pool_upstream_def return_to_pool_def note_pool_def)

text \<open>
  C15: No bytes of one response reach another through a parked pipe: whatever the upstream, the client and
  the splices do, on every path of a forward, a relay that is parked for the next forward is empty.
\<close>

theorem parked_relay_is_empty:
  assumes "relays_empty e"
    and "forward_streaming_spliced forward_request gated is_reusable now addr req keepalive_req c e = Some (res, c', e')"
  shows "relays_empty e'"
proof -
  obtain d e1 where d: "dial_and_read_head forward_request is_reusable now e addr req = Some (d, e1)"
    using assms(2) by (auto simp: forward_streaming_spliced_def forward_streaming_with_def split: option.splits)
  have e1: "relays_empty e1"
    using dial_and_read_head_relays [OF d] assms(1) by (simp add: relays_empty_def)
  show ?thesis
  proof (cases d)
    case (Inl k)
    then show ?thesis
      using assms(2) d e1 by (simp add: forward_streaming_spliced_def forward_streaming_with_def)
  next
    case (Inr uh)
    show ?thesis
      using assms(2) d [unfolded Inr] unfolding forward_streaming_spliced_def
    proof (cases rule: forward_with_cases)
      case (Body c1 k sse ok us bytes e2 s')
      then show ?thesis
        using splice_body_empty [OF Body(1) e1] by (simp add: relays_empty_def)
    qed (use e1 in simp)
  qed
qed

theorem parked_relay_is_empty_witness:
  "\<exists>res c' e'. forward_streaming_spliced id (\<lambda>_. Some []) (\<lambda>_. True) 0 7 [] True \<lparr> sent = [], faults = [] \<rparr>
       (sample_forwarder [sample_head @ ascii ''a'', ascii ''bcHT'']) = Some (res, c', e') \<and> relays_empty e'"
proof -
  obtain s c' e' where run: "forward_streaming_spliced id (\<lambda>_. Some []) (\<lambda>_. True) 0 7 [] True \<lparr> sent = [], faults = [] \<rparr>
       (sample_forwarder [sample_head @ ascii ''a'', ascii ''bcHT'']) = Some (Inr s, c', e')"
    using sample_spliced by (elim exE conjE)
  have "relays_empty e'"
    by (rule parked_relay_is_empty [OF _ run]) (simp add: relays_empty_def sample_forwarder_relays)
  with run show ?thesis
    by (intro exI conjI)
qed

section \<open>The buffered forward\<close>

lemma READ_BLOCK_pos [simp]: "0 < READ_BLOCK"
  by (simp add: READ_BLOCK_def)

lemma head_loop_stream:
  assumes "head_loop us buf = Some (Inr he, buf', us')"
  shows "buf @ delivered us = buf' @ delivered us' \<and> (\<exists>p. he = p + 4 \<and> find buf' (CRLF @ CRLF) = Some p)"
  using assms
proof (induction us arbitrary: buf rule: read_induct)
  case (Read us)
  show ?case
  proof (cases "find buf (CRLF @ CRLF)")
    case (Some p)
    then show ?thesis
      using Read.prems by (simp add: head_loop.simps)
  next
    case None
    show ?thesis
    proof (cases us rule: read_cases [of READ_BLOCK])
      case (Block bs us1)
      have "head_loop us buf = head_loop us1 (buf @ bs)"
        using None Block by (subst head_loop.simps) simp
      then show ?thesis
        using Read.IH [OF READ_BLOCK_pos Block(1)] Read.prems read_some_delivered(1) [OF Block] by fastforce
    qed (use None Read.prems in \<open>auto simp: head_loop.simps\<close>)
  qed
qed

lemma body_loop_stream:
  assumes "body_loop (Some w) us buf = Some (Inr buf', us')"
  shows "(\<exists>more. buf' = buf @ more) \<and> (w \<le> length buf' \<longrightarrow> buf @ delivered us = buf' @ delivered us')"
  using assms
proof (induction us arbitrary: buf rule: read_induct)
  case (Read us)
  show ?case
  proof (cases "w \<le> length buf")
    case True
    then show ?thesis
      using Read.prems by (simp add: body_loop.simps)
  next
    case False
    show ?thesis
    proof (cases us rule: read_cases [of READ_BLOCK])
      case (Block bs us1)
      have "body_loop (Some w) us buf = body_loop (Some w) us1 (buf @ bs)"
        using False Block by (subst body_loop.simps) simp
      then show ?thesis
        using Read.IH [OF READ_BLOCK_pos Block(1)] Read.prems read_some_delivered(1) [OF Block] by fastforce
    qed (use False Read.prems in \<open>auto simp: body_loop.simps\<close>)
  qed
qed

lemma body_loop_prefix:
  assumes "body_loop want us buf = Some (Inr buf', us')"
  shows "\<exists>more. buf' = buf @ more"
  using assms
proof (induction us arbitrary: buf rule: read_induct)
  case (Read us)
  show ?case
  proof (cases us rule: read_cases [of READ_BLOCK])
    case (Block bs us1)
    have "buf' = buf \<or> body_loop want us1 (buf @ bs) = Some (Inr buf', us')"
      using Block Read.prems by (subst (asm) body_loop.simps) (auto split: if_splits)
    then show ?thesis
      using Read.IH [OF READ_BLOCK_pos Block(1)] by force
  qed (use Read.prems in \<open>auto simp: body_loop.simps split: if_splits\<close>)
qed

lemma head_loop_closed:
  assumes "head_loop us buf = Some (Inl k, buf', us')"
  shows "find buf' (CRLF @ CRLF) = None"
  using assms
proof (induction us arbitrary: buf rule: read_induct)
  case (Read us)
  show ?case
  proof (cases us rule: read_cases [of READ_BLOCK])
    case (Block bs us1)
    have "find buf (CRLF @ CRLF) = None" "head_loop us1 (buf @ bs) = Some (Inl k, buf', us')"
      using Block Read.prems by (subst (asm) head_loop.simps; auto split: option.splits)+
    then show ?thesis
      using Read.IH [OF READ_BLOCK_pos Block(1)] by blast
  qed (use Read.prems in \<open>auto simp: head_loop.simps split: option.splits\<close>)
qed

lemma read_response_stream:
  assumes "read_response us = Some (Inr resp, us')" "find resp (CRLF @ CRLF) = Some p"
    and "content_length (take (p + 4) resp) = Some n" "p + 4 + n \<le> length resp"
  shows "delivered us = resp @ delivered us'"
proof -
  obtain r buf us1 where h: "head_loop us [] = Some (r, buf, us1)"
    using assms(1) by (auto simp: read_response_def split: option.splits)
  show ?thesis
  proof (cases r)
    case (Inr he)
    from head_loop_stream [OF h [unfolded Inr]] obtain q where
      q: "delivered us = buf @ delivered us1" "he = q + 4" "find buf (CRLF @ CRLF) = Some q"
      by auto
    have run: "body_loop (map_option (\<lambda>clen. he + clen) (content_length (take he buf))) us1 buf = Some (Inr resp, us')"
      using assms(1) h Inr by (simp add: read_response_def)
    have len: "q + 4 \<le> length buf"
      using q(3) find_sub_Some_iff [of "CRLF @ CRLF" buf q] by (auto simp: find_def starts_with_def dest: arg_cong [of _ _ length])
    show ?thesis
    proof (cases "content_length (take he buf)")
      case (Some k)
      then have "body_loop (Some (he + k)) us1 buf = Some (Inr resp, us')"
        using run by simp
      from body_loop_stream [OF this] obtain more where
        more: "resp = buf @ more" "he + k \<le> length resp \<longrightarrow> buf @ delivered us1 = resp @ delivered us'"
        by blast
      have "p = q"
        using q(3) assms(2) more(1) find_sub_append [of "CRLF @ CRLF" buf q more] by (simp add: find_def)
      then have "k = n"
        using Some assms(3) more(1) q(2) len by simp
      then show ?thesis
        using more q \<open>p = q\<close> assms(4) by simp
    next
      case None
      have "\<exists>more. resp = buf @ more"
        using run None body_loop_prefix by auto
      then obtain more where more: "resp = buf @ more" by blast
      then have "p = q"
        using q(3) assms(2) find_sub_append [of "CRLF @ CRLF" buf q more] by (simp add: find_def)
      then show ?thesis
        using None assms(3) more q(2) len by simp
    qed
  next
    case (Inl k)
    then have "k = None" "resp = buf"
      using assms(1) h by (auto simp: read_response_def split: option.splits)
    then show ?thesis
      using head_loop_closed [OF h [unfolded Inl]] assms(2) by simp
  qed
qed

text \<open>
  The buffered forward pools a socket only between two messages: after one exchange, either the
  pool is untouched or the socket is checked in, and then the response is a head, accepted by the gate,
  with exactly the announced number of body bytes, and the socket delivers next exactly what followed
  the response in the upstream's stream.
\<close>

theorem buffered_forward_pools_at_boundary:
  assumes "forward_once up forward_bytes = Some (Inr (resp, up1))"
  shows "pool_after gated now e addr resp up1 = e \<or>
         (pool_after gated now e addr resp up1 = return_to_pool now e addr up1 \<and>
          delivered (up_reads up) = resp @ delivered (up_reads up1) \<and>
          (\<exists>he n. find resp (CRLF @ CRLF) = Some (he - 4) \<and> gated (take he resp) \<noteq> None \<and>
             content_length (take he resp) = Some n \<and> length resp = he + n))"
proof (cases "pool_after gated now e addr resp up1 = e")
  case False
  then obtain p n where pn: "find resp (CRLF @ CRLF) = Some p" "gated (take (p + 4) resp) \<noteq> None"
      "content_length (take (p + 4) resp) = Some n" "length resp = p + 4 + n"
      "pool_after gated now e addr resp up1 = return_to_pool now e addr up1"
    by (auto simp: pool_after_def Let_def split: option.splits if_splits)
  obtain us where "read_response (up_reads up) = Some (Inr resp, us)" "up_reads up1 = us"
    using assms by (auto simp: forward_once_def upstream_write_def split: option.splits sum.splits)
  then have "delivered (up_reads up) = resp @ delivered (up_reads up1)"
    using read_response_stream [of "up_reads up" resp us p n] pn by simp
  then show ?thesis
    using pn by (intro disjI2 conjI exI [of _ "p + 4"] exI [of _ n]) auto
qed simp

theorem buffered_forward_pools_at_boundary_witness:
  "\<exists>up1. forward_once (sample_upstream [sample_head @ ascii ''a'', ascii ''bc'', ascii ''HT'']) [] =
       Some (Inr (sample_head @ ascii ''abc'', up1)) \<and> delivered (up_reads up1) = ascii ''HT''"
proof -
  let ?up = "sample_upstream [sample_head @ ascii ''a'', ascii ''bc'', ascii ''HT'']" and ?resp = "sample_head @ ascii ''abc''"
  have none: "find [] (CRLF @ CRLF) = None"
    by (simp add: find_def find_sub_def)
  have head: "head_loop (up_reads ?up) [] = Some (Inr 38, sample_head @ ascii ''a'', [Inr (ascii ''bc''), Inr (ascii ''HT'')])"
    using sample_head_facts(1) [of "ascii ''a''"] none sample_head_nonempty
    by (subst head_loop.simps, subst head_loop.simps) (simp add: READ_BLOCK_def sample_head_facts(2) sample_upstream_def)
  have once: "forward_once ?up [] = Some (Inr (?resp, sample_upstream [ascii ''HT'']))"
    using head sample_head_facts(2,3)
    by (simp add: forward_once_def upstream_write_def sample_upstream_def read_response_def body_loop.simps READ_BLOCK_def)
  have "find ?resp (CRLF @ CRLF) = Some 34" "take 38 ?resp = sample_head"
    using sample_head_facts(1) [of "ascii ''abc''"] sample_head_facts(2) by simp_all
  then have "pool_after (\<lambda>_. Some []) 0 (sample_forwarder []) 7 ?resp up1 =
      return_to_pool 0 (sample_forwarder []) 7 up1" for up1
    using sample_head_facts(2,3,5) by (simp add: pool_after_def)
  moreover have "return_to_pool 0 (sample_forwarder []) 7 up1 \<noteq> sample_forwarder []" for up1
    by (auto simp: return_to_pool_def note_pool_def sample_forwarder_def checkin_def conn_pool_new_def dest: fun_cong [of _ _ 7])
  ultimately have "delivered (up_reads ?up) = ?resp @ delivered (up_reads (sample_upstream [ascii ''HT'']))"
    using buffered_forward_pools_at_boundary [OF once, of "\<lambda>_. Some []" 0 "sample_forwarder []" 7] by simp
  with once show ?thesis
    by (intro exI [of _ "sample_upstream [ascii ''HT'']"]) (simp add: sample_upstream_def)
qed

end
