(* ===== verification/Ws_Frame.thy ===== *)
theory Ws_Frame
  imports Http
begin

text \<open>
  The WebSocket frame codec of \<^verbatim>\<open>ws.rs\<close>: the streaming header decoder and the server-frame encoders.
  The verdict on a header prefix and the header octets of a server frame are compiled Lean exports,
  parameters here; the laws the host relies on are the ones its comments name. The decoder's fixed
  array and its fill count are the list of the bytes filled so far.
\<close>

section \<open>Opcodes and close codes\<close>

definition OP_CONT :: byte where "OP_CONT = 0"
definition OP_TEXT :: byte where "OP_TEXT = 1"
definition OP_BINARY :: byte where "OP_BINARY = 2"
definition OP_CLOSE :: byte where "OP_CLOSE = 8"
definition OP_PING :: byte where "OP_PING = 9"
definition OP_PONG :: byte where "OP_PONG = 10"

definition CLOSE_PROTOCOL_ERROR :: u16 where "CLOSE_PROTOCOL_ERROR = 1002"
definition CLOSE_INVALID_PAYLOAD :: u16 where "CLOSE_INVALID_PAYLOAD = 1007"
definition CLOSE_TOO_BIG :: u16 where "CLOSE_TOO_BIG = 1009"

lemmas opcode_defs = OP_CONT_def OP_TEXT_def OP_BINARY_def OP_CLOSE_def OP_PING_def OP_PONG_def

section \<open>The header decoder\<close>

record frame_header =
  fin :: bool
  opcode :: byte
  flen :: nat
  fmask :: bytes
  rsv1 :: bool

definition MAX_HEADER :: nat where "MAX_HEADER = 14"

datatype header_step = HNeedMore | HDone frame_header nat | HBad u16

record header_decoder =
  hbuf :: bytes
  rsv1_ok :: bool

definition with_deflate :: "bool \<Rightarrow> header_decoder" where
  "with_deflate d = \<lparr> hbuf = [], rsv1_ok = d \<rparr>"

definition u16_be :: "byte \<Rightarrow> byte \<Rightarrow> u16" where
  "u16_be hi lo = push_bit 8 (ucast hi) OR ucast lo"

text \<open>The prefix the verdict sees: with the extension negotiated, the RSV1 bit is peeled off first.\<close>

definition peels :: "bool \<Rightarrow> bytes \<Rightarrow> bool" where
  "peels ok buf \<longleftrightarrow> ok \<and> buf \<noteq> [] \<and> hd buf AND 64 \<noteq> 0"

definition probe :: "bool \<Rightarrow> bytes \<Rightarrow> bytes" where
  "probe ok buf = (if peels ok buf then (hd buf AND NOT 64) # tl buf else buf)"

definition step :: "(bytes \<Rightarrow> bytes) \<Rightarrow> header_decoder \<Rightarrow> bytes \<Rightarrow> header_step \<times> header_decoder" where
  "step header_verdict d input =
     (let prev = length (hbuf d);
          n = min (MAX_HEADER - prev) (length input);
          buf = hbuf d @ take n input;
          d1 = d\<lparr> hbuf := buf \<rparr>
      in case header_verdict (probe (rsv1_ok d) buf) of
           [] \<Rightarrow> (HBad CLOSE_PROTOCOL_ERROR, d1)
         | tag # rest \<Rightarrow>
             if tag = 0 \<and> rest = [] then
               (if length buf = MAX_HEADER then HBad CLOSE_PROTOCOL_ERROR else HNeedMore, d1)
             else if tag = 1 \<and> length rest = 2 then (HBad (u16_be (rest ! 0) (rest ! 1)), d1)
             else if tag = 2 \<and> length rest = 15 then
               (let used = unat (rest ! 2) in
                if used \<le> prev \<or> length buf < used then (HBad CLOSE_PROTOCOL_ERROR, d1)
                else (HDone \<lparr> fin = (rest ! 0 \<noteq> 0), opcode = rest ! 1, flen = unat (le_or 0 (drop 7 rest) 0),
                              fmask = take 4 (drop 3 rest), rsv1 = peels (rsv1_ok d) buf \<rparr> (used - prev),
                      d1\<lparr> hbuf := [] \<rparr>))
             else (HBad CLOSE_PROTOCOL_ERROR, d1))"

section \<open>Server frames\<close>

definition encode_frame_into :: "(bool \<Rightarrow> byte \<Rightarrow> nat \<Rightarrow> bytes) \<Rightarrow> bytes \<Rightarrow> bool \<Rightarrow> byte \<Rightarrow> bytes \<Rightarrow> bytes outcome" where
  "encode_frame_into encode_header out final op payload =
     (let hdr = encode_header final op (length payload) in
      if 2 \<le> length hdr \<and> length hdr \<le> 10 then Return (out @ hdr @ payload) else Panic)"

definition encode_frame_ext_into ::
  "(bool \<Rightarrow> byte \<Rightarrow> nat \<Rightarrow> bytes) \<Rightarrow> bytes \<Rightarrow> bool \<Rightarrow> byte \<Rightarrow> bool \<Rightarrow> bytes \<Rightarrow> bytes outcome" where
  "encode_frame_ext_into encode_header out final op rsv payload =
     bind_outcome (encode_frame_into encode_header out final op payload) (\<lambda>out1.
       let start = length out in
       if rsv then (if start < length out1 then Return (out1[start := out1 ! start OR 64]) else Panic)
       else Return out1)"

definition encode_close_into :: "(u16 \<Rightarrow> bytes) \<Rightarrow> bytes \<Rightarrow> u16 \<Rightarrow> bytes outcome" where
  "encode_close_into encode_close out code =
     (let f = encode_close code in if length f = 4 then Return (out @ f) else Panic)"

section \<open>The laws of the header verdict\<close>

text \<open>
  What the comments of \<open>HeaderDecoder\<close> promise of the verdict: an undecided empty prefix, a decided
  verdict that more bytes never change (\<open>decodeHeader_extend\<close>), a decision on every full buffer
  (\<open>no_needMore_of_14\<close>), and a consumed count inside the prefix and past every undecided prefix of it
  (\<open>done_used_bounds\<close>).
\<close>

definition header_laws :: "(bytes \<Rightarrow> bytes) \<Rightarrow> bool" where
  "header_laws hv \<longleftrightarrow>
     hv [] = [0] \<and>
     (\<forall>p q. hv p \<noteq> [0] \<longrightarrow> hv (p @ q) = hv p) \<and>
     (\<forall>p. length p = MAX_HEADER \<longrightarrow> hv p \<noteq> [0]) \<and>
     (\<forall>p rest. hv p = 2 # rest \<and> length rest = 15 \<longrightarrow>
        unat (rest ! 2) \<le> length p \<and> (\<forall>k \<le> length p. hv (take k p) = [0] \<longrightarrow> k < unat (rest ! 2)))"

text \<open>A decoder between two steps: what it holds is undecided.\<close>

definition waiting :: "(bytes \<Rightarrow> bytes) \<Rightarrow> header_decoder \<Rightarrow> bool" where
  "waiting hv d \<longleftrightarrow> length (hbuf d) < MAX_HEADER \<and> hv (probe (rsv1_ok d) (hbuf d)) = [0]"

lemma header_lawsD:
  assumes "header_laws hv"
  shows "hv [] = [0]" "hv p \<noteq> [0] \<Longrightarrow> hv (p @ q) = hv p" "length p = MAX_HEADER \<Longrightarrow> hv p \<noteq> [0]"
    "hv p = 2 # rest \<Longrightarrow> length rest = 15 \<Longrightarrow> unat (rest ! 2) \<le> length p"
    "hv p = 2 # rest \<Longrightarrow> length rest = 15 \<Longrightarrow> k \<le> length p \<Longrightarrow> hv (take k p) = [0] \<Longrightarrow> k < unat (rest ! 2)"
  using assms unfolding header_laws_def by blast+

lemma probe_append: "buf \<noteq> [] \<Longrightarrow> probe ok (buf @ suf) = probe ok buf @ suf"
  by (cases buf) (auto simp: probe_def peels_def)

lemma probe_simps [simp]: "probe ok [] = []" "length (probe ok buf) = length buf"
  by (auto simp: probe_def peels_def)

lemma probe_take: "probe ok (take k buf) = take k (probe ok buf)"
  by (cases k; cases buf) (auto simp: probe_def peels_def)

lemma peels_append: "buf \<noteq> [] \<Longrightarrow> peels ok (buf @ suf) = peels ok buf"
  by (simp add: peels_def)

text \<open>The bytes a step looks at: what the decoder holds and the first of the input, up to a full header.\<close>

definition filled :: "header_decoder \<Rightarrow> bytes \<Rightarrow> bytes" where
  "filled d input = hbuf d @ take (MAX_HEADER - length (hbuf d)) input"

definition decoded :: "header_decoder \<Rightarrow> bytes \<Rightarrow> bytes \<Rightarrow> frame_header" where
  "decoded d buf rest =
     \<lparr> fin = (rest ! 0 \<noteq> 0), opcode = rest ! 1, flen = unat (le_or 0 (drop 7 rest) 0),
       fmask = take 4 (drop 3 rest), rsv1 = peels (rsv1_ok d) buf \<rparr>"

lemma take_min_length: "take (min n (length xs)) xs = take n xs"
  by (simp add: min_def)

lemma used_bounds:
  assumes "header_laws hv" "waiting hv d" "hv (probe (rsv1_ok d) (filled d input)) = 2 # rest" "length rest = 15"
  shows "length (hbuf d) < unat (rest ! 2)" "unat (rest ! 2) \<le> length (filled d input)"
proof -
  have "take (length (hbuf d)) (probe (rsv1_ok d) (filled d input)) = probe (rsv1_ok d) (hbuf d)"
    by (simp add: probe_take [symmetric] filled_def)
  then have "hv (take (length (hbuf d)) (probe (rsv1_ok d) (filled d input))) = [0]"
    using assms(2) by (simp add: waiting_def)
  then show "length (hbuf d) < unat (rest ! 2)"
    using header_lawsD(5) [OF assms(1,3,4), of "length (hbuf d)"] by (simp add: filled_def)
  show "unat (rest ! 2) \<le> length (filled d input)"
    using header_lawsD(4) [OF assms(1,3,4)] by simp
qed

text \<open>What a step of a waiting decoder does, by the verdict on those bytes.\<close>

lemma step_waiting:
  assumes "header_laws hv" "waiting hv d"
  shows "step hv d input =
     (let buf = filled d input; v = hv (probe (rsv1_ok d) buf) in
      if v = [0] then (HNeedMore, d\<lparr> hbuf := buf \<rparr>)
      else if \<exists>rest. v = 2 # rest \<and> length rest = 15 then
        (HDone (decoded d buf (tl v)) (unat (tl v ! 2) - length (hbuf d)), d\<lparr> hbuf := [] \<rparr>)
      else (HBad (if \<exists>a b. v = [1, a, b] then u16_be (v ! 1) (v ! 2) else CLOSE_PROTOCOL_ERROR), d\<lparr> hbuf := buf \<rparr>))"
proof -
  let ?buf = "filled d input"
  let ?v = "hv (probe (rsv1_ok d) ?buf)"
  have buf: "hbuf d @ take (min (MAX_HEADER - length (hbuf d)) (length input)) input = ?buf"
    by (simp add: filled_def take_min_length)
  have full: "length ?buf \<noteq> MAX_HEADER" if "?v = [0]"
    using that header_lawsD(3) [OF assms(1), of "probe (rsv1_ok d) ?buf"] by auto
  note used = used_bounds [OF assms, of input]
  show ?thesis
  proof (cases ?v)
    case Nil
    then show ?thesis
      by (simp add: step_def Let_def buf)
  next
    case (Cons tag rest)
    show ?thesis
    proof (cases "tag = 2 \<and> length rest = 15")
      case True
      then show ?thesis
        using Cons used [of rest] by (simp add: step_def Let_def buf decoded_def)
    next
      case False
      then show ?thesis
        using Cons full by (auto simp: step_def Let_def buf eval_nat_numeral length_Suc_conv)
    qed
  qed
qed

section \<open>Headers are decoded alike however they are cut\<close>

lemma step_NeedMore:
  assumes "header_laws hv" "waiting hv d" "step hv d xs = (HNeedMore, d1)"
  shows "d1 = d\<lparr> hbuf := hbuf d @ xs \<rparr>" "waiting hv d1" "filled d (xs @ ys) = filled d1 ys"
proof -
  have v: "hv (probe (rsv1_ok d) (filled d xs)) = [0]" and d1: "d1 = d\<lparr> hbuf := filled d xs \<rparr>"
    using assms(3) by (auto simp: step_waiting [OF assms(1,2)] Let_def split: if_splits)
  have "length (filled d xs) \<noteq> MAX_HEADER"
    using v header_lawsD(3) [OF assms(1), of "probe (rsv1_ok d) (filled d xs)"] by auto
  moreover have "length (hbuf d) < MAX_HEADER"
    using assms(2) by (simp add: waiting_def)
  ultimately have short: "length (hbuf d) + length xs < MAX_HEADER"
    by (auto simp: filled_def min_def split: if_splits)
  then have fill: "filled d xs = hbuf d @ xs"
    by (simp add: filled_def)
  show "d1 = d\<lparr> hbuf := hbuf d @ xs \<rparr>"
    using d1 fill by simp
  then show "waiting hv d1"
    using v fill short by (simp add: waiting_def)
  show "filled d (xs @ ys) = filled d1 ys"
    using short d1 fill by (simp add: filled_def)
qed

lemma step_append_NeedMore:
  assumes "header_laws hv" "waiting hv d" "step hv d xs = (HNeedMore, d1)"
  shows "step hv d (xs @ ys) =
     (case step hv d1 ys of (HDone h n, d2) \<Rightarrow> (HDone h (length xs + n), d2) | r \<Rightarrow> r)"
proof -
  note more = step_NeedMore [OF assms]
  have d1: "rsv1_ok d1 = rsv1_ok d" "length (hbuf d1) = length (hbuf d) + length xs"
      "\<And>b. d1\<lparr> hbuf := b \<rparr> = d\<lparr> hbuf := b \<rparr>"
    using more(1) by simp_all
  let ?v = "hv (probe (rsv1_ok d) (filled d1 ys))"
  have "length (hbuf d1) < unat (tl ?v ! 2)" if "?v = 2 # rest" "length rest = 15" for rest
    using used_bounds(1) [OF assms(1) more(2)] that d1(1) by auto
  then show ?thesis
    unfolding step_waiting [OF assms(1,2)] step_waiting [OF assms(1) more(2)] more(3)
    by (auto simp: d1 Let_def decoded_def)
qed

lemma filled_append: "\<exists>suf. filled d (xs @ ys) = filled d xs @ suf"
  by (simp add: filled_def take_append)

lemma step_decided:
  assumes "header_laws hv" "waiting hv d" "fst (step hv d xs) \<noteq> HNeedMore"
  shows "hv (probe (rsv1_ok d) (filled d (xs @ ys))) = hv (probe (rsv1_ok d) (filled d xs))"
    and "peels (rsv1_ok d) (filled d (xs @ ys)) = peels (rsv1_ok d) (filled d xs)"
proof -
  have v: "hv (probe (rsv1_ok d) (filled d xs)) \<noteq> [0]"
    using assms(3) by (auto simp: step_waiting [OF assms(1,2)] Let_def split: if_splits)
  then have ne: "filled d xs \<noteq> []"
    using header_lawsD(1) [OF assms(1)] by auto
  obtain suf where suf: "filled d (xs @ ys) = filled d xs @ suf"
    using filled_append by blast
  show "hv (probe (rsv1_ok d) (filled d (xs @ ys))) = hv (probe (rsv1_ok d) (filled d xs))"
    using header_lawsD(2) [OF assms(1) v] suf ne by (simp add: probe_append)
  show "peels (rsv1_ok d) (filled d (xs @ ys)) = peels (rsv1_ok d) (filled d xs)"
    using suf ne by (simp add: peels_append)
qed

lemma step_append_Done:
  assumes "header_laws hv" "waiting hv d" "step hv d xs = (HDone h n, d1)"
  shows "step hv d (xs @ ys) = (HDone h n, d1)" "0 < n" "n \<le> length xs" "d1 = d\<lparr> hbuf := [] \<rparr>"
proof -
  have dec: "fst (step hv d xs) \<noteq> HNeedMore"
    using assms(3) by simp
  obtain rest where rest: "hv (probe (rsv1_ok d) (filled d xs)) = 2 # rest" "length rest = 15"
      and h: "h = decoded d (filled d xs) rest" "n = unat (rest ! 2) - length (hbuf d)" "d1 = d\<lparr> hbuf := [] \<rparr>"
    using assms(3) by (auto simp: step_waiting [OF assms(1,2)] Let_def split: if_splits)
  show "step hv d (xs @ ys) = (HDone h n, d1)"
    using step_decided [OF assms(1,2) dec, of ys] rest h
    by (simp add: step_waiting [OF assms(1,2)] Let_def decoded_def)
  note used = used_bounds [OF assms(1,2) rest]
  show "0 < n" "n \<le> length xs"
    using used h(2) by (auto simp: filled_def)
  show "d1 = d\<lparr> hbuf := [] \<rparr>"
    by (fact h(3))
qed

lemma step_append_Bad:
  assumes "header_laws hv" "waiting hv d" "step hv d xs = (HBad code, d1)"
  shows "fst (step hv d (xs @ ys)) = HBad code"
proof -
  have dec: "fst (step hv d xs) \<noteq> HNeedMore"
    using assms(3) by simp
  show ?thesis
    using step_decided [OF assms(1,2) dec, of ys] assms(3)
    by (auto simp: step_waiting [OF assms(1,2)] Let_def split: if_splits)
qed

end
