(* ===== verification/Ws_Engine.thy ===== *)
theory Ws_Engine
  imports Ws_Frame
begin

text \<open>
  The WebSocket message engine of \<^verbatim>\<open>ws_assembly.rs\<close>: unmasking and reassembly of client frames, control
  replies, echo of complete messages, and per-message compression. The decisions the engine crosses
  into the compiled Lean core for (header verdict, admission, UTF-8 automaton, close body, outgoing
  headers) and the DEFLATE codec are the fields of a record of functions, a parameter of every operation;
  what the host's comments promise of them is stated as laws. The engine's fixed control buffer and its
  fill count are the list of the bytes filled so far.
\<close>

section \<open>Foreign functions\<close>

record ('d, 'e) ws_seams =
  header_verdict :: "bytes \<Rightarrow> bytes"
  drorb_ws_admit :: "byte \<Rightarrow> nat \<Rightarrow> byte \<Rightarrow> bool \<Rightarrow> nat \<Rightarrow> nat \<Rightarrow> u64"
  ws_utf8 :: "u32 \<Rightarrow> bytes \<Rightarrow> u32"
  ws_close_body :: "bytes \<Rightarrow> u32"
  encode_header :: "bool \<Rightarrow> byte \<Rightarrow> nat \<Rightarrow> bytes"
  encode_close :: "u16 \<Rightarrow> bytes"
  decompress :: "'d \<Rightarrow> bytes \<Rightarrow> bytes option \<times> 'd"
  reset_dec :: "'d \<Rightarrow> 'd"
  compress :: "'e \<Rightarrow> bytes \<Rightarrow> bytes \<times> 'e"
  reset_enc :: "'e \<Rightarrow> 'e"

section \<open>Compression\<close>

definition MAX_MESSAGE :: nat where "MAX_MESSAGE = 16 * 2 ^ 20"

definition DEFLATE_TAIL :: bytes where "DEFLATE_TAIL = [0, 0, 255, 255]"

record 'd inflater =
  inf_dec :: 'd
  inf_reset_each :: bool

record 'e deflater =
  def_enc :: 'e
  def_reset_each :: bool

text \<open>\<open>None\<close> is \<open>Err(())\<close>: a corrupt stream or an expansion over the cap.\<close>

definition inflate :: "('d, 'e) ws_seams \<Rightarrow> 'd inflater \<Rightarrow> bytes \<Rightarrow> nat \<Rightarrow> bytes option \<times> 'd inflater" where
  "inflate sm z compressed cap =
     (let d0 = (if inf_reset_each z then reset_dec sm (inf_dec z) else inf_dec z) in
      case decompress sm d0 (compressed @ DEFLATE_TAIL) of
        (None, d1) \<Rightarrow> (None, z\<lparr> inf_dec := d1 \<rparr>)
      | (Some plain, d1) \<Rightarrow> (if cap < length plain then None else Some plain, z\<lparr> inf_dec := d1 \<rparr>))"

definition deflate :: "('d, 'e) ws_seams \<Rightarrow> 'e deflater \<Rightarrow> bytes \<Rightarrow> bytes \<times> 'e deflater" where
  "deflate sm z data =
     (let (raw, e1) = compress sm (def_enc z) data;
          stripped = (if ends_with raw DEFLATE_TAIL then take (length raw - 4) raw else raw)
      in (stripped, z\<lparr> def_enc := (if def_reset_each z then reset_enc sm e1 else e1) \<rparr>))"

section \<open>The engine\<close>

datatype flow = Continue | Shut

datatype ws_state = WHeader | WPayload frame_header nat

record ('d, 'e) ws_engine =
  dec :: header_decoder
  wstate :: ws_state
  inflater :: "'d inflater option"
  deflater :: "'e deflater option"
  msg_compressed :: bool
  msg :: bytes
  msg_op :: byte
  frame_after :: byte
  frame_deliver :: bool
  utf8 :: u32
  ctl :: bytes

record ws_config =
  cfg_deflate :: bool
  client_no_context_takeover :: bool
  server_no_context_takeover :: bool
  server_max_window_bits :: nat

definition ws_config_default :: ws_config where
  "ws_config_default = \<lparr> cfg_deflate = False, client_no_context_takeover = False,
     server_no_context_takeover = False, server_max_window_bits = 15 \<rparr>"

definition with_config :: "'d \<Rightarrow> (nat \<Rightarrow> 'e) \<Rightarrow> ws_config \<Rightarrow> ('d, 'e) ws_engine" where
  "with_config new_dec new_enc cfg =
     \<lparr> dec = with_deflate (cfg_deflate cfg), wstate = WHeader,
       inflater = (if cfg_deflate cfg
         then Some \<lparr> inf_dec = new_dec, inf_reset_each = client_no_context_takeover cfg \<rparr> else None),
       deflater = (if cfg_deflate cfg
         then Some \<lparr> def_enc = new_enc (server_max_window_bits cfg), def_reset_each = server_no_context_takeover cfg \<rparr>
         else None),
       msg_compressed = False, msg = [], msg_op = 0, frame_after = 0, frame_deliver = False, utf8 = 0, ctl = [] \<rparr>"

type_synonym ('d, 'e) fed = "(flow \<times> ('d, 'e) ws_engine \<times> bytes) outcome"

definition fail :: "('d, 'e) ws_seams \<Rightarrow> ('d, 'e) ws_engine \<Rightarrow> bytes \<Rightarrow> u16 \<Rightarrow> ('d, 'e) fed" where
  "fail sm e out code = bind_outcome (encode_close_into (encode_close sm) out code) (\<lambda>out'. Return (Shut, e, out'))"

definition reply :: "bytes outcome \<Rightarrow> flow \<Rightarrow> ('d, 'e) ws_engine \<Rightarrow> ('d, 'e) fed" where
  "reply enc fl e = bind_outcome enc (\<lambda>out'. Return (fl, e, out'))"

definition on_header :: "('d, 'e) ws_seams \<Rightarrow> ('d, 'e) ws_engine \<Rightarrow> frame_header \<Rightarrow> u16 option \<times> ('d, 'e) ws_engine" where
  "on_header sm e h =
     (let opens_message = ((opcode h = OP_TEXT \<or> opcode h = OP_BINARY) \<and> msg_op e = 0) in
      if rsv1 h \<and> \<not> opens_message then (Some CLOSE_PROTOCOL_ERROR, e)
      else
        let v = drorb_ws_admit sm (msg_op e) (length (msg e)) (opcode h) (fin h) (flen h) MAX_MESSAGE in
        if drop_bit 32 v = 2 then
          (None, e\<lparr> msg_op := ucast (drop_bit 8 v AND 15), frame_after := ucast (drop_bit 4 v AND 15),
                    frame_deliver := (v AND 1 \<noteq> 0),
                    msg_compressed := (if opens_message then rsv1 h else msg_compressed e) \<rparr>)
        else (Some (ucast (v AND 65535)), e))"

definition on_close :: "('d, 'e) ws_seams \<Rightarrow> ('d, 'e) ws_engine \<Rightarrow> bytes \<Rightarrow> ('d, 'e) fed" where
  "on_close sm e out =
     (let v = ws_close_body sm (ctl e); e1 = e\<lparr> ctl := [] \<rparr> in
      if drop_bit 16 v = 0 then reply (encode_frame_into (encode_header sm) out True OP_CLOSE []) Shut e1
      else if drop_bit 16 v = 1 then reply (encode_close_into (encode_close sm) out (ucast (v AND 65535))) Shut e1
      else fail sm e1 out (ucast (v AND 65535)))"

text \<open>The echo of a complete message, and the engine ready for the next one.\<close>

definition echo :: "('d, 'e) ws_seams \<Rightarrow> ('d, 'e) ws_engine \<Rightarrow> bytes \<Rightarrow> ('d, 'e) fed" where
  "echo sm e out =
     (let done = (\<lambda>e. e\<lparr> msg := [], msg_op := frame_after e, msg_compressed := False, utf8 := 0 \<rparr>) in
      case deflater e of
        Some z \<Rightarrow>
          (let (c, z') = deflate sm z (msg e) in
           reply (encode_frame_ext_into (encode_header sm) out True (msg_op e) True c) Continue
             (done (e\<lparr> deflater := Some z' \<rparr>)))
      | None \<Rightarrow> reply (encode_frame_into (encode_header sm) out True (msg_op e) (msg e)) Continue (done e))"

definition deliver :: "('d, 'e) ws_seams \<Rightarrow> ('d, 'e) ws_engine \<Rightarrow> bytes \<Rightarrow> ('d, 'e) fed" where
  "deliver sm e out =
     (if msg_compressed e then
        (case inflater e of
           None \<Rightarrow> Panic
         | Some z \<Rightarrow>
             (case inflate sm z (msg e) MAX_MESSAGE of
                (None, z') \<Rightarrow> fail sm (e\<lparr> inflater := Some z' \<rparr>) out CLOSE_INVALID_PAYLOAD
              | (Some plain, z') \<Rightarrow>
                  (let e1 = e\<lparr> inflater := Some z' \<rparr> in
                   if msg_op e = OP_TEXT \<and> ws_utf8 sm 0 plain \<noteq> 0 then fail sm e1 out CLOSE_INVALID_PAYLOAD
                   else echo sm (e1\<lparr> msg := plain \<rparr>) out)))
      else if msg_op e = OP_TEXT \<and> utf8 e \<noteq> 0 then fail sm e out CLOSE_INVALID_PAYLOAD
      else echo sm e out)"

definition on_frame :: "('d, 'e) ws_seams \<Rightarrow> ('d, 'e) ws_engine \<Rightarrow> frame_header \<Rightarrow> bytes \<Rightarrow> ('d, 'e) fed" where
  "on_frame sm e h out =
     (if opcode h = OP_CLOSE then on_close sm e out
      else if opcode h = OP_PING then
        reply (encode_frame_into (encode_header sm) out True OP_PONG (ctl e)) Continue (e\<lparr> ctl := [] \<rparr>)
      else if opcode h = OP_PONG then Return (Continue, e\<lparr> ctl := [] \<rparr>, out)
      else if \<not> frame_deliver e then Return (Continue, e, out)
      else deliver sm e out)"

definition unmask :: "bytes \<Rightarrow> nat \<Rightarrow> bytes \<Rightarrow> bytes" where
  "unmask m base chunk = map (\<lambda>i. chunk ! i XOR m ! ((base + i) mod 4)) [0 ..< length chunk]"

text \<open>One chunk of payload; the flag is a definite UTF-8 violation.\<close>

definition absorb ::
  "('d, 'e) ws_seams \<Rightarrow> ('d, 'e) ws_engine \<Rightarrow> frame_header \<Rightarrow> nat \<Rightarrow> bytes \<Rightarrow> (bool \<times> ('d, 'e) ws_engine) outcome" where
  "absorb sm e h got chunk =
     (if chunk = [] then Return (False, e)
      else if OP_CLOSE \<le> opcode h then
        (if length (ctl e) + length chunk \<le> 125
         then Return (False, e\<lparr> ctl := ctl e @ unmask (fmask h) got chunk \<rparr>) else Panic)
      else
        (let new = unmask (fmask h) got chunk; e1 = e\<lparr> msg := msg e @ new \<rparr> in
         if msg_op e = OP_TEXT \<and> \<not> msg_compressed e
         then (let u = ws_utf8 sm (utf8 e) new in Return (7 < u, e1\<lparr> utf8 := u \<rparr>))
         else Return (False, e1)))"

lemma bind_outcome_cong [fundef_cong]:
  "m = m' \<Longrightarrow> (\<And>x. m' = Return x \<Longrightarrow> f x = g x) \<Longrightarrow> bind_outcome m f = bind_outcome m' g"
  by (cases m') auto

lemma step_consumes:
  "step hv d input = (HDone h used, d') \<Longrightarrow> 0 < used \<and> used \<le> length input"
  by (auto simp: step_def Let_def split: list.splits if_splits)

lemma reply_Return [simp]:
  "reply enc fl e = Return (fl', e', out') \<longleftrightarrow> fl' = fl \<and> e' = e \<and> enc = Return out'"
  by (auto simp: reply_def)

lemma fail_Return [simp]:
  "fail sm e out code = Return (fl', e', out') \<longleftrightarrow>
     fl' = Shut \<and> e' = e \<and> encode_close_into (encode_close sm) out code = Return out'"
  by (auto simp: fail_def)

lemma on_frame_wstate:
  "on_frame sm e h out = Return (fl, e', out') \<Longrightarrow> wstate e' = wstate e"
  by (auto simp: on_frame_def on_close_def deliver_def echo_def Let_def
      split: if_splits option.splits prod.splits)

function feed :: "('d, 'e) ws_seams \<Rightarrow> ('d, 'e) ws_engine \<Rightarrow> bytes \<Rightarrow> bytes \<Rightarrow> ('d, 'e) fed" where
  "feed sm e input out =
     (case wstate e of
        WHeader \<Rightarrow>
          (case step (header_verdict sm) (dec e) input of
             (HNeedMore, d) \<Rightarrow> Return (Continue, e\<lparr> dec := d \<rparr>, out)
           | (HBad code, d) \<Rightarrow> fail sm (e\<lparr> dec := d \<rparr>) out code
           | (HDone h used, d) \<Rightarrow>
               (case on_header sm (e\<lparr> dec := d \<rparr>) h of
                  (Some code, e1) \<Rightarrow> fail sm e1 out code
                | (None, e1) \<Rightarrow> feed sm (e1\<lparr> wstate := WPayload h 0 \<rparr>) (drop used input) out))
      | WPayload h got \<Rightarrow>
          (let n = min (flen h - got) (length input); chunk = take n input; rest = drop n input in
           bind_outcome (absorb sm e h got chunk) (\<lambda>(bad, e1).
             if bad then fail sm e1 out CLOSE_INVALID_PAYLOAD
             else if got + n < flen h then Return (Continue, e1\<lparr> wstate := WPayload h (got + n) \<rparr>, out)
             else bind_outcome (on_frame sm (e1\<lparr> wstate := WHeader \<rparr>) h out) (\<lambda>(fl, e2, out2).
               if fl = Shut then Return (Shut, e2, out2) else feed sm e2 rest out2))))"
  by pat_completeness auto
termination
  by (relation "measures [\<lambda>(sm, e, input, out). length input,
        \<lambda>(sm, e, input, out). if wstate e = WHeader then 0 else 1]")
    (auto dest: step_consumes [OF sym] step_consumes on_frame_wstate)

declare feed.simps [simp del]

section \<open>The laws of the foreign functions\<close>

text \<open>
  What the comments promise: the header verdict obeys its laws, refuses reserved opcodes and control
  frames over 125 bytes; an admitted data frame fits the cap; the header and the close frame of the
  encoder have the sizes the host asserts; the UTF-8 automaton does not depend on how the text is cut
  and never recovers from a violation.
\<close>

definition legal :: "byte \<Rightarrow> bool" where
  "legal op \<longleftrightarrow> op \<in> {OP_CONT, OP_TEXT, OP_BINARY, OP_CLOSE, OP_PING, OP_PONG}"

definition engine_laws :: "('d, 'e) ws_seams \<Rightarrow> bool" where
  "engine_laws sm \<longleftrightarrow>
     header_laws (header_verdict sm) \<and>
     (\<forall>p rest. header_verdict sm p = 2 # rest \<and> length rest = 15 \<longrightarrow>
        legal (rest ! 1) \<and> (OP_CLOSE \<le> rest ! 1 \<longrightarrow> unat (le_or 0 (drop 7 rest) 0) \<le> 125)) \<and>
     (\<forall>m b op f n cap. drop_bit 32 (drorb_ws_admit sm m b op f n cap) = 2 \<and> op < OP_CLOSE \<longrightarrow> b + n \<le> cap) \<and>
     (\<forall>f op n. 2 \<le> length (encode_header sm f op n) \<and> length (encode_header sm f op n) \<le> 10) \<and>
     (\<forall>code. length (encode_close sm code) = 4)"

definition utf8_laws :: "('d, 'e) ws_seams \<Rightarrow> bool" where
  "utf8_laws sm \<longleftrightarrow>
     (\<forall>u xs ys. ws_utf8 sm u xs \<le> 7 \<longrightarrow> ws_utf8 sm u (xs @ ys) = ws_utf8 sm (ws_utf8 sm u xs) ys) \<and>
     (\<forall>u xs ys. 7 < ws_utf8 sm u xs \<longrightarrow> 7 < ws_utf8 sm u (xs @ ys))"

lemma engine_lawsD:
  assumes "engine_laws sm"
  shows "header_laws (header_verdict sm)"
    "header_verdict sm p = 2 # rest \<Longrightarrow> length rest = 15 \<Longrightarrow> legal (rest ! 1)"
    "header_verdict sm p = 2 # rest \<Longrightarrow> length rest = 15 \<Longrightarrow> OP_CLOSE \<le> rest ! 1 \<Longrightarrow>
       unat (le_or 0 (drop 7 rest) 0) \<le> 125"
    "drop_bit 32 (drorb_ws_admit sm m b op f n cap) = 2 \<Longrightarrow> op < OP_CLOSE \<Longrightarrow> b + n \<le> cap"
    "encode_frame_into (encode_header sm) out f op payload = Return (out @ encode_header sm f op (length payload) @ payload)"
    "encode_close_into (encode_close sm) out code = Return (out @ encode_close sm code)"
  using assms unfolding engine_laws_def encode_frame_into_def encode_close_into_def Let_def by auto

lemma encode_frame_ext:
  assumes "engine_laws sm"
  shows "\<exists>hdr. encode_frame_ext_into (encode_header sm) out f op True payload = Return (out @ hdr @ payload)"
proof -
  let ?h = "encode_header sm f op (length payload)"
  have "?h \<noteq> []"
    using assms unfolding engine_laws_def by (metis list.size(3) not_numeral_le_zero)
  then obtain b bs where h: "?h = b # bs"
    by (cases ?h) auto
  then have "encode_frame_ext_into (encode_header sm) out f op True payload = Return (out @ ((b OR 64) # bs) @ payload)"
    by (simp add: encode_frame_ext_into_def engine_lawsD(5) [OF assms] Let_def list_update_append nth_append)
  then show ?thesis
    by blast
qed

lemma header_step_legal:
  assumes "engine_laws sm" "step (header_verdict sm) d input = (HDone h used, d')"
  shows "legal (opcode h)" "OP_CLOSE \<le> opcode h \<Longrightarrow> flen h \<le> 125" "length (fmask h) = 4"
    "rsv1 h \<Longrightarrow> rsv1_ok d" "d' = d\<lparr> hbuf := [] \<rparr>"
  using assms(2) engine_lawsD(2,3) [OF assms(1)]
  by (auto simp: step_def Let_def peels_def split: list.splits if_splits)

section \<open>Bounded memory, no panic\<close>

definition bounded :: "('d, 'e) ws_engine \<Rightarrow> bool" where
  "bounded e \<longleftrightarrow> length (msg e) \<le> MAX_MESSAGE \<and> length (ctl e) \<le> 125 \<and> length (hbuf (dec e)) \<le> MAX_HEADER"

definition engine_ok :: "('d, 'e) ws_seams \<Rightarrow> ('d, 'e) ws_engine \<Rightarrow> bool" where
  "engine_ok sm e \<longleftrightarrow>
     waiting (header_verdict sm) (dec e) \<and> rsv1_ok (dec e) = (inflater e \<noteq> None) \<and>
     (msg_compressed e \<longrightarrow> inflater e \<noteq> None) \<and> length (msg e) \<le> MAX_MESSAGE \<and>
     (case wstate e of
        WHeader \<Rightarrow> ctl e = []
      | WPayload h got \<Rightarrow>
          got \<le> flen h \<and> legal (opcode h) \<and> hbuf (dec e) = [] \<and>
          (if OP_CLOSE \<le> opcode h then length (ctl e) + (flen h - got) \<le> 125
           else ctl e = [] \<and> length (msg e) + (flen h - got) \<le> MAX_MESSAGE))"

lemma engine_ok_bounded: "engine_ok sm e \<Longrightarrow> bounded e"
  by (auto simp: engine_ok_def bounded_def waiting_def split: ws_state.splits if_splits)

lemma with_config_ok: "engine_laws sm \<Longrightarrow> engine_ok sm (with_config d en cfg)"
  by (auto simp: engine_ok_def with_config_def with_deflate_def waiting_def MAX_HEADER_def
      header_lawsD(1) [OF engine_lawsD(1)])

lemma unmask_length [simp]: "length (unmask m base chunk) = length chunk"
  by (simp add: unmask_def)

lemma on_header_keeps:
  assumes "on_header sm e h = (r, e1)"
  shows "dec e1 = dec e" "inflater e1 = inflater e" "msg e1 = msg e" "ctl e1 = ctl e" "wstate e1 = wstate e"
    "msg_compressed e1 \<Longrightarrow> msg_compressed e \<or> rsv1 h"
    "r = None \<Longrightarrow> drop_bit 32 (drorb_ws_admit sm (msg_op e) (length (msg e)) (opcode h) (fin h) (flen h) MAX_MESSAGE) = 2"
  using assms by (auto simp: on_header_def Let_def split: if_splits)

lemma on_header_ok:
  assumes "engine_laws sm" "engine_ok sm e" "wstate e = WHeader"
    and "step (header_verdict sm) (dec e) input = (HDone h used, d')" "on_header sm (e\<lparr> dec := d' \<rparr>) h = (r, e1)"
  shows "if r = None then engine_ok sm (e1\<lparr> wstate := WPayload h 0 \<rparr>) else bounded e1"
proof -
  note h = header_step_legal [OF assms(1,4)]
  note keeps = on_header_keeps [OF assms(5), simplified]
  have hv: "header_verdict sm [] = [0]"
    using header_lawsD(1) [OF engine_lawsD(1) [OF assms(1)]] .
  have e: "rsv1_ok (dec e) = (inflater e \<noteq> None)" "msg_compressed e \<longrightarrow> inflater e \<noteq> None"
      "length (msg e) \<le> MAX_MESSAGE" "ctl e = []"
    using assms(2,3) by (simp_all add: engine_ok_def)
  have d': "hbuf d' = []" "rsv1_ok d' = rsv1_ok (dec e)"
    using h(5) by simp_all
  then have "waiting (header_verdict sm) d'"
    using hv by (simp add: waiting_def MAX_HEADER_def)
  moreover have "opcode h < OP_CLOSE \<Longrightarrow> length (msg e) + flen h \<le> MAX_MESSAGE" if "r = None"
    using engine_lawsD(4) [OF assms(1) keeps(7) [OF that]] by simp
  ultimately show ?thesis
    using e d' h(1,2,4) keeps(1-6) unfolding engine_ok_def bounded_def
    by (auto simp: not_le)
qed

lemma absorb_ok:
  assumes "engine_ok sm e" "wstate e = WPayload h got" "length chunk \<le> flen h - got"
  shows "\<exists>bad e1. absorb sm e h got chunk = Return (bad, e1) \<and> wstate e1 = wstate e \<and>
           engine_ok sm (e1\<lparr> wstate := WPayload h (got + length chunk) \<rparr>)"
proof (cases "chunk = []")
  case True
  then show ?thesis
    using assms by (auto simp: absorb_def engine_ok_def)
next
  case chunk: False
  show ?thesis
  proof (cases "OP_CLOSE \<le> opcode h")
    case True
    then show ?thesis
      using assms chunk by (auto simp: absorb_def engine_ok_def)
  next
    case False
    then show ?thesis
      using assms chunk by (auto simp: absorb_def engine_ok_def Let_def)
  qed
qed

lemma echo_ok:
  assumes "engine_laws sm"
  shows "\<exists>e' frame. echo sm e out = Return (Continue, e', out @ frame) \<and> dec e' = dec e \<and> wstate e' = wstate e \<and>
           inflater e' = inflater e \<and> msg e' = [] \<and> \<not> msg_compressed e' \<and> ctl e' = ctl e"
proof (cases "deflater e")
  case None
  then show ?thesis
    using engine_lawsD(5) [OF assms] by (simp add: echo_def Let_def)
next
  case (Some z)
  obtain c z' where "deflate sm z (msg e) = (c, z')"
    by fastforce
  moreover obtain hdr where "encode_frame_ext_into (encode_header sm) out True (msg_op e) True c = Return (out @ hdr @ c)"
    using encode_frame_ext [OF assms] by blast
  ultimately show ?thesis
    using Some by (simp add: echo_def Let_def)
qed

lemma deliver_ok:
  assumes "engine_laws sm" "msg_compressed e \<Longrightarrow> inflater e \<noteq> None"
  shows "\<exists>fl e' frame. deliver sm e out = Return (fl, e', out @ frame) \<and> dec e' = dec e \<and> wstate e' = wstate e \<and>
           (inflater e' = None \<longleftrightarrow> inflater e = None) \<and> ctl e' = ctl e \<and>
           (if fl = Shut then msg e' = msg e else msg e' = [] \<and> \<not> msg_compressed e')"
proof -
  have fails: "fail sm e' out code = Return (Shut, e', out @ encode_close sm code)" for e' code
    using engine_lawsD(6) [OF assms(1)] by simp
  show ?thesis
  proof (cases "msg_compressed e")
    case True
    then obtain z where z: "inflater e = Some z"
      using assms(2) by blast
    obtain r z' where inf: "inflate sm z (msg e) MAX_MESSAGE = (r, z')"
      by fastforce
    show ?thesis
    proof (cases "\<exists>plain. r = Some plain \<and> \<not> (msg_op e = OP_TEXT \<and> ws_utf8 sm 0 plain \<noteq> 0)")
      case True
      then obtain plain where "deliver sm e out = echo sm (e\<lparr> inflater := Some z', msg := plain \<rparr>) out"
        using \<open>msg_compressed e\<close> z inf by (auto simp: deliver_def Let_def)
      then show ?thesis
        using echo_ok [OF assms(1), of "e\<lparr> inflater := Some z', msg := plain \<rparr>" out] z by auto
    next
      case False
      then have "deliver sm e out = fail sm (e\<lparr> inflater := Some z' \<rparr>) out CLOSE_INVALID_PAYLOAD"
        using \<open>msg_compressed e\<close> z inf by (auto simp: deliver_def Let_def split: option.split)
      then show ?thesis
        using fails z by simp
    qed
  next
    case False
    then show ?thesis
      using fails echo_ok [OF assms(1), of e out] by (auto simp: deliver_def)
  qed
qed

lemma on_frame_ok:
  assumes "engine_laws sm" "engine_ok sm e" "wstate e = WPayload h (flen h)"
  shows "\<exists>fl e' frame. on_frame sm (e\<lparr> wstate := WHeader \<rparr>) h out = Return (fl, e', out @ frame) \<and>
           bounded e' \<and> (fl = Continue \<longrightarrow> engine_ok sm e')"
proof -
  let ?e = "e\<lparr> wstate := WHeader \<rparr>"
  have e: "waiting (header_verdict sm) (dec e)" "rsv1_ok (dec e) = (inflater e \<noteq> None)"
      "msg_compressed e \<longrightarrow> inflater e \<noteq> None" "length (msg e) \<le> MAX_MESSAGE" "legal (opcode h)"
      "OP_CLOSE \<le> opcode h \<or> ctl e = []" "bounded e"
    using assms(2,3) engine_ok_bounded [OF assms(2)] by (auto simp: engine_ok_def split: if_splits)
  have clear: "engine_ok sm (?e\<lparr> ctl := [] \<rparr>)" "bounded (?e\<lparr> ctl := [] \<rparr>)"
    using e by (auto simp: engine_ok_def bounded_def)
  show ?thesis
  proof (cases "opcode h = OP_CLOSE \<or> opcode h = OP_PING \<or> opcode h = OP_PONG")
    case True
    then show ?thesis
      using clear engine_lawsD(5,6) [OF assms(1)]
      by (auto simp: on_frame_def on_close_def Let_def opcode_defs)
  next
    case False
    then have ctl: "ctl e = []"
      using e(5,6) by (auto simp: legal_def opcode_defs word_le_nat_alt)
    have idle: "engine_ok sm ?e" "bounded ?e"
      using e ctl by (auto simp: engine_ok_def bounded_def)
    show ?thesis
    proof (cases "frame_deliver e")
      case True
      then obtain fl e' frame where d: "deliver sm ?e out = Return (fl, e', out @ frame)" "dec e' = dec e" "wstate e' = WHeader"
          "inflater e' = None \<longleftrightarrow> inflater e = None" "ctl e' = []"
          "if fl = Shut then msg e' = msg e else msg e' = [] \<and> \<not> msg_compressed e'"
        using deliver_ok [OF assms(1), of ?e out] e(3) ctl by auto
      have "bounded e'"
        using d e by (cases fl) (auto simp: bounded_def)
      moreover have "engine_ok sm e'" if "fl = Continue"
        using d e that by (auto simp: engine_ok_def)
      ultimately show ?thesis
        using d(1) True False by (simp add: on_frame_def)
    next
      case False
      then show ?thesis
        using idle \<open>\<not> (opcode h = OP_CLOSE \<or> opcode h = OP_PING \<or> opcode h = OP_PONG)\<close> by (simp add: on_frame_def)
    qed
  qed
qed

text \<open>One round of the loop in the middle of a payload.\<close>

lemma feed_payload:
  assumes "wstate e = WPayload h got" "n = min (flen h - got) (length input)"
  shows "feed sm e input out =
     bind_outcome (absorb sm e h got (take n input)) (\<lambda>(bad, e1).
       if bad then fail sm e1 out CLOSE_INVALID_PAYLOAD
       else if got + n < flen h then Return (Continue, e1\<lparr> wstate := WPayload h (got + n) \<rparr>, out)
       else bind_outcome (on_frame sm (e1\<lparr> wstate := WHeader \<rparr>) h out) (\<lambda>(fl, e2, out2).
         if fl = Shut then Return (Shut, e2, out2) else feed sm e2 (drop n input) out2))"
  unfolding assms(2) using assms(1) by (subst feed.simps) (simp add: Let_def)

lemma feed_ok:
  "engine_laws sm \<Longrightarrow> engine_ok sm e \<Longrightarrow>
     \<exists>fl e' frames. feed sm e input out = Return (fl, e', out @ frames) \<and> bounded e' \<and> (fl = Continue \<longrightarrow> engine_ok sm e')"
proof (induction sm e input out rule: feed.induct)
  case (1 sm e input out)
  note laws = "1.prems"(1) and ok = "1.prems"(2)
  show ?case
  proof (cases "wstate e")
    case WHeader
    obtain r d where st: "step (header_verdict sm) (dec e) input = (r, d)"
      by fastforce
    show ?thesis
    proof (cases r)
      case HNeedMore
      have wait: "waiting (header_verdict sm) (dec e)"
        using ok by (simp add: engine_ok_def)
      have "waiting (header_verdict sm) d" "rsv1_ok d = rsv1_ok (dec e)"
        using step_NeedMore(1,2) [OF engine_lawsD(1) [OF laws] wait st [unfolded HNeedMore]] by simp_all
      then have "engine_ok sm (e\<lparr> dec := d \<rparr>)"
        using ok WHeader by (simp add: engine_ok_def)
      then show ?thesis
        using st HNeedMore WHeader engine_ok_bounded by (subst feed.simps) auto
    next
      case (HBad code)
      have "length (hbuf d) \<le> MAX_HEADER"
        using st ok by (auto simp: step_def engine_ok_def waiting_def Let_def split: list.splits if_splits)
      then have "bounded (e\<lparr> dec := d \<rparr>)"
        using engine_ok_bounded [OF ok] by (simp add: bounded_def)
      then show ?thesis
        using st HBad WHeader engine_lawsD(6) [OF laws] by (subst feed.simps) simp
    next
      case (HDone h used)
      obtain a e1 where hd: "on_header sm (e\<lparr> dec := d \<rparr>) h = (a, e1)"
        by fastforce
      note hok = on_header_ok [OF laws ok WHeader st [unfolded HDone] hd]
      show ?thesis
      proof (cases a)
        case None
        have "\<exists>fl e' frames. feed sm (e1\<lparr> wstate := WPayload h 0 \<rparr>) (drop used input) out = Return (fl, e', out @ frames) \<and>
            bounded e' \<and> (fl = Continue \<longrightarrow> engine_ok sm e')"
          using "1.IH"(1) [OF WHeader st [symmetric] HDone hd [symmetric] None laws] hok None by simp
        then show ?thesis
          using WHeader st HDone hd None by (subst feed.simps) simp
      next
        case (Some code)
        then show ?thesis
          using WHeader st HDone hd hok engine_lawsD(6) [OF laws] by (subst feed.simps) simp
      qed
    qed
  next
    case (WPayload h got)
    define n where "n = min (flen h - got) (length input)"
    have len: "length (take n input) = n" "n \<le> flen h - got"
      by (simp_all add: n_def)
    note unf = feed_payload [OF WPayload n_def]
    obtain bad e1 where ab: "absorb sm e h got (take n input) = Return (bad, e1)" "wstate e1 = wstate e"
        "engine_ok sm (e1\<lparr> wstate := WPayload h (got + n) \<rparr>)"
      using absorb_ok [OF ok WPayload, of "take n input", unfolded len(1), OF len(2)] by (elim exE conjE)
    show ?thesis
    proof (cases bad)
      case True
      then show ?thesis
        using WPayload ab engine_lawsD(6) [OF laws] engine_ok_bounded [OF ab(3)]
        by (simp add: unf bounded_def)
    next
      case False
      show ?thesis
      proof (cases "got + n < flen h")
        case True
        then show ?thesis
          using WPayload ab False engine_ok_bounded [OF ab(3)] by (simp add: unf)
      next
        case whole: False
        have "got \<le> flen h"
          using ok WPayload by (simp add: engine_ok_def)
        then have "got + n = flen h"
          using whole len(2) by simp
        then have e1: "engine_ok sm (e1\<lparr> wstate := WPayload h (flen h) \<rparr>)"
          using ab(3) by simp
        obtain fl e2 frame where fr: "on_frame sm (e1\<lparr> wstate := WHeader \<rparr>) h out = Return (fl, e2, out @ frame)"
            "bounded e2" "fl = Continue \<longrightarrow> engine_ok sm e2"
          using on_frame_ok [OF laws e1, of h out] by auto
        show ?thesis
        proof (cases fl)
          case Shut
          then show ?thesis
            using WPayload ab False whole fr by (simp add: unf)
        next
          case Continue
          then have "\<exists>fl e' frames. feed sm e2 (drop n input) (out @ frame) = Return (fl, e', (out @ frame) @ frames) \<and>
              bounded e' \<and> (fl = Continue \<longrightarrow> engine_ok sm e')"
            using "1.IH"(2) [OF WPayload n_def refl refl ab(1) refl _ whole fr(1) refl refl _ laws] False fr(3) by simp
          then show ?thesis
            using WPayload ab False whole fr Continue by (auto simp: unf)
        qed
      qed
    qed
  qed
qed

section \<open>A connection\<close>

text \<open>The blocks a connection reads, fed one after the other until the engine shuts it.\<close>

fun ws_feed_blocks :: "('d, 'e) ws_seams \<Rightarrow> ('d, 'e) ws_engine \<Rightarrow> bytes list \<Rightarrow> bytes \<Rightarrow> ('d, 'e) fed" where
  "ws_feed_blocks sm e [] out = Return (Continue, e, out)"
| "ws_feed_blocks sm e (b # bs) out =
     bind_outcome (feed sm e b out) (\<lambda>(fl, e1, out1).
       if fl = Shut then Return (Shut, e1, out1) else ws_feed_blocks sm e1 bs out1)"

lemma ws_feed_blocks_ok:
  assumes "engine_laws sm" "engine_ok sm e"
  shows "\<exists>fl e' frames. ws_feed_blocks sm e blocks out = Return (fl, e', out @ frames) \<and> bounded e'"
  using assms(2)
proof (induction blocks arbitrary: e out)
  case Nil
  then show ?case
    using engine_ok_bounded by simp
next
  case (Cons b blocks)
  obtain fl e' frames where f: "feed sm e b out = Return (fl, e', out @ frames)" "bounded e'"
      "fl = Continue \<longrightarrow> engine_ok sm e'"
    using feed_ok [OF assms(1) Cons.prems, of b out] by (elim exE conjE)
  show ?case
  proof (cases fl)
    case Shut
    then show ?thesis
      using f by simp
  next
    case Continue
    then show ?thesis
      using f Cons.IH [of e' "out @ frames"] by auto
  qed
qed


section \<open>A small core that obeys the laws\<close>

text \<open>
  Foreign functions for messages of up to 125 ASCII bytes per frame: enough of the protocol to show
  that the laws can hold together.
\<close>

definition small_verdict :: "bytes \<Rightarrow> bytes" where
  "small_verdict p =
     (if length p < 6 then [0]
      else
        let op = p ! 0 AND 15 in
        if p ! 0 AND 112 \<noteq> 0 \<or> \<not> legal op \<or> p ! 1 < 128 \<or> 253 < p ! 1 then [1, 3, 234]
        else [2, drop_bit 7 (p ! 0), op, 6, p ! 2, p ! 3, p ! 4, p ! 5, p ! 1 - 128, 0, 0, 0, 0, 0, 0, 0])"

definition small_core :: "(unit, unit) ws_seams" where
  "small_core =
     \<lparr> header_verdict = small_verdict,
       drorb_ws_admit = (\<lambda>m b op f n cap.
         if b + n \<le> cap then push_bit 32 2 OR push_bit 8 (if m = 0 then ucast op else ucast m) OR (if f then 1 else 0) else 1009),
       ws_utf8 = (\<lambda>u xs. if u \<le> 7 \<and> (\<forall>b \<in> set xs. b < 128) then u else 255),
       ws_close_body = (\<lambda>_. 0),
       encode_header = (\<lambda>f op n. [op OR 128, of_nat n]),
       encode_close = (\<lambda>code. [136, 2, ucast (drop_bit 8 code), ucast code]),
       decompress = (\<lambda>d xs. (None, d)), reset_dec = id, compress = (\<lambda>e xs. (xs, e)), reset_enc = id \<rparr>"

lemma small_verdict_laws: "header_laws small_verdict"
  unfolding header_laws_def
proof (intro conjI allI impI)
  show "small_verdict [] = [0]"
    by (simp add: small_verdict_def)
  show "small_verdict (p @ q) = small_verdict p" if "small_verdict p \<noteq> [0]" for p q
    using that by (auto simp: small_verdict_def nth_append Let_def)
  show "small_verdict p \<noteq> [0]" if "length p = MAX_HEADER" for p
    using that by (simp add: small_verdict_def MAX_HEADER_def Let_def)
  fix p rest assume v: "small_verdict p = 2 # rest \<and> length rest = 15"
  then have r: "rest ! 2 = 6" "6 \<le> length p"
    by (auto simp: small_verdict_def Let_def split: if_splits)
  then show "unat (rest ! 2) \<le> length p"
    by simp
  show "k < unat (rest ! 2)" if "k \<le> length p" "small_verdict (take k p) = [0]" for k
    using that r by (auto simp: small_verdict_def Let_def split: if_splits)
qed

lemma small_verdict_done:
  assumes "small_verdict p = 2 # rest"
  shows "legal (rest ! 1)" "unat (le_or 0 (drop 7 rest) 0) \<le> 125"
proof -
  have b: "128 \<le> p ! 1" "p ! 1 \<le> 253" and rest: "legal (rest ! 1)" "drop 7 rest = [p ! 1 - 128, 0, 0, 0, 0, 0, 0, 0]"
    using assms by (auto simp: small_verdict_def Let_def not_less split: if_splits)
  have "unat (p ! 1 - 128) \<le> 125"
    using b unat_sub [OF b(1)] by (simp add: word_le_nat_alt)
  moreover have "unat (ucast (p ! 1 - 128) :: u64) = unat (p ! 1 - 128)"
    using calculation by (simp add: unsigned_ucast_eq take_bit_nat_eq_self)
  ultimately show "legal (rest ! 1)" "unat (le_or 0 (drop 7 rest) 0) \<le> 125"
    using rest by simp_all
qed

lemma small_core_laws: "engine_laws small_core"
  using small_verdict_laws small_verdict_done
  by (auto simp: engine_laws_def small_core_def split: if_splits)

lemma small_core_utf8: "utf8_laws small_core"
  by (auto simp: utf8_laws_def small_core_def)

text \<open>A masked text frame \<open>abc\<close>.\<close>

definition small_frame :: bytes where
  "small_frame = [129, 131, 1, 2, 3, 4, 96, 96, 96]"


end
