(* ===== verification/Ws_Cuts.thy ===== *)
theory Ws_Cuts
  imports Ws_Engine Stream_Framer
begin

text \<open>
  The WebSocket engine does not depend on how the network cuts the stream into reads: headers,
  masking, UTF-8 validation and replies are the same for every cut.
\<close>

section \<open>Chunks of a payload\<close>

text \<open>What a connection sees: the replies, and the engine while the connection lives.\<close>

fun observe :: "('d, 'e) fed \<Rightarrow> (('d, 'e) ws_engine option \<times> bytes) outcome" where
  "observe Panic = Panic"
| "observe (Return (Shut, e, out)) = Return (None, out)"
| "observe (Return (Continue, e, out)) = Return (Some e, out)"

lemma unmask_append: "unmask m base (xs @ ys) = unmask m base xs @ unmask m (base + length xs) ys"
proof -
  have "[0 ..< length (xs @ ys)] = [0 ..< length xs] @ map (\<lambda>i. i + length xs) [0 ..< length ys]"
    by (simp add: map_add_upt upt_add_eq_append [of 0] add.commute)
  then show ?thesis
    by (simp add: unmask_def nth_append o_def add.commute add.left_commute)
qed

lemma absorb_append:
  assumes "utf8_laws sm" "absorb sm e h got xs = Return (False, e1)"
  shows "absorb sm e h got (xs @ ys) = absorb sm e1 h (got + length xs) ys"
proof (cases "xs = [] \<or> ys = []")
  case True
  then show ?thesis
    using assms(2) by (auto simp: absorb_def)
next
  case False
  show ?thesis
  proof (cases "OP_CLOSE \<le> opcode h")
    case True
    then show ?thesis
      using assms(2) False by (auto simp: absorb_def unmask_append split: if_splits)
  next
    case data: False
    show ?thesis
    proof (cases "msg_op e = OP_TEXT \<and> \<not> msg_compressed e")
      case True
      then have e1: "e1 = e\<lparr> msg := msg e @ unmask (fmask h) got xs, utf8 := ws_utf8 sm (utf8 e) (unmask (fmask h) got xs) \<rparr>"
          and u: "ws_utf8 sm (utf8 e) (unmask (fmask h) got xs) \<le> 7"
        using assms(2) False data by (auto simp: absorb_def Let_def not_less)
      have "ws_utf8 sm (utf8 e) (unmask (fmask h) got xs @ zs) = ws_utf8 sm (ws_utf8 sm (utf8 e) (unmask (fmask h) got xs)) zs" for zs
        using assms(1) u by (simp add: utf8_laws_def)
      then show ?thesis
        using False data True e1 by (simp add: absorb_def Let_def unmask_append)
    next
      case other: False
      then have "e1 = e\<lparr> msg := msg e @ unmask (fmask h) got xs \<rparr>"
        using assms(2) False data by (auto simp: absorb_def Let_def)
      then show ?thesis
        using False data other by (auto simp: absorb_def Let_def unmask_append)
    qed
  qed
qed

lemma absorb_append_bad:
  assumes "utf8_laws sm" "absorb sm e h got xs = Return (True, e1)"
  shows "\<exists>e2. absorb sm e h got (xs @ ys) = Return (True, e2)"
  using assms unfolding utf8_laws_def absorb_def
  by (auto simp: unmask_append Let_def split: if_splits)

lemma absorb_wstate:
  "absorb sm (e\<lparr> wstate := w \<rparr>) h got xs = bind_outcome (absorb sm e h got xs) (\<lambda>(bad, e1). Return (bad, e1\<lparr> wstate := w \<rparr>))"
  by (simp add: absorb_def Let_def)

lemma observe_fail:
  assumes "engine_laws sm"
  shows "observe (fail sm e out code) = observe (fail sm e' out code)"
  by (simp add: fail_def engine_lawsD(6) [OF assms])

section \<open>Feeding\<close>

lemma feed_header:
  assumes "wstate e = WHeader"
  shows "feed sm e input out =
     (case step (header_verdict sm) (dec e) input of
        (HNeedMore, d) \<Rightarrow> Return (Continue, e\<lparr> dec := d \<rparr>, out)
      | (HBad code, d) \<Rightarrow> fail sm (e\<lparr> dec := d \<rparr>) out code
      | (HDone h used, d) \<Rightarrow>
          (case on_header sm (e\<lparr> dec := d \<rparr>) h of
             (Some code, e1) \<Rightarrow> fail sm e1 out code
           | (None, e1) \<Rightarrow> feed sm (e1\<lparr> wstate := WPayload h 0 \<rparr>) (drop used input) out))"
  using assms by (subst feed.simps) simp

definition feed_then :: "('d, 'e) ws_seams \<Rightarrow> bytes \<Rightarrow> ('d, 'e) fed \<Rightarrow> ('d, 'e) fed" where
  "feed_then sm ys r = bind_outcome r (\<lambda>(fl, e1, out1). if fl = Shut then Return (Shut, e1, out1) else feed sm e1 ys out1)"

lemma feed_then_fail [simp]: "feed_then sm ys (fail sm e out code) = fail sm e out code"
  by (cases "encode_close_into (encode_close sm) out code") (simp_all add: feed_then_def fail_def)

lemma feed_then_Continue [simp]: "feed_then sm ys (Return (Continue, e, out)) = feed sm e ys out"
  by (simp add: feed_then_def)

lemma feed_then_Shut [simp]: "feed_then sm ys (Return (Shut, e, out)) = Return (Shut, e, out)"
  by (simp add: feed_then_def)

lemma feed_append_NeedMore:
  assumes "engine_laws sm" "engine_ok sm e" "wstate e = WHeader"
    and "step (header_verdict sm) (dec e) xs = (HNeedMore, d)"
  shows "feed sm e (xs @ ys) out = feed sm (e\<lparr> dec := d \<rparr>) ys out"
proof -
  have wait: "waiting (header_verdict sm) (dec e)"
    using assms(2) by (simp add: engine_ok_def)
  note split = step_append_NeedMore [OF engine_lawsD(1) [OF assms(1)] wait assms(4), of ys]
  show ?thesis
    using assms(3) by (cases "step (header_verdict sm) d ys") (auto simp: feed_header split split: header_step.split option.split prod.split)
qed

lemma feed_append_payload:
  assumes "utf8_laws sm" "engine_laws sm" "wstate e = WPayload h got" "length xs < flen h - got"
  shows "observe (feed sm e (xs @ ys) out) = observe (feed_then sm ys (feed sm e xs out))"
proof -
  define m where "m = min (flen h - (got + length xs)) (length ys)"
  have n: "length xs + m = min (flen h - got) (length (xs @ ys))"
    using assms(4) by (auto simp: m_def)
  have n1: "length xs = min (flen h - got) (length xs)"
    using assms(4) by simp
  have "drop (length xs + m) (xs @ ys) = drop m ys"
    by simp
  note whole = feed_payload [OF assms(3) n, of sm out, unfolded this] and part = feed_payload [OF assms(3) n1, of sm out]
  have more: "got + length xs < flen h"
    using assms(4) by simp
  show ?thesis
  proof (cases "absorb sm e h got xs")
    case Panic
    then have "absorb sm e h got (xs @ zs) = Panic" for zs
      by (auto simp: absorb_def Let_def split: if_splits)
    then show ?thesis
      using Panic by (simp add: whole part feed_then_def)
  next
    case (Return r)
    then obtain bad e1 where ab: "absorb sm e h got xs = Return (bad, e1)"
      by (cases r) auto
    show ?thesis
    proof (cases bad)
      case True
      then obtain e2 where "absorb sm e h got (xs @ take m ys) = Return (True, e2)"
        using absorb_append_bad [OF assms(1) ab [unfolded eqTrueI [OF True]]] by blast
      then show ?thesis
        using ab True observe_fail [OF assms(2)] by (simp add: whole part)
    next
      case False
      let ?e = "e1\<lparr> wstate := WPayload h (got + length xs) \<rparr>"
      have e: "wstate ?e = WPayload h (got + length xs)"
        by simp
      have "absorb sm e h got (xs @ take m ys) = absorb sm e1 h (got + length xs) (take m ys)"
        using absorb_append [OF assms(1)] ab False by simp
      moreover have "absorb sm ?e h (got + length xs) (take m ys) =
          bind_outcome (absorb sm e1 h (got + length xs) (take m ys)) (\<lambda>(bad, e1). Return (bad, e1\<lparr> wstate := WPayload h (got + length xs) \<rparr>))"
        by (rule absorb_wstate)
      ultimately show ?thesis
        using ab False more observe_fail [OF assms(2)]
        by (cases "absorb sm e1 h (got + length xs) (take m ys)")
          (auto simp: whole part feed_payload [OF e m_def] add.assoc)
    qed
  qed
qed

lemma feed_append:
  "engine_laws sm \<Longrightarrow> utf8_laws sm \<Longrightarrow> engine_ok sm e \<Longrightarrow>
     observe (feed sm e (xs @ ys) out) = observe (feed_then sm ys (feed sm e xs out))"
proof (induction sm e xs out rule: feed.induct)
  case (1 sm e xs out)
  note laws = "1.prems"(1) and ok = "1.prems"(3)
  have wait: "waiting (header_verdict sm) (dec e)"
    using ok by (simp add: engine_ok_def)
  show ?case
  proof (cases "wstate e")
    case WHeader
    obtain r d where st: "step (header_verdict sm) (dec e) xs = (r, d)"
      by fastforce
    show ?thesis
    proof (cases r)
      case HNeedMore
      then show ?thesis
        using feed_append_NeedMore [OF laws ok WHeader] st by (simp add: feed_header [OF WHeader, of sm xs])
    next
      case (HBad code)
      obtain d2 where "step (header_verdict sm) (dec e) (xs @ ys) = (HBad code, d2)"
        using step_append_Bad [OF engine_lawsD(1) [OF laws] wait st [unfolded HBad], of ys]
        by (cases "step (header_verdict sm) (dec e) (xs @ ys)") auto
      then show ?thesis
        using st HBad observe_fail [OF laws] by (simp add: feed_header [OF WHeader])
    next
      case (HDone h used)
      note dn = step_append_Done [OF engine_lawsD(1) [OF laws] wait st [unfolded HDone]]
      obtain a e1 where hd: "on_header sm (e\<lparr> dec := d \<rparr>) h = (a, e1)"
        by fastforce
      show ?thesis
      proof (cases a)
        case None
        have "engine_ok sm (e1\<lparr> wstate := WPayload h 0 \<rparr>)"
          using on_header_ok [OF laws ok WHeader st [unfolded HDone] hd] None by simp
        then show ?thesis
          using "1.IH"(1) [OF WHeader st [symmetric] HDone hd [symmetric] None laws "1.prems"(2)] st HDone hd None dn(1,3)
          by (simp add: feed_header [OF WHeader])
      next
        case (Some code)
        then show ?thesis
          using st HDone hd dn(1) by (simp add: feed_header [OF WHeader])
      qed
    qed
  next
    case (WPayload h got)
    show ?thesis
    proof (cases "length xs < flen h - got")
      case True
      then show ?thesis
        using feed_append_payload [OF "1.prems"(2) laws WPayload] by blast
    next
      case False
      define n where "n = min (flen h - got) (length xs)"
      have n: "n = flen h - got" "n \<le> length xs"
        using False by (simp_all add: n_def)
      then have n': "n = min (flen h - got) (length (xs @ ys))"
        by simp
      have le: "got \<le> flen h"
        using ok WPayload by (simp add: engine_ok_def)
      have cut: "take n (xs @ ys) = take n xs" "drop n (xs @ ys) = drop n xs @ ys"
        using n by simp_all
      note whole = feed_payload [OF WPayload n', of sm out, unfolded cut] and part = feed_payload [OF WPayload n_def, of sm out]
      have len: "length (take n xs) = n" "n \<le> flen h - got"
        using n by simp_all
      obtain bad e1 where ab: "absorb sm e h got (take n xs) = Return (bad, e1)" "wstate e1 = wstate e"
          "engine_ok sm (e1\<lparr> wstate := WPayload h (got + n) \<rparr>)"
        using absorb_ok [OF ok WPayload, of "take n xs", unfolded len(1), OF len(2)] by (elim exE conjE)
      have full: "\<not> got + n < flen h" "got + n = flen h"
        using n le by simp_all
      show ?thesis
      proof (cases bad)
        case True
        then show ?thesis
          using ab(1) by (simp add: whole part)
      next
        case good: False
        obtain fl e2 frame where fr: "on_frame sm (e1\<lparr> wstate := WHeader \<rparr>) h out = Return (fl, e2, out @ frame)"
            "fl = Continue \<longrightarrow> engine_ok sm e2"
          using on_frame_ok [OF laws ab(3), of h out] full(2) by auto
        show ?thesis
        proof (cases fl)
          case Shut
          then show ?thesis
            using ab(1) good full(1) fr by (simp add: whole part)
        next
          case Continue
          then have "observe (feed sm e2 (drop n xs @ ys) (out @ frame)) = observe (feed_then sm ys (feed sm e2 (drop n xs) (out @ frame)))"
            using "1.IH"(2) [OF WPayload n_def refl refl ab(1) refl _ full(1) fr(1) refl refl _ laws "1.prems"(2)] good fr(2) by simp
          then show ?thesis
            using ab(1) good full(1) fr Continue by (simp add: whole part)
        qed
      qed
    qed
  qed
qed

lemma feed_empty:
  assumes "engine_laws sm" "engine_ok sm e"
  shows "wstate e = WHeader \<Longrightarrow> feed sm e [] out = Return (Continue, e, out)"
proof -
  assume w: "wstate e = WHeader"
  have wait: "waiting (header_verdict sm) (dec e)"
    using assms(2) by (simp add: engine_ok_def)
  then have "step (header_verdict sm) (dec e) [] = (HNeedMore, dec e)"
    using step_waiting [OF engine_lawsD(1) [OF assms(1)] wait, of "[]"] by (simp add: waiting_def filled_def)
  then show ?thesis
    using w by (simp add: feed_header)
qed

lemma ws_feed_blocks_concat:
  assumes "engine_laws sm" "utf8_laws sm"
  shows "engine_ok sm e \<Longrightarrow> observe (ws_feed_blocks sm e (b # bs) out) = observe (feed sm e (b @ concat bs) out)"
proof (induction bs arbitrary: b e out)
  case Nil
  have "bind_outcome r (\<lambda>(fl, e1, out1). if fl = Shut then Return (Shut, e1, out1) else ws_feed_blocks sm e1 [] out1) = r" for r
    by (cases r rule: observe.cases) auto
  then show ?case
    by simp
next
  case (Cons c bs)
  obtain fl e' frames where f: "feed sm e b out = Return (fl, e', out @ frames)" "fl = Continue \<longrightarrow> engine_ok sm e'"
    using feed_ok [OF assms(1) Cons.prems, of b out] by (elim exE conjE)
  have "observe (feed sm e (b @ concat (c # bs)) out) = observe (feed_then sm (c @ concat bs) (feed sm e b out))"
    using feed_append [OF assms Cons.prems, of b "c @ concat bs" out] by simp
  also have "\<dots> = observe (ws_feed_blocks sm e (b # c # bs) out)"
  proof (cases fl)
    case Shut
    then show ?thesis
      using f by simp
  next
    case Continue
    then show ?thesis
      using f Cons.IH [of e' c "out @ frames"] by simp
  qed
  finally show ?case
    by simp
qed

text \<open>
  C19: Where the network cuts the stream does not matter: under the laws of the foreign functions, an
  engine fed a client's bytes in any blocks answers exactly what it answers when fed them in one piece,
  is shut in the same cases with the same close frame, and otherwise ends in the same state.
\<close>

theorem ws_cuts_do_not_matter:
  assumes "engine_laws sm" "utf8_laws sm"
  shows "observe (ws_feed_blocks sm (with_config new_dec new_enc cfg) blocks out) =
         observe (feed sm (with_config new_dec new_enc cfg) (concat blocks) out)"
proof (cases blocks)
  case Nil
  then show ?thesis
    using feed_empty [OF assms(1) with_config_ok [OF assms(1)]] by (simp add: with_config_def)
next
  case (Cons b bs)
  then show ?thesis
    using ws_feed_blocks_concat [OF assms with_config_ok [OF assms(1)]] by simp
qed

theorem ws_cuts_do_not_matter_witness:
  "observe (ws_feed_blocks small_core (with_config () (\<lambda>_. ()) ws_config_default) [take 4 small_frame, drop 4 small_frame] []) =
   observe (feed small_core (with_config () (\<lambda>_. ()) ws_config_default) small_frame [])"
  using ws_cuts_do_not_matter [OF small_core_laws small_core_utf8, of "()" "\<lambda>_. ()" ws_config_default
      "[take 4 small_frame, drop 4 small_frame]" "[]"]
  by simp

end
