(* ===== verification/Base64.thy ===== *)
theory Base64
  imports Bytes Codec
begin

text \<open>
  The two halves of base64 in the host: the encoder of \<^verbatim>\<open>ws.rs\<close>, for the WebSocket accept token, and
  the decoder of \<^verbatim>\<open>control.rs\<close>, for the handshake header of the control channel.
\<close>

unbundle bit_operations_syntax

section \<open>Encoding\<close>

definition b64_alphabet :: bytes where
  "b64_alphabet = ascii ''ABCDEFGHIJKLMNOPQRSTUVWXYZabcdefghijklmnopqrstuvwxyz0123456789+/''"

definition b64_word :: "byte \<Rightarrow> byte \<Rightarrow> byte \<Rightarrow> u32" where
  "b64_word a b c = push_bit 16 (ucast a) OR push_bit 8 (ucast b) OR ucast c"

definition b64_char :: "u32 \<Rightarrow> nat \<Rightarrow> byte" where
  "b64_char v k = b64_alphabet ! unat (drop_bit k v AND 63)"

abbreviation PAD :: byte where "PAD \<equiv> 61"

fun base64 :: "bytes \<Rightarrow> bytes" where
  "base64 [] = []"
| "base64 [a] = (let v = b64_word a 0 0 in [b64_char v 18, b64_char v 12, PAD, PAD])"
| "base64 [a, b] = (let v = b64_word a b 0 in [b64_char v 18, b64_char v 12, b64_char v 6, PAD])"
| "base64 (a # b # c # rest) =
     (let v = b64_word a b c in [b64_char v 18, b64_char v 12, b64_char v 6, b64_char v 0]) @ base64 rest"

section \<open>Decoding\<close>

definition b64_val :: "byte \<Rightarrow> byte option" where
  "b64_val b =
     (if 65 \<le> b \<and> b \<le> 90 then Some (b - 65)
      else if 97 \<le> b \<and> b \<le> 122 then Some (b - 97 + 26)
      else if 48 \<le> b \<and> b \<le> 57 then Some (b - 48 + 52)
      else if b = 43 then Some 62
      else if b = 47 then Some 63
      else None)"

text \<open>One group of four characters: the accumulator and the number of pads.\<close>

fun b64_chunk :: "bool \<Rightarrow> nat \<Rightarrow> u32 \<Rightarrow> nat \<Rightarrow> bytes \<Rightarrow> (u32 \<times> nat) option" where
  "b64_chunk is_last i acc pad [] = Some (acc, pad)"
| "b64_chunk is_last i acc pad (b # bs) =
     (if b = PAD then
        (if \<not> is_last \<or> i < 2 \<or> 2 \<le> pad then None
         else b64_chunk is_last (Suc i) (push_bit 6 acc) (Suc pad) bs)
      else if pad \<noteq> 0 then None
      else case b64_val b of
             None \<Rightarrow> None
           | Some v \<Rightarrow> b64_chunk is_last (Suc i) (push_bit 6 acc OR ucast v) pad bs)"

definition b64_bytes :: "u32 \<Rightarrow> nat \<Rightarrow> bytes" where
  "b64_bytes acc pad =
     [ucast (drop_bit 16 acc)] @ (if pad < 2 then [ucast (drop_bit 8 acc)] else []) @ (if pad < 1 then [ucast acc] else [])"

function b64_chunks :: "bytes \<Rightarrow> bytes option" where
  "b64_chunks s =
     (if s = [] then Some []
      else case b64_chunk (drop 4 s = []) 0 0 0 (take 4 s) of
             None \<Rightarrow> None
           | Some (acc, pad) \<Rightarrow> map_option (\<lambda>out. b64_bytes acc pad @ out) (b64_chunks (drop 4 s)))"
  by pat_completeness auto
termination
  by (relation "measure length") auto

declare b64_chunks.simps [simp del]

definition b64_decode :: "bytes \<Rightarrow> bytes option" where
  "b64_decode str =
     (let s = str_trim str in if s = [] \<or> length s mod 4 \<noteq> 0 then None else b64_chunks s)"

section \<open>Round trip\<close>

lemma b64_alphabet_list:
  "map b64_val b64_alphabet = map (\<lambda>n. Some (of_nat n)) [0 ..< 64]"
  "list_all (\<lambda>b. b \<noteq> PAD \<and> b < 128 \<and> \<not> is_unicode_whitespace [b]) b64_alphabet"
  by (simp_all add: b64_alphabet_def b64_val_def is_unicode_whitespace_def upt_rec [of _ 64])

lemma b64_alphabet_vals:
  assumes "n < 64"
  shows "b64_val (b64_alphabet ! n) = Some (of_nat n)" "b64_alphabet ! n \<noteq> PAD" "b64_alphabet ! n < 128"
    "\<not> is_unicode_whitespace [b64_alphabet ! n]"
proof -
  have len: "length b64_alphabet = 64"
    by (simp add: b64_alphabet_def)
  then have "map b64_val b64_alphabet ! n = Some (of_nat n)"
    using assms by (simp add: b64_alphabet_list(1) del: nth_map) simp
  then show "b64_val (b64_alphabet ! n) = Some (of_nat n)"
    using len assms by simp
  show "b64_alphabet ! n \<noteq> PAD" "b64_alphabet ! n < 128" "\<not> is_unicode_whitespace [b64_alphabet ! n]"
    using b64_alphabet_list(2) len assms by (auto simp: list_all_length)
qed

lemma and_63: "(v :: u32) AND 63 = take_bit 6 v"
  by (simp add: take_bit_eq_mask mask_eq_exp_minus_1)

lemma sextet_less: "unat ((v :: u32) AND 63) < 64"
  unfolding and_63 using take_bit_nat_less_exp [of 6 "unat v"] by (simp add: unsigned_take_bit_eq)

lemma sextet_val: "ucast (of_nat (unat ((v :: u32) AND 63)) :: byte) = v AND 63"
proof -
  have "(of_nat (unat (v AND 63)) :: byte) = ucast (v AND 63)"
    by simp
  moreover have "ucast (ucast (v AND 63) :: byte) = v AND 63"
    unfolding and_63 by (rule bit_word_eqI) (auto simp: bit_simps)
  ultimately show ?thesis
    by simp
qed

text \<open>Each character appends the next six bits of the word to the accumulator.\<close>

lemma join_sextet: "push_bit 6 (drop_bit (k + 6) v) OR (drop_bit k v AND 63) = drop_bit k (v :: u32)"
  unfolding and_63
proof (rule bit_word_eqI)
  show "bit (push_bit 6 (drop_bit (k + 6) v) OR take_bit 6 (drop_bit k v)) n = bit (drop_bit k v) n" if "n < LENGTH(32)" for n
    using that by (cases "6 \<le> n") (auto simp: bit_simps)
qed

lemma b64_sextet:
  "b64_chunk l i (drop_bit (k + 6) v) 0 (b64_char v k # bs) = b64_chunk l (Suc i) (drop_bit k v) 0 bs"
  using b64_alphabet_vals(1,2) [OF sextet_less [of "drop_bit k v"]] sextet_val [of "drop_bit k v"] join_sextet [of k v]
  by (simp add: b64_char_def)

lemma b64_word_top: "drop_bit 24 (b64_word a b c) = 0"
  by (rule bit_word_eqI) (auto simp: b64_word_def bit_simps dest: bit_imp_le_length)

lemma b64_word_bytes:
  "ucast (drop_bit 16 (b64_word a b c)) = a" "ucast (drop_bit 8 (b64_word a b c)) = b" "ucast (b64_word a b c) = c"
proof -
  have "bit (ucast (drop_bit 16 (b64_word a b c)) :: byte) n = bit a n" "bit (ucast (drop_bit 8 (b64_word a b c)) :: byte) n = bit b n"
      "bit (ucast (b64_word a b c) :: byte) n = bit c n" if "n < 8" for n
    using that by (auto simp: b64_word_def bit_simps dest: bit_imp_le_length)
  then show "ucast (drop_bit 16 (b64_word a b c)) = a" "ucast (drop_bit 8 (b64_word a b c)) = b" "ucast (b64_word a b c) = c"
    by (auto intro!: bit_word_eqI)
qed

lemma b64_group_3:
  "b64_chunk l 0 0 0 [b64_char v 18, b64_char v 12, b64_char v 6, b64_char v 0] = Some (v, 0)"
  if "drop_bit 24 v = 0"
  using that b64_sextet [of l 0 18 v] b64_sextet [of l 1 12 v] b64_sextet [of l 2 6 v] b64_sextet [of l 3 0 v]
  by (simp add: eval_nat_numeral)

lemma pad_bits:
  "drop_bit 6 (b64_word a 0 0) AND 63 = 0" "b64_word a b 0 AND 63 = 0" "b64_word a 0 0 AND 63 = 0"
  unfolding and_63 by (rule bit_word_eqI; auto simp: b64_word_def bit_simps)+

lemma b64_group_2:
  "b64_chunk True 0 0 0 [b64_char (b64_word a b 0) 18, b64_char (b64_word a b 0) 12, b64_char (b64_word a b 0) 6, PAD] =
     Some (b64_word a b 0, 1)"
  using b64_word_top [of a b 0] b64_sextet [of True 0 18 "b64_word a b 0"] b64_sextet [of True 1 12 "b64_word a b 0"]
    b64_sextet [of True 2 6 "b64_word a b 0"] join_sextet [of 0 "b64_word a b 0"] pad_bits(2) [of a b]
  by (simp add: eval_nat_numeral)

lemma b64_group_1:
  "b64_chunk True 0 0 0 [b64_char (b64_word a 0 0) 18, b64_char (b64_word a 0 0) 12, PAD, PAD] = Some (b64_word a 0 0, 2)"
  using b64_word_top [of a 0 0] b64_sextet [of True 0 18 "b64_word a 0 0"] b64_sextet [of True 1 12 "b64_word a 0 0"]
    join_sextet [of 6 "b64_word a 0 0"] join_sextet [of 0 "b64_word a 0 0"] pad_bits(1,3) [of a]
  by (simp add: eval_nat_numeral)

lemma b64_chunks_base64: "b64_chunks (base64 bs) = Some bs"
proof (induction bs rule: base64.induct)
  case 1
  then show ?case
    by (simp add: b64_chunks.simps)
next
  case (2 a)
  then show ?case
    using b64_group_1 [of a] b64_word_bytes(1) [of a 0 0]
    by (subst b64_chunks.simps) (simp add: Let_def b64_bytes_def b64_chunks.simps)
next
  case (3 a b)
  then show ?case
    using b64_group_2 [of a b] b64_word_bytes(1,2) [of a b 0]
    by (subst b64_chunks.simps) (simp add: Let_def b64_bytes_def b64_chunks.simps)
next
  case (4 a b c rest)
  then show ?case
    using b64_group_3 [OF b64_word_top, of "base64 rest = []" a b c] b64_word_bytes [of a b c]
    by (subst b64_chunks.simps) (simp add: Let_def b64_bytes_def)
qed

text \<open>The encoder writes no white space, so the decoder's trim leaves its output alone.\<close>

lemma b64_char_plain: "b64_char v k < 128" "\<not> is_unicode_whitespace [b64_char v k]"
  using b64_alphabet_vals(3,4) [OF sextet_less] by (simp_all add: b64_char_def)

lemma base64_plain: "b \<in> set (base64 bs) \<Longrightarrow> b < 128 \<and> \<not> is_unicode_whitespace [b]"
proof -
  have "\<not> is_unicode_whitespace [PAD]"
    by (simp add: is_unicode_whitespace_def)
  then show "b \<in> set (base64 bs) \<Longrightarrow> b < 128 \<and> \<not> is_unicode_whitespace [b]"
    by (induction bs rule: base64.induct) (auto simp: Let_def b64_char_plain)
qed

lemma base64_length: "length (base64 bs) mod 4 = 0"
  by (induction bs rule: base64.induct) (auto simp: Let_def)

lemma str_trim_base64: "str_trim (base64 bs) = base64 bs"
proof -
  have "utf8_chars (base64 bs) = Some (map (\<lambda>b. [b]) (base64 bs))"
    using base64_plain by (intro utf8_chars_ascii) blast
  moreover have "trim_by is_unicode_whitespace (map (\<lambda>b. [b]) (base64 bs)) = map (\<lambda>b. [b]) (base64 bs)"
    using base64_plain [OF hd_in_set] base64_plain [OF last_in_set] by (intro trim_by_id) (auto simp: hd_map last_map)
  ultimately show ?thesis
    by (simp add: str_trim_def)
qed

interpretation b64: codec base64 b64_decode "\<lambda>bs. bs \<noteq> []"
proof
  show "b64_decode (base64 bs) = Some bs" if "bs \<noteq> []" for bs
  proof -
    have "base64 bs \<noteq> []"
      using that by (cases bs rule: base64.cases) (simp_all add: Let_def)
    then show ?thesis
      by (simp add: b64_decode_def str_trim_base64 base64_length b64_chunks_base64 Let_def)
  qed
qed

text \<open>
  Every non-empty byte string survives base64: the control channel's decoder gives back exactly what
  the WebSocket encoder was given, and two different inputs never have the same encoding.
\<close>

theorem base64_round_trip:
  assumes "bs \<noteq> []"
  shows "b64_decode (base64 bs) = Some bs \<and> (\<forall>cs. cs \<noteq> [] \<and> base64 cs = base64 bs \<longrightarrow> cs = bs)"
  using b64.round_trip [OF assms] b64.enc_inj [OF _ assms] by blast

theorem base64_round_trip_witness: "b64_decode (base64 (ascii ''any'')) = Some (ascii ''any'')"
  using base64_round_trip [of "ascii ''any''"] by simp

end
