(* ===== verification/Ws_Handshake.thy ===== *)
theory Ws_Handshake
  imports Base64 Ws_Engine
begin

text \<open>
  The opening handshake of \<^verbatim>\<open>ws.rs\<close>: SHA-1 and the accept token, the test for an upgrade request, the
  negotiation of per-message compression, and the switching response.
\<close>

section \<open>SHA-1\<close>

type_synonym sha_state = "u32 \<times> u32 \<times> u32 \<times> u32 \<times> u32"

definition sha_init :: sha_state where
  "sha_init = (0x67452301, 0xEFCDAB89, 0x98BADCFE, 0x10325476, 0xC3D2E1F0)"

function pad_zeros :: "bytes \<Rightarrow> bytes" where
  "pad_zeros m = (if length m mod 64 = 56 then m else pad_zeros (m @ [0]))"
  by pat_completeness auto
termination
proof (relation "measure (\<lambda>m. (120 - length m mod 64) mod 64)", goal_cases)
  case (2 m)
  define r where "r = length m mod 64"
  have "r < 64" "r \<noteq> 56"
    using 2 by (simp_all add: r_def)
  then have "(120 - (if Suc r = 64 then 0 else Suc r)) mod 64 < (120 - r) mod 64"
    by (cases "r < 56") (auto simp: le_mod_geq)
  then show ?case
    by (auto simp: mod_Suc simp flip: r_def split: if_splits)
qed simp

declare pad_zeros.simps [simp del]

definition u64_to_be_bytes :: "u64 \<Rightarrow> bytes" where
  "u64_to_be_bytes w = map (\<lambda>i. ucast (drop_bit (8 * (7 - i)) w)) [0, 1, 2, 3, 4, 5, 6, 7]"

definition u32_to_be_bytes :: "u32 \<Rightarrow> bytes" where
  "u32_to_be_bytes w = [ucast (drop_bit 24 w), ucast (drop_bit 16 w), ucast (drop_bit 8 w), ucast w]"

definition u32_from_be_bytes :: "byte \<Rightarrow> byte \<Rightarrow> byte \<Rightarrow> byte \<Rightarrow> u32" where
  "u32_from_be_bytes a b c d =
     push_bit 24 (ucast a) OR push_bit 16 (ucast b) OR push_bit 8 (ucast c) OR ucast d"

definition sha_pad :: "bytes \<Rightarrow> bytes" where
  "sha_pad m = pad_zeros (m @ [0x80]) @ u64_to_be_bytes (of_nat (length m) * 8)"

text \<open>The message schedule of one block: sixteen words of the block, then sixty-four mixed ones.\<close>

definition sha_words :: "bytes \<Rightarrow> u32 list" where
  "sha_words chunk =
     map (\<lambda>i. u32_from_be_bytes (chunk ! (4 * i)) (chunk ! (4 * i + 1)) (chunk ! (4 * i + 2)) (chunk ! (4 * i + 3))) [0 ..< 16]"

fun sha_extend :: "nat \<Rightarrow> u32 list \<Rightarrow> u32 list" where
  "sha_extend 0 w = w"
| "sha_extend (Suc n) w =
     (let i = length w in
      sha_extend n (w @ [word_rotl 1 (w ! (i - 3) XOR w ! (i - 8) XOR w ! (i - 14) XOR w ! (i - 16))]))"

definition sha_fk :: "nat \<Rightarrow> u32 \<Rightarrow> u32 \<Rightarrow> u32 \<Rightarrow> u32 \<times> u32" where
  "sha_fk i b c d =
     (if i \<le> 19 then ((b AND c) OR ((NOT b) AND d), 0x5A827999)
      else if i \<le> 39 then (b XOR c XOR d, 0x6ED9EBA1)
      else if i \<le> 59 then ((b AND c) OR (b AND d) OR (c AND d), 0x8F1BBCDC)
      else (b XOR c XOR d, 0xCA62C1D6))"

fun sha_rounds :: "nat \<Rightarrow> u32 list \<Rightarrow> sha_state \<Rightarrow> sha_state" where
  "sha_rounds i [] s = s"
| "sha_rounds i (wi # ws) (a, b, c, d, e) =
     (let (f, k) = sha_fk i b c d; t = word_rotl 5 a + f + e + k + wi
      in sha_rounds (Suc i) ws (t, a, word_rotl 30 b, c, d))"

definition sha_block :: "sha_state \<Rightarrow> bytes \<Rightarrow> sha_state" where
  "sha_block h chunk =
     (case (h, sha_rounds 0 (sha_extend 64 (sha_words chunk)) h) of
        ((h0, h1, h2, h3, h4), (a, b, c, d, e)) \<Rightarrow> (h0 + a, h1 + b, h2 + c, h3 + d, h4 + e))"

text \<open>\<open>chunks_exact\<close>: a last block shorter than 64 bytes would be ignored.\<close>

function sha_blocks :: "sha_state \<Rightarrow> bytes \<Rightarrow> sha_state" where
  "sha_blocks h m = (if length m < 64 then h else sha_blocks (sha_block h (take 64 m)) (drop 64 m))"
  by pat_completeness auto
termination
  by (relation "measure (\<lambda>(h, m). length m)") auto

declare sha_blocks.simps [simp del]

definition sha1 :: "bytes \<Rightarrow> bytes" where
  "sha1 m =
     (case sha_blocks sha_init (sha_pad m) of
        (h0, h1, h2, h3, h4) \<Rightarrow> concat (map u32_to_be_bytes [h0, h1, h2, h3, h4]))"

section \<open>Upgrade requests\<close>

definition ci_find :: "bytes \<Rightarrow> bytes \<Rightarrow> nat option" where
  "ci_find hay needle =
     (if needle = [] \<or> length hay < length needle then None
      else window_position (length needle) (\<lambda>w. eq_ignore_ascii_case w needle) hay)"

definition is_ws_upgrade :: "bytes \<Rightarrow> bool" where
  "is_ws_upgrade head \<longleftrightarrow>
     ci_find head (ascii ''sec-websocket-key:'') \<noteq> None \<and> ci_find head (ascii ''websocket'') \<noteq> None"

definition GUID :: bytes where
  "GUID = ascii ''258EAFA5-E914-47DA-95CA-C5AB0DC85B11''"

text \<open>What follows a field name, up to the end of its line.\<close>

definition rest_of_line :: "bytes \<Rightarrow> bytes" where
  "rest_of_line bs = takeWhile (\<lambda>b. b \<noteq> CR \<and> b \<noteq> LF) bs"

section \<open>Negotiation\<close>

definition trim_quotes :: "bytes \<Rightarrow> bytes" where
  "trim_quotes s = trim_by (\<lambda>b. b = 34) s"

text \<open>One parameter of an offer: the configuration, the response so far, and whether the offer still stands.\<close>

definition deflate_param :: "bytes \<Rightarrow> ws_config \<times> bytes \<times> bool \<Rightarrow> ws_config \<times> bytes \<times> bool" where
  "deflate_param param s =
     (case s of (cfg, resp, window_ok) \<Rightarrow>
        if param = [] then s
        else
          let (key, val) = (case split_once (\<lambda>b. b = 61) param of
                              (k, Some v) \<Rightarrow> (str_trim k, Some (trim_quotes (str_trim v)))
                            | (k, None) \<Rightarrow> (param, None))
          in if key = ascii ''server_no_context_takeover''
             then (cfg\<lparr> server_no_context_takeover := True \<rparr>, resp @ ascii ''; server_no_context_takeover'', window_ok)
             else if key = ascii ''client_no_context_takeover''
             then (cfg\<lparr> client_no_context_takeover := True \<rparr>, resp @ ascii ''; client_no_context_takeover'', window_ok)
             else if key = ascii ''server_max_window_bits'' then
               (case Option.bind val (parse_uint 8) of
                  Some n \<Rightarrow>
                    if 9 \<le> n \<and> n \<le> 15
                    then (cfg\<lparr> server_max_window_bits := n \<rparr>,
                          resp @ ascii ''; server_max_window_bits='' @ dec_digits n, window_ok)
                    else (cfg, resp, False)
                | None \<Rightarrow> (cfg, resp, False))
             else if key = ascii ''client_max_window_bits'' then
               (case val of
                  None \<Rightarrow> s
                | Some v \<Rightarrow>
                    (case parse_uint 8 v of
                       Some n \<Rightarrow> if 8 \<le> n \<and> n \<le> 15 then s else (cfg, resp, False)
                     | None \<Rightarrow> (cfg, resp, False)))
             else (cfg, resp, False))"

definition deflate_offer :: "bytes \<Rightarrow> (bytes \<times> ws_config) option" where
  "deflate_offer offer =
     (let parts = map str_trim (split_on (\<lambda>b. b = 59) offer) in
      if \<not> eq_ignore_ascii_case (hd parts) (ascii ''permessage-deflate'') then None
      else
        let (cfg, resp, window_ok) =
              fold deflate_param (tl parts)
                (ws_config_default\<lparr> cfg_deflate := True \<rparr>, ascii ''permessage-deflate'', True)
        in if window_ok then Some (resp, cfg) else None)"

fun first_offer :: "bytes list \<Rightarrow> (bytes \<times> ws_config) option" where
  "first_offer [] = None"
| "first_offer (o1 # os) = (case deflate_offer o1 of Some r \<Rightarrow> Some r | None \<Rightarrow> first_offer os)"

definition negotiate_deflate :: "bytes \<Rightarrow> (bytes \<times> ws_config) option" where
  "negotiate_deflate head =
     (let name = ascii ''sec-websocket-extensions:'' in
      case ci_find head name of
        None \<Rightarrow> None
      | Some hi \<Rightarrow>
          (let value = rest_of_line (drop (hi + length name) head) in
           if utf8_valid value then first_offer (split_on (\<lambda>b. b = 44) value) else None))"

definition upgrade_response :: "bytes \<Rightarrow> (bytes \<times> ws_config) option" where
  "upgrade_response head =
     (let name = ascii ''sec-websocket-key:'' in
      case ci_find head name of
        None \<Rightarrow> None
      | Some ki \<Rightarrow>
          (let key = rest_of_line (dropWhile (\<lambda>b. b = SP \<or> b = HTAB) (drop (ki + length name) head));
               accept = base64 (sha1 (key @ GUID));
               (ext_header, cfg) = (case negotiate_deflate head of
                  Some (value, cfg) \<Rightarrow> (ascii ''Sec-WebSocket-Extensions: '' @ value @ CRLF, cfg)
                | None \<Rightarrow> ([], ws_config_default))
           in Some (ascii ''HTTP/1.1 101 Switching Protocols'' @ CRLF @ ascii ''Upgrade: websocket'' @ CRLF @
                    ascii ''Connection: Upgrade'' @ CRLF @ ascii ''Sec-WebSocket-Accept: '' @ accept @ CRLF @
                    ext_header @ CRLF, cfg)))"

section \<open>The digest\<close>

lemma pad_zeros_props: "length (pad_zeros m) mod 64 = 56" "\<exists>k. pad_zeros m = m @ replicate k 0"
proof (induction m rule: pad_zeros.induct)
  case (1 m)
  show "length (pad_zeros m) mod 64 = 56"
    using 1 by (subst pad_zeros.simps) simp
  show "\<exists>k. pad_zeros m = m @ replicate k 0"
  proof (cases "length m mod 64 = 56")
    case True
    then show ?thesis
      by (intro exI [of _ 0]) (simp add: pad_zeros.simps)
  next
    case False
    then obtain k where "pad_zeros (m @ [0]) = (m @ [0]) @ replicate k 0"
      using 1(2) by blast
    then show ?thesis
      using False by (intro exI [of _ "Suc k"]) (subst pad_zeros.simps, simp)
  qed
qed

text \<open>The padded message is a whole number of blocks, so none of it is ignored.\<close>

lemma sha_pad_blocks: "length (sha_pad m) mod 64 = 0"
proof -
  have "(length (pad_zeros (m @ [0x80])) + 8) mod 64 = 0"
    using pad_zeros_props(1) [of "m @ [0x80]"] by presburger
  then show ?thesis
    by (simp add: sha_pad_def u64_to_be_bytes_def add.commute)
qed

lemma sha1_length: "length (sha1 m) = 20"
  by (auto simp: sha1_def u32_to_be_bytes_def split: prod.split)

lemma base64_length_exact: "length (base64 bs) = 4 * ((length bs + 2) div 3)"
proof (induction bs rule: base64.induct)
  case (4 a b c rest)
  have "(length rest + 5) div 3 = Suc ((length rest + 2) div 3)"
    by presburger
  then show ?case
    using 4 by (simp add: Let_def add.commute)
qed (simp_all add: Let_def)

section \<open>What a handshake answers\<close>

definition one_line :: "bytes \<Rightarrow> bool" where
  "one_line bs \<longleftrightarrow> CR \<notin> set bs \<and> LF \<notin> set bs"

lemma base64_one_line: "one_line (base64 bs)"
  using base64_plain [of CR bs] base64_plain [of LF bs] by (auto simp: one_line_def is_unicode_whitespace_def)

lemma dec_digits_one_line: "one_line (dec_digits n)"
  using dec_digits_are_digits [of CR n] dec_digits_are_digits [of LF n] by (auto simp: one_line_def is_ascii_digit_def)

lemma one_line_append [simp]: "one_line (xs @ ys) \<longleftrightarrow> one_line xs \<and> one_line ys"
  by (auto simp: one_line_def)

definition offer_ok :: "ws_config \<times> bytes \<times> bool \<Rightarrow> bool" where
  "offer_ok s \<longleftrightarrow>
     (case s of (cfg, resp, window_ok) \<Rightarrow>
        cfg_deflate cfg \<and> 9 \<le> server_max_window_bits cfg \<and> server_max_window_bits cfg \<le> 15 \<and>
        one_line resp \<and> starts_with resp (ascii ''permessage-deflate''))"

lemma starts_with_append: "starts_with xs pre \<Longrightarrow> starts_with (xs @ ys) pre"
  by (auto simp: starts_with_iff)

lemma deflate_param_ok:
  assumes "offer_ok s"
  shows "offer_ok (deflate_param param s)"
proof -
  have lines: "one_line (ascii ''; server_no_context_takeover'')" "one_line (ascii ''; client_no_context_takeover'')"
      "one_line (ascii ''; server_max_window_bits='')"
    by (simp_all add: one_line_def)
  obtain cfg resp ok where s: "s = (cfg, resp, ok)"
    by (cases s)
  then have ok: "cfg_deflate cfg" "9 \<le> server_max_window_bits cfg" "server_max_window_bits cfg \<le> 15"
      "one_line resp" "starts_with resp (ascii ''permessage-deflate'')"
    using assms by (simp_all add: offer_ok_def)
  have add: "offer_ok (cfg', resp @ more, ok')"
    if "one_line more" "cfg_deflate cfg'" "9 \<le> server_max_window_bits cfg'" "server_max_window_bits cfg' \<le> 15" for cfg' more ok'
    using that ok(4,5) starts_with_append [OF ok(5)] by (simp add: offer_ok_def)
  have same: "offer_ok (cfg, resp, ok')" for ok'
    using ok by (simp add: offer_ok_def)
  obtain key val where kv: "(case split_once (\<lambda>b. b = 61) param of
        (k, Some v) \<Rightarrow> (str_trim k, Some (trim_quotes (str_trim v))) | (k, None) \<Rightarrow> (param, None)) = (key, val)"
    by fastforce
  have takeovers: "offer_ok (cfg\<lparr> server_no_context_takeover := True \<rparr>, resp @ ascii ''; server_no_context_takeover'', ok)"
      "offer_ok (cfg\<lparr> client_no_context_takeover := True \<rparr>, resp @ ascii ''; client_no_context_takeover'', ok)"
    using add [OF lines(1)] add [OF lines(2)] ok(1-3) by (simp_all del: ascii_simps)
  have window: "offer_ok (cfg\<lparr> server_max_window_bits := n \<rparr>, resp @ ascii ''; server_max_window_bits='' @ dec_digits n, ok)"
    if "9 \<le> n" "n \<le> 15" for n
    using add [of "ascii ''; server_max_window_bits='' @ dec_digits n"] lines(3) dec_digits_one_line ok(1) that
    by (simp del: ascii_simps)
  show ?thesis
    using takeovers window same
    by (simp only: deflate_param_def s kv prod.case Let_def split: if_split option.split) blast
qed

lemma deflate_fold_ok: "offer_ok s \<Longrightarrow> offer_ok (fold deflate_param ps s)"
  by (induction ps arbitrary: s) (simp_all add: deflate_param_ok)

lemma deflate_offer_ok:
  assumes "deflate_offer o1 = Some (resp, cfg)"
  shows "offer_ok (cfg, resp, True)"
proof -
  have start: "offer_ok (ws_config_default\<lparr> cfg_deflate := True \<rparr>, ascii ''permessage-deflate'', True)"
    by (simp add: offer_ok_def ws_config_default_def one_line_def starts_with_def)
  have "fold deflate_param (tl (map str_trim (split_on (\<lambda>b. b = 59) o1)))
      (ws_config_default\<lparr> cfg_deflate := True \<rparr>, ascii ''permessage-deflate'', True) = (cfg, resp, True)"
    using assms by (auto simp: deflate_offer_def Let_def split: if_splits prod.splits)
  then show ?thesis
    using deflate_fold_ok [OF start] by metis
qed

lemma negotiate_deflate_ok:
  assumes "negotiate_deflate head = Some (resp, cfg)"
  shows "offer_ok (cfg, resp, True)"
proof -
  have "first_offer os = Some (resp, cfg) \<Longrightarrow> offer_ok (cfg, resp, True)" for os
    by (induction os) (auto split: option.splits dest: deflate_offer_ok)
  then show ?thesis
    using assms by (auto simp: negotiate_deflate_def Let_def split: option.splits if_splits)
qed

text \<open>
  C21: Whatever bytes a client sends, a handshake answer is a fixed set of lines: the accept token is one
  line of 28 characters computed from the key and the protocol's GUID, the extension line is present
  exactly when compression was negotiated, then with a compressor window of 9 to 15 bits, and nothing the
  client wrote can add a line.
\<close>

theorem upgrade_response_lines:
  assumes "upgrade_response head = Some (resp, cfg)"
  shows "\<exists>key accept ext. accept = base64 (sha1 (key @ GUID)) \<and> length accept = 28 \<and> one_line accept \<and> one_line ext \<and>
     resp = ascii ''HTTP/1.1 101 Switching Protocols'' @ CRLF @ ascii ''Upgrade: websocket'' @ CRLF @
       ascii ''Connection: Upgrade'' @ CRLF @ ascii ''Sec-WebSocket-Accept: '' @ accept @ CRLF @
       (if cfg_deflate cfg then ascii ''Sec-WebSocket-Extensions: '' @ ext @ CRLF else []) @ CRLF \<and>
     (if cfg_deflate cfg
      then starts_with ext (ascii ''permessage-deflate'') \<and> 9 \<le> server_max_window_bits cfg \<and> server_max_window_bits cfg \<le> 15
      else cfg = ws_config_default)"
proof -
  obtain key where key: "upgrade_response head =
      Some (let (ext_header, cfg) = (case negotiate_deflate head of
                  Some (value, cfg) \<Rightarrow> (ascii ''Sec-WebSocket-Extensions: '' @ value @ CRLF, cfg)
                | None \<Rightarrow> ([], ws_config_default))
            in (ascii ''HTTP/1.1 101 Switching Protocols'' @ CRLF @ ascii ''Upgrade: websocket'' @ CRLF @
                ascii ''Connection: Upgrade'' @ CRLF @ ascii ''Sec-WebSocket-Accept: '' @ base64 (sha1 (key @ GUID)) @ CRLF @
                ext_header @ CRLF, cfg))"
    using assms by (auto simp: upgrade_response_def Let_def simp del: ascii_simps split: option.splits prod.splits)
  have accept: "length (base64 (sha1 (key @ GUID))) = 28" "one_line (base64 (sha1 (key @ GUID)))"
    by (simp_all add: base64_length_exact sha1_length base64_one_line)
  show ?thesis
  proof (cases "negotiate_deflate head")
    case None
    then have "cfg = ws_config_default" "\<not> cfg_deflate cfg"
      using assms key by (auto simp: ws_config_default_def simp del: ascii_simps)
    then show ?thesis
      using assms key None accept
      by (intro exI [of _ key] exI [of _ "base64 (sha1 (key @ GUID))"] exI [of _ "[]"])
        (simp add: one_line_def del: ascii_simps)
  next
    case (Some r)
    then obtain ext where v: "negotiate_deflate head = Some (ext, cfg)"
      using assms key by (cases r) (auto simp del: ascii_simps)
    note ok = negotiate_deflate_ok [OF v]
    then show ?thesis
      using assms key v accept
      by (intro exI [of _ key] exI [of _ "base64 (sha1 (key @ GUID))"] exI [of _ ext])
        (simp add: offer_ok_def del: ascii_simps)
  qed
qed

theorem upgrade_response_lines_witness:
  "\<exists>resp cfg key. upgrade_response (ascii ''Sec-WebSocket-Key: x'' @ CRLF) = Some (resp, cfg) \<and>
     length (base64 (sha1 (key @ GUID))) = 28 \<and> cfg = ws_config_default"
proof -
  let ?head = "ascii ''Sec-WebSocket-Key: x'' @ CRLF"
  obtain resp cfg where run: "upgrade_response ?head = Some (resp, cfg)" "cfg = ws_config_default"
    by (simp add: upgrade_response_def negotiate_deflate_def ci_find_def eq_ignore_ascii_case_def to_ascii_lowercase_def Let_def)
  from upgrade_response_lines [OF run(1)] obtain key accept where "accept = base64 (sha1 (key @ GUID))" "length accept = 28"
    by (elim exE conjE)
  with run show ?thesis
    by (intro exI [of _ resp] exI [of _ cfg] exI [of _ key]) simp
qed

end
