(* ===== verification/Control.thy ===== *)
theory Control
  imports Base64 Host_IO
begin

text \<open>
  The control-channel front door of \<^verbatim>\<open>control.rs\<close>: the request head, the two routes and the upgrade, and the
  record framing with its echo pump. What happens on an upgraded stream when a responder is configured
  (a copy in both directions) and the TLS crossing are not modelled.
\<close>

unbundle bit_operations_syntax

section \<open>Records\<close>

definition MSG_TYPE_RECORD :: byte where "MSG_TYPE_RECORD = 4"
definition RECORD_HEADER_LEN :: nat where "RECORD_HEADER_LEN = 3"
definition MAX_MESSAGE_SIZE :: nat where "MAX_MESSAGE_SIZE = 4096"

lemmas record_consts = MSG_TYPE_RECORD_def RECORD_HEADER_LEN_def MAX_MESSAGE_SIZE_def

definition record_frame :: "bytes \<Rightarrow> bytes option" where
  "record_frame sealed =
     (if MAX_MESSAGE_SIZE < length sealed + RECORD_HEADER_LEN \<or> 65535 < length sealed then None
      else let n = of_nat (length sealed) :: u16
           in Some (MSG_TYPE_RECORD # ucast (drop_bit 8 n) # ucast n # sealed))"

definition record_deframe :: "bytes \<Rightarrow> (bytes \<times> nat) option" where
  "record_deframe prefix =
     (if length prefix < RECORD_HEADER_LEN \<or> prefix ! 0 \<noteq> MSG_TYPE_RECORD then None
      else let len = unat (push_bit 8 (ucast (prefix ! 1)) OR ucast (prefix ! 2) :: u16);
               stop = RECORD_HEADER_LEN + len
           in if MAX_MESSAGE_SIZE < len + RECORD_HEADER_LEN \<or> length prefix < stop then None
              else Some (take len (drop RECORD_HEADER_LEN prefix), stop))"

section \<open>Request heads\<close>

record head =
  h_method :: bytes
  h_path :: bytes
  h_headers :: "(bytes \<times> bytes) list"

definition header :: "head \<Rightarrow> bytes \<Rightarrow> bytes option" where
  "header h name = map_of (h_headers h) (map to_ascii_lowercase name)"

definition header_has_token :: "head \<Rightarrow> bytes \<Rightarrow> bytes \<Rightarrow> bool" where
  "header_has_token h name token =
     (case header h name of
        None \<Rightarrow> False
      | Some v \<Rightarrow> (\<exists>t \<in> set (split_on (\<lambda>b. b = 44) v). eq_ignore_ascii_case (str_trim t) token))"

definition chop_cr :: "bytes \<Rightarrow> bytes" where
  "chop_cr line = (if ends_with line [CR] then butlast line else line)"

definition parse_header_line :: "bytes \<Rightarrow> (bytes \<times> bytes) list" where
  "parse_header_line raw =
     (let line = chop_cr raw in
      case position (\<lambda>b. b = 58) line of
        None \<Rightarrow> []
      | Some colon \<Rightarrow>
          let name = map to_ascii_lowercase (str_trim (utf8_lossy (take colon line)));
              val = str_trim (utf8_lossy (drop (colon + 1) line))
          in if name = [] then [] else [(name, val)])"

definition parse_head :: "bytes \<Rightarrow> head option" where
  "parse_head buf =
     (let head_end = (case find_sub buf (CRLF @ CRLF) of Some p \<Rightarrow> p + 4 | None \<Rightarrow> length buf);
          lines = split_on (\<lambda>b. b = LF) (take head_end buf)
      in case split_on (\<lambda>b. b = SP) (chop_cr (hd lines)) of
           meth # raw_path # _ \<Rightarrow>
             Some \<lparr> h_method = meth, h_path = hd (split_on (\<lambda>b. b = 63) raw_path),
                    h_headers = concat (map parse_header_line (tl lines)) \<rparr>
         | _ \<Rightarrow> None)"

definition HEAD_BLOCK :: nat where "HEAD_BLOCK = 1024"
definition HEAD_CAP :: nat where "HEAD_CAP = 16 * 1024"

function read_head :: "read_script \<Rightarrow> bytes \<Rightarrow> ((io_kind + bytes) \<times> read_script) option" where
  "read_head us buf =
     (case read_some HEAD_BLOCK us of
        None \<Rightarrow> None
      | Some (Inl k, us') \<Rightarrow> Some (Inl k, us')
      | Some (Inr bs, us') \<Rightarrow>
          if bs = [] then Some (Inr buf, us')
          else let buf' = buf @ bs
               in if find_sub buf' (CRLF @ CRLF) \<noteq> None \<or> HEAD_CAP < length buf' then Some (Inr buf', us')
                  else read_head us' buf')"
  by pat_completeness auto
termination
  by (relation "measure (\<lambda>(us, _). script_size us)") (auto simp: HEAD_BLOCK_def dest: read_some_size [rotated])

declare read_head.simps [simp del]

section \<open>Responses\<close>

definition UPGRADE_VALUE :: bytes where "UPGRADE_VALUE = ascii ''tailscale-control-protocol''"
definition HANDSHAKE_HEADER :: bytes where "HANDSHAKE_HEADER = ascii ''X-Tailscale-Handshake''"

definition key_json :: "bytes \<Rightarrow> bytes" where
  "key_json pub_hex =
     ascii ''{\"legacy\":\"mkey:'' @ replicate 64 48 @ ascii ''\",\"publicKey\":\"mkey:'' @ pub_hex @ ascii ''\"}''"

definition simple_response :: "nat \<Rightarrow> bytes \<Rightarrow> bytes \<Rightarrow> bytes \<Rightarrow> bytes" where
  "simple_response status reason content_type body =
     ascii ''HTTP/1.1 '' @ dec_digits status @ [SP] @ reason @ CRLF @ ascii ''Content-Type: '' @ content_type @ CRLF @
     ascii ''Content-Length: '' @ dec_digits (length body) @ CRLF @ ascii ''Connection: close'' @ CRLF @ CRLF @ body"

definition switching_protocols :: bytes where
  "switching_protocols =
     ascii ''HTTP/1.1 101 Switching Protocols'' @ CRLF @ ascii ''Upgrade: '' @ UPGRADE_VALUE @ CRLF @
     ascii ''Connection: Upgrade'' @ CRLF @ CRLF"

definition upgrade_required :: bytes where
  "upgrade_required =
     (let body = ascii ''ts2021 requires Upgrade: tailscale-control-protocol'' @ [LF] in
      ascii ''HTTP/1.1 426 Upgrade Required'' @ CRLF @ ascii ''Upgrade: '' @ UPGRADE_VALUE @ CRLF @
      ascii ''Connection: close'' @ CRLF @ ascii ''Content-Type: text/plain; charset=utf-8'' @ CRLF @
      ascii ''Content-Length: '' @ dec_digits (length body) @ CRLF @ CRLF @ body)"

abbreviation TEXT_PLAIN :: bytes where "TEXT_PLAIN \<equiv> ascii ''text/plain; charset=utf-8''"

section \<open>The connection handler\<close>

text \<open>What a handled connection ends with: it is over, or it is an upgraded stream with an initiation.\<close>

datatype handled = Over | Upgraded bytes

definition respond :: "client \<Rightarrow> bytes \<Rightarrow> client \<times> handled" where
  "respond c resp = (snd (write_all c resp), Over)"

definition handle_request :: "bytes \<Rightarrow> bytes \<Rightarrow> client \<Rightarrow> client \<times> handled" where
  "handle_request pub_hex buf c =
     (case parse_head buf of
        None \<Rightarrow> respond c (simple_response 400 (ascii ''Bad Request'') TEXT_PLAIN (ascii ''bad request'' @ [LF]))
      | Some h \<Rightarrow>
          if h_method h = ascii ''GET'' \<and> h_path h = ascii ''/key'' then
            respond c (simple_response 200 (ascii ''OK'') (ascii ''application/json'') (key_json pub_hex))
          else if h_method h = ascii ''POST'' \<and> h_path h = ascii ''/ts2021'' then
            (let upgrade_ok = (case header h (ascii ''upgrade'') of
                                 None \<Rightarrow> False | Some v \<Rightarrow> eq_ignore_ascii_case v UPGRADE_VALUE);
                 connection_ok = header_has_token h (ascii ''connection'') (ascii ''upgrade'')
             in if upgrade_ok \<and> connection_ok then
                  (let init = (case Option.bind (header h HANDSHAKE_HEADER) b64_decode of None \<Rightarrow> [] | Some bs \<Rightarrow> bs)
                   in case write_all c switching_protocols of
                        (True, c1) \<Rightarrow> (snd (flush_client c1), Upgraded init)
                      | (False, c1) \<Rightarrow> (c1, Over))
                else respond c upgrade_required)
          else if h_path h = ascii ''/key'' \<or> h_path h = ascii ''/ts2021'' then
            respond c (simple_response 405 (ascii ''Method Not Allowed'') TEXT_PLAIN (ascii ''method not allowed'' @ [LF]))
          else respond c (simple_response 404 (ascii ''Not Found'') TEXT_PLAIN (ascii ''not found'' @ [LF])))"

definition handle :: "bytes \<Rightarrow> read_script \<Rightarrow> client \<Rightarrow> (client \<times> handled \<times> read_script) option" where
  "handle pub_hex us c =
     (case read_head us [] of
        None \<Rightarrow> None
      | Some (Inr buf, us') \<Rightarrow>
          (if buf = [] then Some (c, Over, us')
           else let (c', r) = handle_request pub_hex buf c in Some (c', r, us'))
      | Some (Inl k, us') \<Rightarrow> Some (c, Over, us'))"

section \<open>The record echo\<close>

lemma record_deframe_consumes: "record_deframe acc = Some (p, n) \<Longrightarrow> 0 < n \<and> n \<le> length acc"
  by (auto simp: record_deframe_def Let_def record_consts split: if_splits)

function echo_records :: "client \<Rightarrow> bytes \<Rightarrow> bool \<times> client \<times> bytes" where
  "echo_records c acc =
     (case record_deframe acc of
        None \<Rightarrow> (True, c, acc)
      | Some (payload, used) \<Rightarrow>
          (case record_frame payload of
             None \<Rightarrow> (False, c, acc)
           | Some reframed \<Rightarrow>
               (case write_all c reframed of
                  (False, c1) \<Rightarrow> (False, c1, acc)
                | (True, c1) \<Rightarrow> echo_records c1 (drop used acc))))"
  by pat_completeness auto
termination
  by (relation "measure (\<lambda>(_, acc). length acc)") (auto dest: record_deframe_consumes)

declare echo_records.simps [simp del]

function record_echo :: "read_script \<Rightarrow> client \<Rightarrow> bytes \<Rightarrow> (client \<times> read_script) option" where
  "record_echo us c acc =
     (case read_some MAX_MESSAGE_SIZE us of
        None \<Rightarrow> None
      | Some (Inl k, us') \<Rightarrow> Some (c, us')
      | Some (Inr bs, us') \<Rightarrow>
          if bs = [] then Some (c, us')
          else let acc' = acc @ bs
               in if MAX_MESSAGE_SIZE < length acc' then Some (c, us')
                  else case echo_records c acc' of
                         (False, c1, _) \<Rightarrow> Some (c1, us')
                       | (True, c1, rest) \<Rightarrow> record_echo us' c1 rest)"
  by pat_completeness auto
termination
  by (relation "measure (\<lambda>(us, _). script_size us)") (auto simp: MAX_MESSAGE_SIZE_def dest: read_some_size [rotated])

declare record_echo.simps [simp del]

section \<open>Records survive framing\<close>

lemma u16_bytes: "push_bit 8 (ucast (ucast (drop_bit 8 n) :: byte)) OR ucast (ucast n :: byte) = (n :: u16)"
proof (rule bit_word_eqI)
  show "bit (push_bit 8 (ucast (ucast (drop_bit 8 n) :: byte)) OR ucast (ucast n :: byte) :: u16) k = bit n k" if "k < LENGTH(16)" for k
    using that by (cases "k < 8") (auto simp: bit_simps)
qed

lemma record_frame_Some:
  "record_frame p = Some f \<longleftrightarrow> length p + 3 \<le> 4096 \<and>
     f = 4 # ucast (drop_bit 8 (of_nat (length p) :: u16)) # ucast (of_nat (length p) :: u16) # p"
  by (auto simp: record_frame_def record_consts Let_def)

lemma record_deframe_frame:
  assumes "record_frame p = Some f"
  shows "record_deframe (f @ rest) = Some (p, length f)" "k < length f \<Longrightarrow> record_deframe (take k f) = None"
proof -
  let ?n = "of_nat (length p) :: u16"
  have len: "length p + 3 \<le> 4096" and f: "f = 4 # ucast (drop_bit 8 ?n) # ucast ?n # p"
    using assms by (simp_all add: record_frame_Some)
  have n: "unat (push_bit 8 (ucast (ucast (drop_bit 8 ?n) :: byte)) OR ucast (ucast ?n :: byte) :: u16) = length p"
    unfolding u16_bytes using len by (simp only: unat_of_nat) simp
  show "record_deframe (f @ rest) = Some (p, length f)"
    using len n by (simp add: f record_deframe_def record_consts Let_def)
  show "record_deframe (take k f) = None" if "k < length f"
    using that len n by (auto simp: f record_deframe_def record_consts Let_def nth_append take_Cons' min_def)
qed

interpretation records: codec record_frame "\<lambda>f. Option.bind f (\<lambda>w. map_option fst (record_deframe w))" "\<lambda>p. length p + 3 \<le> 4096"
proof
  show "Option.bind (record_frame p) (\<lambda>w. map_option fst (record_deframe w)) = Some p" if len: "length p + 3 \<le> 4096" for p
  proof -
    obtain f where "record_frame p = Some f"
      using len by (simp add: record_frame_Some)
    then show ?thesis
      using record_deframe_frame(1) [of p f "[]"] by simp
  qed
qed

text \<open>The inner loop echoes every whole record of the buffer and keeps the rest.\<close>

lemma echo_records_frames:
  assumes "list_all (\<lambda>p. length p + 3 \<le> 4096) ps" "record_deframe rest = None" "faults c = []"
  shows "echo_records c (concat (map (\<lambda>p. the (record_frame p)) ps) @ rest) =
     (True, c\<lparr> sent := sent c @ concat (map (\<lambda>p. the (record_frame p)) ps) \<rparr>, rest)"
  using assms
proof (induction ps arbitrary: c)
  case Nil
  then show ?case
    by (simp add: echo_records.simps)
next
  case (Cons p ps)
  obtain f where f: "record_frame p = Some f"
    using Cons.prems(1) by (simp add: record_frame_Some)
  let ?more = "concat (map (\<lambda>p. the (record_frame p)) ps) @ rest"
  have "echo_records c (f @ ?more) = echo_records (c\<lparr> sent := sent c @ f \<rparr>) ?more"
    using record_deframe_frame(1) [OF f, of ?more] f Cons.prems(3)
    by (subst echo_records.simps) (simp add: write_all_reliable)
  then show ?case
    using Cons f by simp
qed

text \<open>
  C22: A record survives its framing: a framed payload followed by anything is read back with exactly the
  frame consumed, no proper part of a frame is taken for a record, and payloads are told apart by
  their frames.
\<close>

theorem record_round_trip:
  assumes "record_frame p = Some f"
  shows "record_deframe (f @ rest) = Some (p, length f) \<and> (\<forall>k. k < length f \<longrightarrow> record_deframe (take k f) = None) \<and>
         (\<forall>q. record_frame q = Some f \<longrightarrow> q = p)"
proof (intro conjI allI impI)
  show "q = p" if "record_frame q = Some f" for q
    using records.enc_inj [of q p] that assms by (simp add: record_frame_Some)
qed (use record_deframe_frame [OF assms] in auto)

theorem record_round_trip_witness: "record_deframe ([4, 0, 2, 7, 8] @ [9]) = Some ([7, 8], 5)"
  using record_round_trip [of "[7, 8]" "[4, 0, 2, 7, 8]" "[9]"] by (simp add: record_frame_Some)

section \<open>The echo and the cut of the stream\<close>

lemma record_echo_block:
  assumes "0 < length bs" "length bs \<le> 4096"
  shows "record_echo (Inr bs # us) c acc =
     (if 4096 < length acc + length bs then Some (c, us)
      else case echo_records c (acc @ bs) of (False, c1, _) \<Rightarrow> Some (c1, us) | (True, c1, rest) \<Rightarrow> record_echo us c1 rest)"
  using assms by (subst record_echo.simps) (simp add: record_consts Let_def)

lemma record_echo_end: "record_echo (Inr [] # us) c acc = Some (c, us)"
  by (simp add: record_echo.simps)

lemma record_deframe_short: "length acc < 3 \<Longrightarrow> record_deframe acc = None"
  by (simp add: record_deframe_def record_consts)

text \<open>
  The bound of the echo pump depends on how the stream is cut: two records of the largest size, read
  one by one, are both echoed; the same bytes with the first read one byte long are refused as
  oversized, and the client gets nothing.
\<close>

theorem record_echo_depends_on_cut:
  "\<exists>f. record_frame (replicate 4093 0) = Some f \<and>
     record_echo [Inr f, Inr f, Inr []] \<lparr> sent = [], faults = [] \<rparr> [] = Some (\<lparr> sent = f @ f, faults = [] \<rparr>, []) \<and>
     record_echo [Inr (take 1 f), Inr (drop 1 f @ take 1 f), Inr (drop 1 f), Inr []] \<lparr> sent = [], faults = [] \<rparr> [] =
       Some (\<lparr> sent = [], faults = [] \<rparr>, [Inr (drop 1 f), Inr []])"
proof -
  obtain f where f: "record_frame (replicate 4093 0) = Some f"
    by (simp add: record_frame_Some)
  then have len: "length f = 4096"
    by (auto simp: record_frame_Some)
  have echo: "echo_records c f = (True, c\<lparr> sent := sent c @ f \<rparr>, [])" if "faults c = []" for c
    using echo_records_frames [of "[replicate 4093 0]" "[]" c] that f by (simp add: record_deframe_short)
  have "record_echo [Inr f, Inr f, Inr []] \<lparr> sent = [], faults = [] \<rparr> [] = Some (\<lparr> sent = f @ f, faults = [] \<rparr>, [])"
    using len echo by (simp add: record_echo_block record_echo_end)
  moreover have "echo_records c (take 1 f) = (True, c, take 1 f)" for c
    using len by (subst echo_records.simps) (simp add: record_deframe_short)
  then have "record_echo [Inr (take 1 f), Inr (drop 1 f @ take 1 f), Inr (drop 1 f), Inr []] \<lparr> sent = [], faults = [] \<rparr> [] =
       Some (\<lparr> sent = [], faults = [] \<rparr>, [Inr (drop 1 f), Inr []])"
    using len by (simp add: record_echo_block)
  ultimately show ?thesis
    using f by blast
qed

end
