(* ===== verification/Cache.thy ===== *)
theory Cache
  imports Http
begin

text \<open>
  The response cache of \<^verbatim>\<open>cache.rs\<close>: the store, the in-flight markers behind which concurrent
  misses of one key wait, and the decisions read off requests and responses. First each critical section
  of the code as a function, then the composed calls, then any number of threads whose critical
  sections interleave.
\<close>

section \<open>Decisions on bytes\<close>

definition split_sp :: "bytes \<Rightarrow> bytes list" where
  "split_sp line = split_on (\<lambda>b. b = SP) line"

definition conditional_headers :: "bytes list" where
  "conditional_headers = map (\<lambda>h. CRLF @ ascii h)
     [''if-none-match:'', ''if-match:'', ''if-modified-since:'', ''if-unmodified-since:'', ''if-range:'', ''range:'']"

definition cache_key :: "bytes \<Rightarrow> bytes option" where
  "cache_key req =
     (case find_sub req CRLF of
        None \<Rightarrow> None
      | Some line_end \<Rightarrow>
          (case split_sp (take line_end req) of
             meth # target # _ \<Rightarrow>
               if meth \<noteq> ascii ''GET'' then None
               else
                 let head_end = (case find_sub req (CRLF @ CRLF) of Some p \<Rightarrow> p + 4 | None \<Rightarrow> length req);
                     head_lower = map to_ascii_lowercase (take head_end req)
                 in if \<exists>hdr \<in> set conditional_headers. find_sub head_lower hdr \<noteq> None then None
                    else Some (meth @ [SP] @ target)
           | _ \<Rightarrow> None))"

definition status_is_2xx :: "bytes \<Rightarrow> bool" where
  "status_is_2xx resp =
     (let line_end = (case find_sub resp CRLF of Some p \<Rightarrow> p | None \<Rightarrow> length resp) in
      case split_sp (take line_end resp) of
        ver # code # _ \<Rightarrow> (case code of b # _ \<Rightarrow> b = 50 | [] \<Rightarrow> False) \<and> length code = 3
      | _ \<Rightarrow> False)"

text \<open>
  The scan of one \<open>Cache-Control\<close> value: \<open>None\<close> when no directive is \<open>max-age\<close>, otherwise what the
  function returns at the first one.
\<close>

fun directive_max_age :: "bytes list \<Rightarrow> nat option option" where
  "directive_max_age [] = None"
| "directive_max_age (d # ds) =
     (let d = trim_by is_ascii_whitespace d in
      case position (\<lambda>b. b = 61) d of
        None \<Rightarrow> directive_max_age ds
      | Some eq \<Rightarrow>
          if eq_ignore_ascii_case (trim_by is_ascii_whitespace (take eq d)) (ascii ''max-age'')
          then let digits = trim_by is_ascii_whitespace (drop (eq + 1) d) in
               Some (if utf8_valid digits then parse_uint 64 digits else None)
          else directive_max_age ds)"

fun lines_max_age :: "bytes list \<Rightarrow> nat option" where
  "lines_max_age [] = None"
| "lines_max_age (l # ls) =
     (let line = (if ends_with l [CR] then butlast l else l) in
      case position (\<lambda>b. b = 58) line of
        None \<Rightarrow> lines_max_age ls
      | Some colon \<Rightarrow>
          if eq_ignore_ascii_case (take colon line) (ascii ''cache-control'')
          then (case directive_max_age (split_on (\<lambda>b. b = 44) (drop (colon + 1) line)) of
                  Some r \<Rightarrow> r
                | None \<Rightarrow> lines_max_age ls)
          else lines_max_age ls)"

definition parse_max_age :: "bytes \<Rightarrow> nat option" where
  "parse_max_age head = lines_max_age (split_on (\<lambda>b. b = LF) head)"

definition cacheable_lifetime :: "bytes \<Rightarrow> nat option" where
  "cacheable_lifetime resp =
     (if \<not> status_is_2xx resp then None
      else
        let head_end = (case find_sub resp (CRLF @ CRLF) of Some p \<Rightarrow> p + 2 | None \<Rightarrow> length resp) in
        case parse_max_age (take head_end resp) of
          None \<Rightarrow> None
        | Some max_age \<Rightarrow> if max_age = 0 then None else Some max_age)"

definition stamp :: "bytes \<Rightarrow> bytes \<Rightarrow> nat option \<Rightarrow> bytes" where
  "stamp resp xcache age =
     (case find_sub resp CRLF of
        None \<Rightarrow> resp
      | Some p \<Rightarrow>
          take (p + 2) resp @ ascii ''X-Cache: '' @ xcache @ CRLF @
          (case age of Some a \<Rightarrow> ascii ''Age: '' @ dec_digits a @ CRLF | None \<Rightarrow> []) @
          drop (p + 2) resp)"

section \<open>The critical sections\<close>

text \<open>
  An \<open>Instant\<close> is a number of nanoseconds; \<open>elapsed().as_secs()\<close> rounds down. An \<open>Arc<InFlight>\<close> is its
  index in the list of all markers ever made, whose element is the \<open>done\<close> cell.
\<close>

definition elapsed_secs :: "nat \<Rightarrow> nat \<Rightarrow> nat" where
  "elapsed_secs now since = (now - since) div 10 ^ 9"

record entry =
  entry_body :: bytes
  entry_stored_at :: nat
  entry_max_age :: nat

record response_cache =
  entries :: "bytes \<rightharpoonup> entry"
  inflight :: "bytes \<rightharpoonup> nat"
  cells :: "bytes option list"

definition cache_new :: response_cache where
  "cache_new = \<lparr> entries = Map.empty, inflight = Map.empty, cells = [] \<rparr>"

definition try_hit :: "nat \<Rightarrow> response_cache \<Rightarrow> bytes \<Rightarrow> bytes option \<times> response_cache" where
  "try_hit now c key =
     (case entries c key of
        None \<Rightarrow> (None, c)
      | Some e \<Rightarrow>
          let age = elapsed_secs now (entry_stored_at e) in
          if age < entry_max_age e then (Some (stamp (entry_body e) (ascii ''HIT'') (Some age)), c)
          else (None, c\<lparr> entries := (entries c)(key := None) \<rparr>))"

text \<open>The election under the in-flight lock: the marker of the key, and whether this caller leads.\<close>

definition elect :: "response_cache \<Rightarrow> bytes \<Rightarrow> (nat \<times> bool) \<times> response_cache" where
  "elect c key =
     (case inflight c key of
        Some f \<Rightarrow> ((f, False), c)
      | None \<Rightarrow>
          let f = length (cells c) in
          ((f, True), c\<lparr> inflight := (inflight c)(key \<mapsto> f), cells := cells c @ [None] \<rparr>))"

definition store_insert :: "nat \<Rightarrow> response_cache \<Rightarrow> bytes \<Rightarrow> bytes \<Rightarrow> nat \<Rightarrow> response_cache" where
  "store_insert now c key resp lifetime =
     (if lifetime \<noteq> 0
      then c\<lparr> entries := (entries c)(key \<mapsto> \<lparr> entry_body = resp, entry_stored_at = now, entry_max_age = lifetime \<rparr>) \<rparr>
      else c)"

definition publish_fetch :: "response_cache \<Rightarrow> bytes \<Rightarrow> bytes \<Rightarrow> response_cache" where
  "publish_fetch c key resp =
     (case inflight c key of
        None \<Rightarrow> c
      | Some f \<Rightarrow>
          c\<lparr> inflight := (inflight c)(key := None),
             cells := (if cells c ! f = None then (cells c)[f := Some resp] else cells c) \<rparr>)"

section \<open>The calls\<close>

definition cache_store :: "nat \<Rightarrow> response_cache \<Rightarrow> bytes \<Rightarrow> bytes \<Rightarrow> nat \<Rightarrow> response_cache" where
  "cache_store now c key resp lifetime = publish_fetch (store_insert now c key resp lifetime) key resp"

datatype cache_probe = Hit bytes | Leader | Waiter

definition lookup_effect_nb :: "nat \<Rightarrow> response_cache \<Rightarrow> bytes \<Rightarrow> cache_probe \<times> response_cache" where
  "lookup_effect_nb now c key =
     (case try_hit now c key of
        (Some hit, c) \<Rightarrow> (Hit hit, c)
      | (None, c) \<Rightarrow> (case elect c key of ((f, True), c) \<Rightarrow> (Leader, c) | ((f, False), c) \<Rightarrow> (Waiter, c)))"

text \<open>
  The blocking lookup up to the end of the wait. \<open>later\<close> is the cache and the time at the moment a
  waiter stops waiting: its marker is published, or five seconds have passed without a publication.
\<close>

definition lookup_coalescing ::
  "nat \<Rightarrow> response_cache \<Rightarrow> bytes \<Rightarrow> (response_cache \<Rightarrow> nat \<times> response_cache) \<Rightarrow> bytes option \<times> response_cache" where
  "lookup_coalescing now c key later =
     (case try_hit now c key of
        (Some hit, c) \<Rightarrow> (Some hit, c)
      | (None, c) \<Rightarrow>
          (case elect c key of
             ((f, True), c) \<Rightarrow> (None, c)
           | ((f, False), c) \<Rightarrow>
               let (now', c') = later c in
               (case cells c' ! f of
                  Some b \<Rightarrow> (Some (stamp b (ascii ''HIT'') (Some 0)), c')
                | None \<Rightarrow> try_hit now' c' key)))"

definition purge_all :: "response_cache \<Rightarrow> nat \<times> response_cache" where
  "purge_all c = (card (dom (entries c)), c\<lparr> entries := Map.empty \<rparr>)"

text \<open>
  \<open>ResponseCache::serve\<close> run by one thread alone; \<open>None\<close> when it would wait for a marker that nobody is
  left to publish.
\<close>

definition serve_cached :: "nat \<Rightarrow> response_cache \<Rightarrow> bytes \<Rightarrow> (unit \<Rightarrow> bytes) \<Rightarrow> (bytes \<times> response_cache) option" where
  "serve_cached now c req fetch =
     (case cache_key req of
        None \<Rightarrow> Some (fetch (), c)
      | Some key \<Rightarrow>
          (case try_hit now c key of
             (Some hit, c) \<Rightarrow> Some (hit, c)
           | (None, c) \<Rightarrow>
               (case elect c key of
                  ((f, False), c) \<Rightarrow>
                    (case cells c ! f of
                       None \<Rightarrow> None
                     | Some b \<Rightarrow> Some (stamp b (ascii ''HIT'') (Some 0), c))
                | ((f, True), c) \<Rightarrow>
                    let resp = fetch ();
                        c = (case cacheable_lifetime resp of
                               Some max_age \<Rightarrow> store_insert now c key resp max_age
                             | None \<Rightarrow> c)
                    in Some (stamp resp (ascii ''MISS'') None,
                             c\<lparr> cells := (cells c)[f := Some resp], inflight := (inflight c)(key := None) \<rparr>))))"

section \<open>Threads\<close>

text \<open>
  Where a request thread stands: between calls; after a lookup found no fresh entry; leading a key with
  its marker; leading without one, after its wait timed out; about to publish what it fetched; waiting
  on a marker; answered, with the moment of the answer.
\<close>

datatype cache_pc =
  Free | Missed bytes | Leads bytes nat | Alone bytes | Fetched bytes bytes "nat option" | Waits bytes nat
  | Answered bytes bytes nat

text \<open>\<open>runs\<close> records every completed fetch: key, bytes, moment and lifetime.\<close>

record cache_sys =
  cache :: response_cache
  clock :: nat
  pc :: "nat \<Rightarrow> cache_pc"
  runs :: "(bytes \<times> bytes \<times> nat \<times> nat) list"

text \<open>With \<open>patient\<close> no wait times out.\<close>

inductive cache_step :: "bool \<Rightarrow> cache_sys \<Rightarrow> cache_sys \<Rightarrow> bool" for patient where
  tick: "cache_step patient s (s\<lparr> clock := clock s + d \<rparr>)"
| hit: "pc s i = Free \<Longrightarrow> try_hit (clock s) (cache s) key = (Some r, c) \<Longrightarrow>
     cache_step patient s (s\<lparr> cache := c, pc := (pc s)(i := Answered key r (clock s)) \<rparr>)"
| miss: "pc s i = Free \<Longrightarrow> try_hit (clock s) (cache s) key = (None, c) \<Longrightarrow>
     cache_step patient s (s\<lparr> cache := c, pc := (pc s)(i := Missed key) \<rparr>)"
| lead: "pc s i = Missed key \<Longrightarrow> elect (cache s) key = ((f, True), c) \<Longrightarrow>
     cache_step patient s (s\<lparr> cache := c, pc := (pc s)(i := Leads key f) \<rparr>)"
| wait: "pc s i = Missed key \<Longrightarrow> elect (cache s) key = ((f, False), c) \<Longrightarrow>
     cache_step patient s (s\<lparr> cache := c, pc := (pc s)(i := Waits key f) \<rparr>)"
| hand_over: "pc s i = Missed key \<Longrightarrow> elect (cache s) key = ((f, False), c) \<Longrightarrow>
     cache_step patient s (s\<lparr> cache := c, pc := (pc s)(i := Free) \<rparr>)"
| woken: "pc s i = Waits key f \<Longrightarrow> cells (cache s) ! f = Some b \<Longrightarrow>
     cache_step patient s (s\<lparr> pc := (pc s)(i := Answered key (stamp b (ascii ''HIT'') (Some 0)) (clock s)) \<rparr>)"
| timeout_hit: "pc s i = Waits key f \<Longrightarrow> \<not> patient \<Longrightarrow> cells (cache s) ! f = None \<Longrightarrow>
     try_hit (clock s) (cache s) key = (Some r, c) \<Longrightarrow>
     cache_step patient s (s\<lparr> cache := c, pc := (pc s)(i := Answered key r (clock s)) \<rparr>)"
| timeout_miss: "pc s i = Waits key f \<Longrightarrow> \<not> patient \<Longrightarrow> cells (cache s) ! f = None \<Longrightarrow>
     try_hit (clock s) (cache s) key = (None, c) \<Longrightarrow>
     cache_step patient s (s\<lparr> cache := c, pc := (pc s)(i := Alone key) \<rparr>)"
| insert_leader: "pc s i = Leads key f \<Longrightarrow>
     cache_step patient s (s\<lparr> cache := store_insert (clock s) (cache s) key resp life,
        pc := (pc s)(i := Fetched key resp (Some f)), runs := (key, resp, clock s, life) # runs s \<rparr>)"
| insert_alone: "pc s i = Alone key \<Longrightarrow>
     cache_step patient s (s\<lparr> cache := store_insert (clock s) (cache s) key resp life,
        pc := (pc s)(i := Fetched key resp None), runs := (key, resp, clock s, life) # runs s \<rparr>)"
| publish: "pc s i = Fetched key resp f \<Longrightarrow>
     cache_step patient s (s\<lparr> cache := publish_fetch (cache s) key resp, pc := (pc s)(i := Free) \<rparr>)"
| leave: "pc s i = Answered key r t \<Longrightarrow> cache_step patient s (s\<lparr> pc := (pc s)(i := Free) \<rparr>)"
| purge: "cache_step patient s (s\<lparr> cache := snd (purge_all (cache s)) \<rparr>)"

inductive cache_reachable :: "bool \<Rightarrow> cache_sys \<Rightarrow> bool" for patient where
  cache_start: "cache_reachable patient \<lparr> cache = cache_new, clock = 0, pc = (\<lambda>_. Free), runs = [] \<rparr>"
| cache_next: "cache_reachable patient s \<Longrightarrow> cache_step patient s t \<Longrightarrow> cache_reachable patient t"

subsection \<open>Where answers come from\<close>

text \<open>
  An entry is what some run fetched for its key; so is a published cell, for the key of every thread that
  waits on it.
\<close>

definition fetched_for :: "cache_sys \<Rightarrow> bytes \<Rightarrow> bytes \<Rightarrow> bool" where
  "fetched_for s key b \<longleftrightarrow> (\<exists>t life. (key, b, t, life) \<in> set (runs s))"

definition answer_ok :: "cache_sys \<Rightarrow> bytes \<Rightarrow> bytes \<Rightarrow> nat \<Rightarrow> bool" where
  "answer_ok s key r t' \<longleftrightarrow>
     (\<exists>b t life. (key, b, t, life) \<in> set (runs s) \<and>
        (r = stamp b (ascii ''HIT'') (Some 0) \<or>
         r = stamp b (ascii ''HIT'') (Some (elapsed_secs t' t)) \<and> elapsed_secs t' t < life))"

text \<open>A marker in the table is unpublished and belongs to one key.\<close>

definition markers_ok :: "response_cache \<Rightarrow> bool" where
  "markers_ok c \<longleftrightarrow>
     (\<forall>key f. inflight c key = Some f \<longrightarrow> f < length (cells c) \<and> cells c ! f = None) \<and>
     (\<forall>key key' f. inflight c key = Some f \<and> inflight c key' = Some f \<longrightarrow> key = key')"

definition pc_ok :: "cache_sys \<Rightarrow> cache_pc \<Rightarrow> bool" where
  "pc_ok s p \<longleftrightarrow>
     (case p of
        Waits key f \<Rightarrow>
          f < length (cells (cache s)) \<and>
          (case cells (cache s) ! f of None \<Rightarrow> inflight (cache s) key = Some f | Some b \<Rightarrow> fetched_for s key b)
      | Fetched key b f \<Rightarrow> fetched_for s key b
      | Answered key r t \<Rightarrow> answer_ok s key r t
      | _ \<Rightarrow> True)"

definition sources_inv :: "cache_sys \<Rightarrow> bool" where
  "sources_inv s \<longleftrightarrow> markers_ok (cache s) \<and> (\<forall>i. pc_ok s (pc s i)) \<and>
     (\<forall>key e. entries (cache s) key = Some e \<longrightarrow>
        (key, entry_body e, entry_stored_at e, entry_max_age e) \<in> set (runs s))"

lemma try_hit_frame:
  assumes "try_hit now c key = (r, c')"
  shows "inflight c' = inflight c" "cells c' = cells c" "entries c' k = Some e \<Longrightarrow> entries c k = Some e"
  using assms by (auto simp: try_hit_def Let_def split: option.splits if_splits)

lemma try_hit_Some:
  assumes "try_hit now c key = (Some r, c')"
  obtains e where "entries c key = Some e" "elapsed_secs now (entry_stored_at e) < entry_max_age e"
    "r = stamp (entry_body e) (ascii ''HIT'') (Some (elapsed_secs now (entry_stored_at e)))"
  using assms by (auto simp: try_hit_def Let_def split: option.splits if_splits)

lemma elect_waiter: "elect c key = ((f, False), c') \<longleftrightarrow> inflight c key = Some f \<and> c' = c"
  by (auto simp: elect_def Let_def split: option.splits)

lemma elect_leader:
  "elect c key = ((f, True), c') \<longleftrightarrow>
     inflight c key = None \<and> f = length (cells c) \<and> c' = c\<lparr> inflight := (inflight c)(key \<mapsto> f), cells := cells c @ [None] \<rparr>"
  by (auto simp: elect_def Let_def split: option.splits)

lemma store_insert_frame [simp]:
  "inflight (store_insert now c key resp life) = inflight c" "cells (store_insert now c key resp life) = cells c"
  by (simp_all add: store_insert_def)

lemma publish_fetch_frame [simp]: "entries (publish_fetch c key resp) = entries c"
  by (simp add: publish_fetch_def split: option.splits)

lemma publish_fetch_inflight [simp]: "inflight (publish_fetch c key resp) = (inflight c)(key := None)"
  by (auto simp: publish_fetch_def fun_eq_iff split: option.splits)

lemma publish_fetch_cells:
  assumes "markers_ok c"
  shows "cells (publish_fetch c key resp) =
     (case inflight c key of None \<Rightarrow> cells c | Some f \<Rightarrow> (cells c)[f := Some resp])"
  using assms by (auto simp: publish_fetch_def markers_ok_def split: option.splits)

lemma markers_elect: "markers_ok c \<Longrightarrow> elect c key = ((f, l), c') \<Longrightarrow> markers_ok c'"
  by (cases l) (fastforce simp: elect_waiter elect_leader markers_ok_def nth_append split: if_splits)+

lemma markers_publish: "markers_ok c \<Longrightarrow> markers_ok (publish_fetch c key resp)"
  by (cases "inflight c key")
     (auto simp: publish_fetch_cells markers_ok_def nth_list_update split: if_splits option.splits)

lemma markers_frame: "inflight c' = inflight c \<Longrightarrow> cells c' = cells c \<Longrightarrow> markers_ok c' = markers_ok c"
  by (simp add: markers_ok_def)

text \<open>What a thread knows stays true when the runs grow and the markers it could wait on are left alone.\<close>

lemma pc_ok_frame:
  assumes "pc_ok s p" "set (runs s) \<subseteq> set (runs s')"
    "inflight (cache s') = inflight (cache s)" "cells (cache s') = cells (cache s)"
  shows "pc_ok s' p"
  using assms by (force simp: pc_ok_def fetched_for_def answer_ok_def split: cache_pc.splits option.splits)

lemma sources_inv_upd:
  assumes "sources_inv s" "markers_ok (cache s')" "pc s' = (pc s)(i := p)" "pc_ok s' p"
    "\<And>q. pc_ok s q \<Longrightarrow> pc_ok s' q"
    "\<And>key e. entries (cache s') key = Some e \<Longrightarrow>
       (key, entry_body e, entry_stored_at e, entry_max_age e) \<in> set (runs s')"
  shows "sources_inv s'"
  using assms by (simp add: sources_inv_def)

lemma sources_inv_frame:
  assumes "sources_inv s" "inflight (cache s') = inflight (cache s)" "cells (cache s') = cells (cache s)"
    "set (runs s) \<subseteq> set (runs s')" "pc s' = (pc s)(i := p)" "pc_ok s' p"
    "\<And>key e. entries (cache s') key = Some e \<Longrightarrow>
       (key, entry_body e, entry_stored_at e, entry_max_age e) \<in> set (runs s')"
  shows "sources_inv s'"
proof (rule sources_inv_upd [OF assms(1) _ assms(5,6)])
  show "markers_ok (cache s')"
    using assms(1-3) by (simp add: sources_inv_def markers_frame [of "cache s'" "cache s"])
  show "pc_ok s' q" if "pc_ok s q" for q
    using that assms(2-4) by (intro pc_ok_frame [of s q s'])
qed (rule assms(7))

lemma sources_inv_cong:
  assumes "sources_inv s" "inflight (cache s') = inflight (cache s)" "cells (cache s') = cells (cache s)"
    "runs s' = runs s" "pc s' = pc s" "\<And>key e. entries (cache s') key = Some e \<Longrightarrow> entries (cache s) key = Some e"
  shows "sources_inv s'"
proof (rule sources_inv_frame [OF assms(1-3), of 0 "pc s 0"])
  show "pc_ok s' (pc s 0)"
    using assms by (intro pc_ok_frame [of s _ s']) (simp_all add: sources_inv_def)
  show "(key, entry_body e, entry_stored_at e, entry_max_age e) \<in> set (runs s')" if "entries (cache s') key = Some e" for key e
    using assms(1,4) assms(6) [OF that] by (simp add: sources_inv_def)
qed (simp_all add: assms)

lemma pc_ok_thread: "sources_inv s \<Longrightarrow> pc s i = p \<Longrightarrow> pc_ok s p"
  by (auto simp: sources_inv_def)

lemma pc_ok_answer:
  assumes "sources_inv s" "try_hit (clock s) (cache s) key = (Some r, c)"
  shows "pc_ok (s\<lparr> cache := c', pc := q \<rparr>) (Answered key r (clock s))"
proof -
  obtain e where e: "entries (cache s) key = Some e" "elapsed_secs (clock s) (entry_stored_at e) < entry_max_age e"
    "r = stamp (entry_body e) (ascii ''HIT'') (Some (elapsed_secs (clock s) (entry_stored_at e)))"
    using assms(2) by (rule try_hit_Some)
  then have "(key, entry_body e, entry_stored_at e, entry_max_age e) \<in> set (runs s)"
    using assms(1) by (simp add: sources_inv_def)
  with e show ?thesis
    by (fastforce simp: pc_ok_def answer_ok_def)
qed

lemma sources_try_hit:
  assumes "sources_inv s" "try_hit (clock s) (cache s) key = (r, c)" "pc_ok (s\<lparr> cache := c, pc := (pc s)(i := p) \<rparr>) p"
  shows "sources_inv (s\<lparr> cache := c, pc := (pc s)(i := p) \<rparr>)"
proof (rule sources_inv_frame [OF assms(1), of _ i p])
  show "(k, entry_body e, entry_stored_at e, entry_max_age e) \<in> set (runs (s\<lparr> cache := c, pc := (pc s)(i := p) \<rparr>))"
    if "entries (cache (s\<lparr> cache := c, pc := (pc s)(i := p) \<rparr>)) k = Some e" for k e
    using assms(1) that try_hit_frame(3) [OF assms(2), of k e] by (simp add: sources_inv_def)
qed (use assms(3) try_hit_frame(1,2) [OF assms(2)] in simp_all)

lemma sources_insert:
  fixes s key resp life i f
  defines "s' \<equiv> s\<lparr> cache := store_insert (clock s) (cache s) key resp life,
        pc := (pc s)(i := Fetched key resp f), runs := (key, resp, clock s, life) # runs s \<rparr>"
  assumes "sources_inv s"
  shows "sources_inv s'"
proof (rule sources_inv_frame [OF assms(2), of _ i "Fetched key resp f"])
  show "pc_ok s' (Fetched key resp f)"
    by (auto simp: s'_def pc_ok_def fetched_for_def)
  show "(k, entry_body e, entry_stored_at e, entry_max_age e) \<in> set (runs s')" if "entries (cache s') k = Some e" for k e
    using that assms(2) by (auto simp: s'_def sources_inv_def store_insert_def split: if_splits)
qed (auto simp: s'_def)

lemma pc_ok_publish:
  assumes "markers_ok (cache s)" "fetched_for s key resp" "pc_ok s q"
  shows "pc_ok (s\<lparr> cache := publish_fetch (cache s) key resp, pc := qs \<rparr>) q"
proof (cases q)
  case (Waits k g)
  then show ?thesis
    using assms publish_fetch_cells [OF assms(1), of key resp]
    by (cases "cells (cache s) ! g"; cases "inflight (cache s) key")
       (auto simp: pc_ok_def nth_list_update fetched_for_def markers_ok_def)
qed (use assms in \<open>auto simp: pc_ok_def fetched_for_def answer_ok_def\<close>)

lemma cache_step_sources: "cache_step patient s t \<Longrightarrow> sources_inv s \<Longrightarrow> sources_inv t"
proof (induction rule: cache_step.induct)
  case (tick s d)
  show ?case
    by (rule sources_inv_cong [OF tick.prems]) simp_all
next
  case (hit s i key r c)
  then show ?case
    by (intro sources_try_hit pc_ok_answer)
next
  case (miss s i key c)
  show ?case
    by (rule sources_try_hit [OF miss.prems miss.hyps(2)]) (simp add: pc_ok_def)
next
  case (lead s i key f c)
  have ok: "pc_ok (s\<lparr> cache := c, pc := qs \<rparr>) q" if "pc_ok s q" for q qs
    using lead that by (cases q) (auto simp: elect_leader pc_ok_def fetched_for_def answer_ok_def nth_append split: option.splits)
  show ?case
    by (rule sources_inv_upd [OF lead.prems, of _ i "Leads key f"])
       (use lead markers_elect [of "cache s" key f True c] ok in \<open>auto simp: sources_inv_def elect_leader pc_ok_def\<close>)
next
  case (wait s i key f c)
  then have f: "inflight (cache s) key = Some f" "c = cache s" and "markers_ok (cache s)"
    by (simp_all add: elect_waiter sources_inv_def)
  then have "f < length (cells (cache s))" "cells (cache s) ! f = None"
    unfolding markers_ok_def by blast+
  then show ?case
    by (intro sources_inv_frame [OF wait.prems, of _ i "Waits key f"])
       (use wait.prems f in \<open>simp_all add: sources_inv_def pc_ok_def\<close>)
next
  case (hand_over s i key f c)
  show ?case
    by (rule sources_inv_frame [OF hand_over.prems, of _ i Free])
       (use hand_over in \<open>simp_all add: elect_waiter sources_inv_def pc_ok_def\<close>)
next
  case (woken s i key f b)
  have "pc_ok s (Waits key f)"
    using woken by (intro pc_ok_thread)
  then have "fetched_for s key b"
    using woken.hyps(2) by (simp add: pc_ok_def)
  then have "pc_ok (s\<lparr> pc := qs \<rparr>) (Answered key (stamp b (ascii ''HIT'') (Some 0)) (clock s))" for qs
    by (auto simp: pc_ok_def answer_ok_def fetched_for_def)
  then show ?case
    by (intro sources_inv_frame [OF woken.prems, of _ i "Answered key (stamp b (ascii ''HIT'') (Some 0)) (clock s)"])
       (use woken.prems in \<open>simp_all add: sources_inv_def\<close>)
next
  case (timeout_hit s i key f r c)
  then show ?case
    by (intro sources_try_hit pc_ok_answer)
next
  case (timeout_miss s i key f c)
  show ?case
    by (rule sources_try_hit [OF timeout_miss.prems timeout_miss.hyps(4)]) (simp add: pc_ok_def)
next
  case (insert_leader s i key f resp life)
  show ?case
    using insert_leader.prems by (rule sources_insert)
next
  case (insert_alone s i key resp life)
  show ?case
    using insert_alone.prems by (rule sources_insert)
next
  case (publish s i key resp f)
  have "pc_ok s (Fetched key resp f)"
    using publish by (intro pc_ok_thread)
  then have fetched: "fetched_for s key resp"
    by (simp add: pc_ok_def)
  have ok: "markers_ok (cache s)"
    using publish.prems by (simp add: sources_inv_def)
  show ?case
    by (rule sources_inv_upd [OF publish.prems, of _ i Free])
       (use publish.prems pc_ok_publish [OF ok fetched] markers_publish [OF ok] in \<open>simp_all add: sources_inv_def\<close>, simp add: pc_ok_def)
next
  case (leave s i key r t)
  show ?case
    by (rule sources_inv_frame [OF leave.prems, of _ i Free])
       (use leave.prems in \<open>simp_all add: sources_inv_def pc_ok_def\<close>)
next
  case (purge s)
  show ?case
    by (rule sources_inv_cong [OF purge.prems]) (simp_all add: purge_all_def)
qed

lemma cache_reachable_sources: "cache_reachable patient s \<Longrightarrow> sources_inv s"
proof (induction rule: cache_reachable.induct)
  case cache_start
  then show ?case
    by (simp add: sources_inv_def cache_new_def markers_ok_def pc_ok_def)
qed (rule cache_step_sources)

text \<open>
  C23: No request is ever answered from the cache with bytes that were not fetched for its own key: in every
  interleaving of lookups, elections, time-outs, stores, publications and purges, an answer is the stamped
  result of a completed fetch of that key, either handed over by the leader with age 0 or replayed from
  the store at an age strictly below the lifetime it was stored with.
\<close>

theorem cache_answers_are_fetched:
  assumes "cache_reachable patient s" "pc s i = Answered key r now"
  shows "\<exists>b t life. (key, b, t, life) \<in> set (runs s) \<and>
     (r = stamp b (ascii ''HIT'') (Some 0) \<or>
      r = stamp b (ascii ''HIT'') (Some (elapsed_secs now t)) \<and> elapsed_secs now t < life)"
  using pc_ok_thread [OF cache_reachable_sources [OF assms(1)] assms(2)] by (simp add: pc_ok_def answer_ok_def)

subsection \<open>A run with two threads\<close>

text \<open>
  Both threads miss; the first leads, fetches and stores; then a third state per continuation. The states
  are written out so that reachability is a chain of single steps.
\<close>

definition demo_key :: bytes where "demo_key = ascii ''GET /static''"

definition demo_resp :: bytes where "demo_resp = ascii ''HTTP/1.1 200 OK'' @ CRLF @ CRLF"

definition demo_missed :: cache_sys where
  "demo_missed = \<lparr> cache = cache_new, clock = 0, pc = (\<lambda>_. Free)(0 := Missed demo_key, 1 := Missed demo_key), runs = [] \<rparr>"

definition demo_leads :: cache_sys where
  "demo_leads = demo_missed\<lparr> cache := snd (elect cache_new demo_key), pc := (pc demo_missed)(0 := Leads demo_key 0) \<rparr>"

definition demo_stored :: cache_sys where
  "demo_stored = demo_leads\<lparr> cache := store_insert 0 (cache demo_leads) demo_key demo_resp 60,
     pc := (pc demo_leads)(0 := Fetched demo_key demo_resp (Some 0)), runs := [(demo_key, demo_resp, 0, 60)] \<rparr>"

definition demo_published :: cache_sys where
  "demo_published = demo_stored\<lparr> cache := publish_fetch (cache demo_stored) demo_key demo_resp,
     pc := (pc demo_stored)(0 := Free) \<rparr>"

lemma demo_missed_reachable: "cache_reachable patient demo_missed"
proof -
  let ?s = "\<lparr> cache = cache_new, clock = 0, pc = (\<lambda>_. Free)(0 := Missed demo_key), runs = [] \<rparr>"
  have "cache_reachable patient ?s"
    using cache_next [OF cache_start cache_step.miss [of _ 0 demo_key cache_new]]
    by (simp add: try_hit_def cache_new_def)
  then show ?thesis
    using cache_next [OF _ cache_step.miss [of ?s 1 demo_key cache_new]]
    by (simp add: demo_missed_def try_hit_def cache_new_def)
qed

lemma demo_leads_reachable: "cache_reachable patient demo_leads"
  using cache_next [OF demo_missed_reachable cache_step.lead [of demo_missed 0 demo_key 0 "snd (elect cache_new demo_key)"]]
  by (simp add: demo_leads_def) (simp add: demo_missed_def elect_def cache_new_def Let_def)

lemma demo_stored_reachable: "cache_reachable patient demo_stored"
  using cache_next [OF demo_leads_reachable cache_step.insert_leader [of demo_leads 0 demo_key 0 _ demo_resp 60]]
  by (simp add: demo_stored_def) (simp add: demo_leads_def demo_missed_def)

lemma demo_published_reachable: "cache_reachable patient demo_published"
  using cache_next [OF demo_stored_reachable cache_step.publish [of demo_stored 0 demo_key demo_resp "Some 0"]]
  by (simp add: demo_published_def) (simp add: demo_stored_def)

theorem cache_answers_are_fetched_witness:
  "\<exists>s b t life. cache_reachable False s \<and> pc s 2 = Answered demo_key (stamp demo_resp (ascii ''HIT'') (Some 0)) 0 \<and>
     (demo_key, b, t, life) \<in> set (runs s)"
proof -
  let ?r = "stamp demo_resp (ascii ''HIT'') (Some 0)"
  let ?s = "demo_published\<lparr> pc := (pc demo_published)(2 := Answered demo_key ?r 0) \<rparr>"
  have "try_hit 0 (cache demo_published) demo_key = (Some ?r, cache demo_published)" "clock demo_published = 0"
       "pc demo_published 2 = Free"
    by (simp_all add: demo_published_def demo_stored_def demo_leads_def demo_missed_def try_hit_def store_insert_def elapsed_secs_def)
  then have s: "cache_reachable False ?s"
    using cache_next [OF demo_published_reachable cache_step.hit [of demo_published 2 demo_key ?r "cache demo_published"]] by simp
  have "pc ?s 2 = Answered demo_key ?r 0"
    by simp
  with cache_answers_are_fetched [OF s this] s show ?thesis
    by blast
qed

subsection \<open>Leaders\<close>

text \<open>A thread owns the marker it registered from its election until its publication.\<close>

definition owns :: "cache_pc \<Rightarrow> bytes \<Rightarrow> nat \<Rightarrow> bool" where
  "owns p key f \<longleftrightarrow> p = Leads key f \<or> (\<exists>resp. p = Fetched key resp (Some f))"

lemma owns_simps [simp]:
  "\<not> owns Free key f" "\<not> owns (Missed k) key f" "\<not> owns (Alone k) key f" "\<not> owns (Waits k g) key f"
  "\<not> owns (Answered k r t) key f" "owns (Leads k g) key f \<longleftrightarrow> k = key \<and> g = f"
  "owns (Fetched k resp h) key f \<longleftrightarrow> k = key \<and> h = Some f"
  by (auto simp: owns_def)

definition owners_inv :: "bool \<Rightarrow> cache_sys \<Rightarrow> bool" where
  "owners_inv patient s \<longleftrightarrow>
     (\<forall>key f. inflight (cache s) key = Some f \<longrightarrow> (\<exists>i. owns (pc s i) key f)) \<and>
     (\<forall>i key f. owns (pc s i) key f \<longrightarrow> f < length (cells (cache s))) \<and>
     (\<forall>i j key key' f. owns (pc s i) key f \<and> owns (pc s j) key' f \<longrightarrow> i = j) \<and>
     (patient \<longrightarrow> (\<forall>i key f. owns (pc s i) key f \<longrightarrow> inflight (cache s) key = Some f) \<and>
        (\<forall>i key resp. pc s i \<noteq> Alone key \<and> pc s i \<noteq> Fetched key resp None))"

lemma owners_invD:
  assumes "owners_inv patient s"
  shows "inflight (cache s) key = Some f \<Longrightarrow> \<exists>i. owns (pc s i) key f"
    and "owns (pc s i) key f \<Longrightarrow> f < length (cells (cache s))"
    and "owns (pc s i) key f \<Longrightarrow> owns (pc s j) key' f \<Longrightarrow> i = j"
    and "patient \<Longrightarrow> owns (pc s i) key f \<Longrightarrow> inflight (cache s) key = Some f"
    and "patient \<Longrightarrow> pc s i \<noteq> Alone key \<and> pc s i \<noteq> Fetched key resp None"
  using assms unfolding owners_inv_def by blast+

lemma owners_invI:
  assumes "\<And>key f. inflight (cache s) key = Some f \<Longrightarrow> \<exists>i. owns (pc s i) key f"
    and "\<And>i key f. owns (pc s i) key f \<Longrightarrow> f < length (cells (cache s))"
    and "\<And>i j key key' f. owns (pc s i) key f \<Longrightarrow> owns (pc s j) key' f \<Longrightarrow> i = j"
    and "\<And>i key f. patient \<Longrightarrow> owns (pc s i) key f \<Longrightarrow> inflight (cache s) key = Some f"
    and "\<And>i key resp. patient \<Longrightarrow> pc s i \<noteq> Alone key \<and> pc s i \<noteq> Fetched key resp None"
  shows "owners_inv patient s"
  using assms unfolding owners_inv_def by blast

lemma owners_inv_frame:
  assumes "owners_inv patient s" "inflight (cache s') = inflight (cache s)" "cells (cache s') = cells (cache s)"
    "pc s' = (pc s)(i := p)" "\<And>key f. owns p key f = owns (pc s i) key f"
    "patient \<Longrightarrow> \<forall>key resp. p \<noteq> Alone key \<and> p \<noteq> Fetched key resp None"
  shows "owners_inv patient s'"
proof -
  have "owns (pc s' j) key f = owns (pc s j) key f" for j key f
    using assms(4,5) by simp
  then show ?thesis
    using assms(1-4,6) by (simp add: owners_inv_def)
qed

lemma owners_inv_lead:
  assumes inv: "owners_inv patient s" and "pc s i = Missed key" "elect (cache s) key = ((f, True), c)"
  shows "owners_inv patient (s\<lparr> cache := c, pc := (pc s)(i := Leads key f) \<rparr>)"
proof -
  have c: "inflight (cache s) key = None" "f = length (cells (cache s))"
      "inflight c = (inflight (cache s))(key \<mapsto> f)" "cells c = cells (cache s) @ [None]"
    using assms(3) by (simp_all add: elect_leader)
  define p where "p = (pc s)(i := Leads key f)"
  have p: "owns (p j) k g \<longleftrightarrow> (if j = i then k = key \<and> g = f else owns (pc s j) k g)" for j k g
    by (auto simp: p_def)
  have not_owned: "\<not> owns (pc s j) k f" for j k
    using owners_invD(2) [OF inv, of j k f] c(2) by auto
  have not_mine: "\<not> owns (pc s i) k g" for k g
    by (simp add: assms(2))
  have "\<exists>j. owns (p j) k g" if "inflight c k = Some g" for k g
  proof (cases "k = key")
    case True
    then show ?thesis
      using that c by (intro exI [of _ i]) (simp add: p)
  next
    case False
    then have "inflight (cache s) k = Some g"
      using that c by simp
    from owners_invD(1) [OF inv this] obtain j where "owns (pc s j) k g" ..
    then show ?thesis
      using not_mine by (intro exI [of _ j]) (auto simp: p)
  qed
  moreover have "g < length (cells c)" if "owns (p j) k g" for j k g
    using that owners_invD(2) [OF inv, of j k g] c by (auto simp: p split: if_splits)
  moreover have "j = j'" if "owns (p j) k g" "owns (p j') k' g" for j j' k k' g
    using that owners_invD(3) [OF inv, of j k g j' k'] not_owned by (auto simp: p split: if_splits)
  moreover have "inflight c k = Some g" if "patient" "owns (p j) k g" for j k g
    using that owners_invD(4) [OF inv, of j k g] c by (auto simp: p split: if_splits)
  moreover have "p j \<noteq> Alone k \<and> p j \<noteq> Fetched k resp None" if "patient" for j k resp
    using owners_invD(5) [OF inv that] by (simp add: p_def)
  ultimately have "owners_inv patient (s\<lparr> cache := c, pc := p \<rparr>)"
    by (intro owners_invI) simp_all
  then show ?thesis
    by (simp add: p_def)
qed

lemma owners_inv_publish:
  assumes inv: "owners_inv patient s" and "pc s i = Fetched key resp h"
  shows "owners_inv patient (s\<lparr> cache := publish_fetch (cache s) key resp, pc := (pc s)(i := Free) \<rparr>)"
proof -
  have len: "length (cells (publish_fetch (cache s) key resp)) = length (cells (cache s))"
    by (simp add: publish_fetch_def split: option.splits)
  define p where "p = (pc s)(i := Free)"
  have p: "owns (p j) k g \<longleftrightarrow> j \<noteq> i \<and> owns (pc s j) k g" for j k g
    by (simp add: p_def)
  have "\<exists>j. owns (p j) k f" if "k \<noteq> key" "inflight (cache s) k = Some f" for k f
  proof -
    from owners_invD(1) [OF inv that(2)] obtain j where "owns (pc s j) k f" ..
    moreover have "j \<noteq> i"
      using calculation that(1) assms(2) by auto
    ultimately show ?thesis
      by (auto simp: p)
  qed
  moreover have "k \<noteq> key \<and> inflight (cache s) k = Some f" if pat: "patient" and "owns (p j) k f" for j k f
  proof -
    obtain g where "h = Some g"
      using owners_invD(5) [OF inv pat, of i key resp] assms(2) by (cases h) auto
    then have "owns (pc s i) key g"
      by (simp add: assms(2))
    then show ?thesis
      using owners_invD(3) [OF inv, of i key g j k] owners_invD(4) [OF inv that(1), of i key g] owners_invD(4) [OF inv that(1), of j k f] that(2)
      by (auto simp: p)
  qed
  moreover have "p j \<noteq> Alone k \<and> p j \<noteq> Fetched k r None" if "patient" for j k r
    using owners_invD(5) [OF inv that] by (simp add: p_def)
  ultimately have "owners_inv patient (s\<lparr> cache := publish_fetch (cache s) key resp, pc := p \<rparr>)"
    using owners_invD(2,3) [OF inv] by (intro owners_invI) (auto simp: len p split: if_splits)
  then show ?thesis
    by (simp add: p_def)
qed

lemma cache_step_owners: "cache_step patient s t \<Longrightarrow> owners_inv patient s \<Longrightarrow> owners_inv patient t"
proof (induction rule: cache_step.induct)
  case (tick s d)
  then show ?case
    by (simp add: owners_inv_def)
next
  case (hit s i key r c)
  show ?case
    by (rule owners_inv_frame [OF hit.prems, of _ i "Answered key r (clock s)"]) (use hit try_hit_frame(1,2) [OF hit.hyps(2)] in simp_all)
next
  case (miss s i key c)
  show ?case
    by (rule owners_inv_frame [OF miss.prems, of _ i "Missed key"]) (use miss try_hit_frame(1,2) [OF miss.hyps(2)] in simp_all)
next
  case (lead s i key f c)
  then show ?case
    by (intro owners_inv_lead)
next
  case (wait s i key f c)
  show ?case
    by (rule owners_inv_frame [OF wait.prems, of _ i "Waits key f"]) (use wait in \<open>simp_all add: elect_waiter\<close>)
next
  case (hand_over s i key f c)
  show ?case
    by (rule owners_inv_frame [OF hand_over.prems, of _ i Free]) (use hand_over in \<open>simp_all add: elect_waiter\<close>)
next
  case (woken s i key f b)
  show ?case
    by (rule owners_inv_frame [OF woken.prems, of _ i "Answered key (stamp b (ascii ''HIT'') (Some 0)) (clock s)"]) (use woken in simp_all)
next
  case (timeout_hit s i key f r c)
  show ?case
    by (rule owners_inv_frame [OF timeout_hit.prems, of _ i "Answered key r (clock s)"])
       (use timeout_hit try_hit_frame(1,2) [OF timeout_hit.hyps(4)] in simp_all)
next
  case (timeout_miss s i key f c)
  show ?case
    by (rule owners_inv_frame [OF timeout_miss.prems, of _ i "Alone key"])
       (use timeout_miss try_hit_frame(1,2) [OF timeout_miss.hyps(4)] in simp_all)
next
  case (insert_leader s i key f resp life)
  show ?case
    by (rule owners_inv_frame [OF insert_leader.prems, of _ i "Fetched key resp (Some f)"]) (use insert_leader in simp_all)
next
  case (insert_alone s i key resp life)
  show ?case
    by (rule owners_inv_frame [OF insert_alone.prems, of _ i "Fetched key resp None"]) (use insert_alone in \<open>auto simp: owners_inv_def\<close>)
next
  case (publish s i key resp f)
  then show ?case
    by (intro owners_inv_publish)
next
  case (leave s i key r t)
  show ?case
    by (rule owners_inv_frame [OF leave.prems, of _ i Free]) (use leave in simp_all)
next
  case (purge s)
  then show ?case
    by (simp add: owners_inv_def purge_all_def)
qed

lemma cache_reachable_owners: "cache_reachable patient s \<Longrightarrow> owners_inv patient s"
proof (induction rule: cache_reachable.induct)
  case cache_start
  then show ?case
    by (simp add: owners_inv_def cache_new_def)
qed (rule cache_step_owners)



text \<open>
  Concurrent misses do not always collapse onto one fetch: a thread that missed before the leader stored
  and is elected after the leader published finds no marker and runs the handler again, although a fresh
  entry is in the store.
\<close>

theorem cache_fetches_twice:
  "\<exists>s. cache_reachable True s \<and> runs s = [(demo_key, demo_resp, 0, 60), (demo_key, demo_resp, 0, 60)]"
proof -
  let ?c = "snd (elect (cache demo_published) demo_key)"
  let ?s = "demo_published\<lparr> cache := ?c, pc := (pc demo_published)(1 := Leads demo_key 1) \<rparr>"
  have d: "elect (cache demo_published) demo_key = ((1, True), ?c)" "pc demo_published 1 = Missed demo_key"
       "runs demo_published = [(demo_key, demo_resp, 0, 60)]" "clock demo_published = 0"
    by (simp_all add: demo_published_def demo_stored_def demo_leads_def demo_missed_def elect_def cache_new_def
          publish_fetch_def Let_def)
  then have s: "cache_reachable True ?s"
    using cache_next [OF demo_published_reachable cache_step.lead [of demo_published 1 demo_key 1 ?c]] by simp
  have l: "pc ?s 1 = Leads demo_key 1"
    by simp
  let ?t = "?s\<lparr> cache := store_insert (clock ?s) (cache ?s) demo_key demo_resp 60,
     pc := (pc ?s)(1 := Fetched demo_key demo_resp (Some 1)), runs := (demo_key, demo_resp, clock ?s, 60) # runs ?s \<rparr>"
  have "cache_reachable True ?t"
    using s cache_step.insert_leader [OF l] by (rule cache_next)
  moreover have "runs ?t = [(demo_key, demo_resp, 0, 60), (demo_key, demo_resp, 0, 60)]"
    by (simp add: d(3,4))
  ultimately show ?thesis
    by (intro exI [of _ ?t] conjI)
qed

section \<open>One thread\<close>

text \<open>
  The cache replays what it fetched and only while it is fresh: a cacheable response is served as a miss
  and stored; until its lifetime is over every later request for the key gets the same bytes, stamped with
  their age, whatever the handler would answer now; after that the handler is run again.
\<close>

theorem serve_cached_replays:
  assumes "cache_key req = Some key" "entries c key = None" "inflight c key = None"
    "cacheable_lifetime (fetch ()) = Some life"
  shows "\<exists>c'. serve_cached t c req fetch = Some (stamp (fetch ()) (ascii ''MISS'') None, c') \<and>
     (\<forall>t' fetch'. if elapsed_secs t' t < life
        then serve_cached t' c' req fetch' = Some (stamp (fetch ()) (ascii ''HIT'') (Some (elapsed_secs t' t)), c')
        else map_option fst (serve_cached t' c' req fetch') = Some (stamp (fetch' ()) (ascii ''MISS'') None))"
proof -
  have "life \<noteq> 0"
    using assms(4) by (auto simp: cacheable_lifetime_def Let_def split: if_splits option.splits)
  then show ?thesis
    using assms by (simp add: serve_cached_def try_hit_def elect_def Let_def store_insert_def)
qed

theorem serve_cached_replays_witness:
  "\<exists>c'. serve_cached 0 cache_new (ascii ''GET /static HTTP/1.1'' @ CRLF @ CRLF)
            (\<lambda>_. ascii ''HTTP/1.1 200 OK'' @ CRLF @ ascii ''Cache-Control: max-age=60'' @ CRLF @ CRLF) =
         Some (stamp (ascii ''HTTP/1.1 200 OK'' @ CRLF @ ascii ''Cache-Control: max-age=60'' @ CRLF @ CRLF) (ascii ''MISS'') None, c') \<and>
       serve_cached (5 * 10 ^ 9) c' (ascii ''GET /static HTTP/1.1'' @ CRLF @ CRLF) (\<lambda>_. []) =
         Some (stamp (ascii ''HTTP/1.1 200 OK'' @ CRLF @ ascii ''Cache-Control: max-age=60'' @ CRLF @ CRLF) (ascii ''HIT'') (Some 5), c')"
proof -
  let ?req = "ascii ''GET /static HTTP/1.1'' @ CRLF @ CRLF"
  let ?resp = "ascii ''HTTP/1.1 200 OK'' @ CRLF @ ascii ''Cache-Control: max-age=60'' @ CRLF @ CRLF"
  have k: "cache_key ?req = Some (ascii ''GET /static'')"
    by code_simp
  have l: "cacheable_lifetime ((\<lambda>_. ?resp) ()) = Some 60"
    by (simp add: cacheable_lifetime_def status_is_2xx_def parse_max_age_def split_sp_def find_sub_def starts_with_def
          ends_with_def trim_by_def trim_start_by_def trim_end_by_def is_ascii_whitespace_def eq_ignore_ascii_case_def
          to_ascii_lowercase_def utf8_valid_def utf8_chars_ascii parse_uint_def is_ascii_digit_def)
  have e: "elapsed_secs (5 * 10 ^ 9) 0 = 5"
    by (simp add: elapsed_secs_def)
  obtain c' where c': "serve_cached 0 cache_new ?req (\<lambda>_. ?resp) = Some (stamp ?resp (ascii ''MISS'') None, c')"
     "\<And>t' fetch'. elapsed_secs t' 0 < 60 \<Longrightarrow>
        serve_cached t' c' ?req fetch' = Some (stamp ?resp (ascii ''HIT'') (Some (elapsed_secs t' 0)), c')"
    using serve_cached_replays [OF k, of cache_new "\<lambda>_. ?resp" 60 0] l by (auto simp: cache_new_def split: if_splits)
  show ?thesis
    using c'(1) c'(2) [of "5 * 10 ^ 9" "\<lambda>_. []"] unfolding e by auto
qed

end
