(* ===== verification/Word_Bytes.thy ===== *)
theory Word_Bytes
  imports Codec
begin

unbundle bit_operations_syntax

text \<open>
  \<open>to_le_bytes\<close>, \<open>to_be_bytes\<close> and their inverses on unsigned integers of any width that is a whole
  number of octets.
\<close>

primrec le_octets :: "nat \<Rightarrow> 'w::len word \<Rightarrow> bytes" where
  "le_octets 0 w = []"
| "le_octets (Suc n) w = ucast w # le_octets n (drop_bit 8 w)"

primrec le_word :: "bytes \<Rightarrow> 'w::len word" where
  "le_word [] = 0"
| "le_word (b # bs) = ucast b OR push_bit 8 (le_word bs)"

definition to_le_bytes :: "'w::len word \<Rightarrow> bytes" where
  "to_le_bytes w = le_octets (LENGTH('w) div 8) w"

definition to_be_bytes :: "'w::len word \<Rightarrow> bytes" where
  "to_be_bytes w = rev (to_le_bytes w)"

definition from_le_bytes :: "bytes \<Rightarrow> 'w::len word" where
  "from_le_bytes bs = le_word bs"

definition from_be_bytes :: "bytes \<Rightarrow> 'w::len word" where
  "from_be_bytes bs = le_word (rev bs)"

lemma length_le_octets [simp]: "length (le_octets n w) = n"
  by (induction n arbitrary: w) simp_all

lemma length_to_bytes [simp]:
  "length (to_le_bytes (w :: 'w::len word)) = LENGTH('w) div 8" "length (to_be_bytes w) = LENGTH('w) div 8"
  by (simp_all add: to_le_bytes_def to_be_bytes_def)

lemma octet_split:
  fixes w :: "'w::len word"
  shows "(ucast (ucast w :: byte) :: 'w word) OR push_bit 8 (take_bit n (drop_bit 8 w)) = take_bit (8 + n) w"
proof (rule bit_word_eqI)
  show "bit ((ucast (ucast w :: byte) :: 'w word) OR push_bit 8 (take_bit n (drop_bit 8 w))) i = bit (take_bit (8 + n) w) i"
    if "i < LENGTH('w)" for i
    using that by (auto simp: bit_or_iff bit_push_bit_iff bit_take_bit_iff bit_drop_bit_eq bit_ucast_iff dest: bit_imp_le_length)
qed

lemma le_word_octets: "le_word (le_octets n w) = take_bit (8 * n) w"
  by (induction n arbitrary: w) (simp_all add: octet_split)

lemma from_le_to_le [simp]:
  fixes w :: "'w::len word"
  assumes "8 dvd LENGTH('w)"
  shows "from_le_bytes (to_le_bytes w) = w"
  using assms by (simp add: from_le_bytes_def to_le_bytes_def le_word_octets dvd_mult_div_cancel)

lemma from_be_to_be [simp]:
  fixes w :: "'w::len word"
  assumes "8 dvd LENGTH('w)"
  shows "from_be_bytes (to_be_bytes w) = w"
  using from_le_to_le [OF assms, of w] by (simp add: from_be_bytes_def to_be_bytes_def from_le_bytes_def)

lemma bit_beyond: "8 \<le> n \<Longrightarrow> \<not> bit (b :: byte) n"
  using bit_imp_le_length [of b n] by auto

lemma le_word_small: "take_bit (8 * length bs) (le_word bs :: 'w::len word) = le_word bs"
proof (induction bs)
  case (Cons b bs)
  show ?case
  proof (rule bit_word_eqI)
    show "bit (take_bit (8 * length (b # bs)) (le_word (b # bs) :: 'w word)) n = bit (le_word (b # bs) :: 'w word) n"
      if "n < LENGTH('w)" for n
    proof -
      have "bit (le_word bs :: 'w word) (n - 8) \<Longrightarrow> n - 8 < 8 * length bs"
        by (subst (asm) Cons.IH [symmetric]) (simp add: bit_take_bit_iff)
      then show ?thesis
        using bit_beyond [of n b] by (auto simp: bit_take_bit_iff bit_or_iff bit_push_bit_iff bit_ucast_iff)
    qed
  qed
qed simp

lemma le_octets_word:
  assumes "8 * length bs \<le> LENGTH('w::len)"
  shows "le_octets (length bs) (le_word bs :: 'w word) = bs"
  using assms
proof (induction bs)
  case (Cons b bs)
  let ?w = "le_word bs :: 'w word"
  have len: "8 \<le> LENGTH('w)"
    using Cons.prems by simp
  have small: "take_bit (8 * length bs) ?w = ?w"
    by (rule le_word_small)
  have "(ucast (ucast b OR push_bit 8 ?w :: 'w word) :: byte) = b"
    using len by (intro bit_word_eqI) (auto simp: bit_ucast_iff bit_or_iff bit_push_bit_iff)
  moreover have "drop_bit 8 (ucast b OR push_bit 8 ?w :: 'w word) = ?w"
  proof (rule bit_word_eqI)
    show "bit (drop_bit 8 (ucast b OR push_bit 8 ?w :: 'w word)) n = bit ?w n" if "n < LENGTH('w)" for n
    proof -
      have "\<not> bit b (8 + n)"
        by (rule bit_beyond) simp
      moreover have "bit ?w n \<Longrightarrow> n < 8 * length bs"
        by (subst (asm) small [symmetric]) (simp add: bit_take_bit_iff)
      ultimately show ?thesis
        using Cons.prems by (auto simp: bit_drop_bit_eq bit_or_iff bit_push_bit_iff bit_ucast_iff)
    qed
  qed
  ultimately show ?case
    using Cons by simp
qed simp

lemma to_be_from_be:
  assumes "LENGTH('w::len) = 8 * length bs"
  shows "to_be_bytes (from_be_bytes bs :: 'w word) = bs"
  using le_octets_word [of "rev bs", where ?'w = 'w] assms by (simp add: to_be_bytes_def to_le_bytes_def from_be_bytes_def)

interpretation le32: codec "to_le_bytes :: u32 \<Rightarrow> bytes" "\<lambda>bs. Some (from_le_bytes bs)" "\<lambda>_. True"
  by unfold_locales simp

interpretation le64: codec "to_le_bytes :: u64 \<Rightarrow> bytes" "\<lambda>bs. Some (from_le_bytes bs)" "\<lambda>_. True"
  by unfold_locales simp

interpretation be32: codec "to_be_bytes :: u32 \<Rightarrow> bytes" "\<lambda>bs. Some (from_be_bytes bs)" "\<lambda>_. True"
  by unfold_locales simp

end
