(* ===== verification/Cache_Disk.thy ===== *)
theory Cache_Disk
  imports Cache Word_Bytes Host_IO "HOL-Library.AList"
begin

text \<open>
  The durable tier of the response cache, \<^verbatim>\<open>cache_disk.rs\<close>: the file format, the path of a key,
  and the operations over a file system of names and file contents. A name points to a file by number, so
  that a file that is still open can be renamed or truncated under its writer.
\<close>

section \<open>The file system\<close>

text \<open>\<open>refused\<close> holds the paths on which the operating system fails reads and removals.\<close>

record disk_fs =
  names :: "(bytes \<times> nat) list"
  files :: "bytes list"
  refused :: "bytes \<Rightarrow> bool"

definition fs_read :: "disk_fs \<Rightarrow> bytes \<Rightarrow> bytes option" where
  "fs_read fs path = (if refused fs path then None else map_option ((!) (files fs)) (map_of (names fs) path))"

text \<open>Opening for writing: an existing file is truncated, otherwise a new one gets the name.\<close>

definition fs_create :: "disk_fs \<Rightarrow> bytes \<Rightarrow> nat \<times> disk_fs" where
  "fs_create fs path =
     (case map_of (names fs) path of
        Some f \<Rightarrow> (f, fs\<lparr> files := (files fs)[f := []] \<rparr>)
      | None \<Rightarrow> (length (files fs), fs\<lparr> names := AList.update path (length (files fs)) (names fs), files := files fs @ [[]] \<rparr>))"

text \<open>Writing at the writer's own offset; a gap left by a truncation is filled with zeros.\<close>

definition write_at :: "nat \<Rightarrow> bytes \<Rightarrow> bytes \<Rightarrow> bytes" where
  "write_at off bs old = take off (old @ replicate (off - length old) 0) @ bs @ drop (off + length bs) old"

definition fs_write_at :: "disk_fs \<Rightarrow> nat \<Rightarrow> nat \<Rightarrow> bytes \<Rightarrow> disk_fs" where
  "fs_write_at fs f off bs = fs\<lparr> files := (files fs)[f := write_at off bs (files fs ! f)] \<rparr>"

definition fs_rename :: "disk_fs \<Rightarrow> bytes \<Rightarrow> bytes \<Rightarrow> disk_fs option" where
  "fs_rename fs a b =
     (case map_of (names fs) a of
        None \<Rightarrow> None
      | Some f \<Rightarrow> Some (fs\<lparr> names := AList.update b f (AList.delete a (names fs)) \<rparr>))"

datatype removal = Removed | NotFound | Refused

definition fs_remove :: "disk_fs \<Rightarrow> bytes \<Rightarrow> removal \<times> disk_fs" where
  "fs_remove fs path =
     (if map_of (names fs) path = None then (NotFound, fs)
      else if refused fs path then (Refused, fs)
      else (Removed, fs\<lparr> names := AList.delete path (names fs) \<rparr>))"

section \<open>Format and paths\<close>

definition MAGIC :: bytes where "MAGIC = ascii ''DKCH''"

definition VERSION :: u32 where "VERSION = 1"

record disk_entry =
  disk_key :: bytes
  disk_stored_at :: u64
  disk_max_age :: u64
  disk_body :: bytes

definition saturating_sub :: "u64 \<Rightarrow> u64 \<Rightarrow> u64" where
  "saturating_sub a b = (if b \<le> a then a - b else 0)"

definition entry_fresh :: "disk_entry \<Rightarrow> u64 \<Rightarrow> bool" where
  "entry_fresh e now \<longleftrightarrow> saturating_sub now (disk_stored_at e) < disk_max_age e"

definition encode :: "bytes \<Rightarrow> bytes \<Rightarrow> u64 \<Rightarrow> u64 \<Rightarrow> bytes" where
  "encode key resp stored_at max_age =
     MAGIC @ to_le_bytes VERSION @ to_le_bytes stored_at @ to_le_bytes max_age @
     to_le_bytes (of_nat (length key) :: u32) @ key @ resp"

definition decode :: "bytes \<Rightarrow> disk_entry option" where
  "decode data =
     (if length data < 28 \<or> take 4 data \<noteq> MAGIC then None
      else if (from_le_bytes (take 4 (drop 4 data)) :: u32) \<noteq> VERSION then None
      else
        let key_end = 28 + unat (from_le_bytes (take 4 (drop 24 data)) :: u32) in
        if length data < key_end then None
        else Some \<lparr> disk_key = take (key_end - 28) (drop 28 data),
                    disk_stored_at = from_le_bytes (take 8 (drop 8 data)),
                    disk_max_age = from_le_bytes (take 8 (drop 16 data)),
                    disk_body = drop key_end data \<rparr>)"

primrec fnv1a :: "bytes \<Rightarrow> u64 \<Rightarrow> u64" where
  "fnv1a [] h = h"
| "fnv1a (b # bs) h = fnv1a bs ((h XOR ucast b) * 0x100000001b3)"

definition HEX :: bytes where "HEX = ascii ''0123456789abcdef''"

definition hash_hex :: "bytes \<Rightarrow> bytes" where
  "hash_hex key =
     (let a = fnv1a key 0xcbf29ce484222325; b = fnv1a key (0x100000001b3 XOR 0xcbf29ce484222325) in
      concat (map (\<lambda>byte. [HEX ! unat (drop_bit 4 byte), HEX ! unat (byte AND 15)]) (to_be_bytes a @ to_be_bytes b)))"

section \<open>The operations\<close>

record disk_cache =
  disk_root :: bytes
  disk_enabled :: bool

abbreviation SLASH :: byte where "SLASH \<equiv> 47"

definition entry_path :: "disk_cache \<Rightarrow> bytes \<Rightarrow> bytes" where
  "entry_path dc key =
     (let hex = hash_hex key in
      disk_root dc @ [SLASH] @ take 2 hex @ [SLASH] @ take 2 (drop 2 hex) @ [SLASH] @ hex)"

text \<open>\<open>path.with_extension("tmp")\<close> of a path whose last component has no dot.\<close>

definition TMP :: bytes where "TMP = ascii ''.tmp''"

text \<open>
  The failures a \<open>put\<close> can meet: making the directories, writing (after some bytes), renaming.
\<close>

record put_faults =
  mkdir_fails :: bool
  write_fails :: "nat option"
  rename_fails :: bool

definition disk_put ::
  "put_faults \<Rightarrow> disk_cache \<Rightarrow> bytes \<Rightarrow> bytes \<Rightarrow> u64 \<Rightarrow> u64 \<Rightarrow> disk_fs \<Rightarrow> (unit + unit) \<times> disk_fs" where
  "disk_put w dc key resp stored_at max_age fs =
     (if \<not> disk_enabled dc \<or> max_age = 0 then (Inr (), fs)
      else
        let path = entry_path dc key in
        if mkdir_fails w then (Inl (), fs)
        else
          let data = encode key resp stored_at max_age; tmp = path @ TMP; (f, fs) = fs_create fs tmp in
          case write_fails w of
            Some n \<Rightarrow> (Inl (), fs_write_at fs f 0 (take n data))
          | None \<Rightarrow>
              let fs = fs_write_at fs f 0 data in
              if rename_fails w then (Inl (), fs)
              else case fs_rename fs tmp path of None \<Rightarrow> (Inl (), fs) | Some fs \<Rightarrow> (Inr (), fs))"

definition get_entry :: "disk_cache \<Rightarrow> disk_fs \<Rightarrow> bytes \<Rightarrow> disk_entry option" where
  "get_entry dc fs key =
     (if \<not> disk_enabled dc then None
      else case fs_read fs (entry_path dc key) of
        None \<Rightarrow> None
      | Some data \<Rightarrow>
          (case decode data of
             None \<Rightarrow> None
           | Some e \<Rightarrow> if disk_key e \<noteq> key then None else Some e))"

definition get_fresh :: "disk_cache \<Rightarrow> disk_fs \<Rightarrow> bytes \<Rightarrow> u64 \<Rightarrow> disk_entry option \<times> disk_fs" where
  "get_fresh dc fs key now =
     (case get_entry dc fs key of
        None \<Rightarrow> (None, fs)
      | Some e \<Rightarrow> if entry_fresh e now then (Some e, fs) else (None, snd (fs_remove fs (entry_path dc key))))"

definition disk_remove :: "disk_cache \<Rightarrow> disk_fs \<Rightarrow> bytes \<Rightarrow> (unit + bool) \<times> disk_fs" where
  "disk_remove dc fs key =
     (if \<not> disk_enabled dc then (Inr False, fs)
      else case fs_remove fs (entry_path dc key) of
        (Removed, fs) \<Rightarrow> (Inr True, fs)
      | (NotFound, fs) \<Rightarrow> (Inr False, fs)
      | (Refused, fs) \<Rightarrow> (Inl (), fs))"

definition stamp_hit :: "bytes \<Rightarrow> u64 \<Rightarrow> bytes" where
  "stamp_hit resp age =
     (case find_sub resp CRLF of
        None \<Rightarrow> resp
      | Some p \<Rightarrow>
          take (p + 2) resp @ ascii ''X-Cache: HIT'' @ CRLF @ ascii ''Age: '' @ dec_digits (unat age) @ CRLF @
          drop (p + 2) resp)"

text \<open>\<open>now\<close> is the wall clock in seconds, \<open>instant\<close> the monotonic clock the hot tier stores under.\<close>

definition promote_on_miss ::
  "disk_cache \<Rightarrow> nat \<Rightarrow> disk_fs \<Rightarrow> response_cache \<Rightarrow> bytes \<Rightarrow> u64 \<Rightarrow> bytes option \<times> disk_fs \<times> response_cache" where
  "promote_on_miss dc instant fs hot key now =
     (case get_fresh dc fs key now of
        (None, fs) \<Rightarrow> (None, fs, hot)
      | (Some e, fs) \<Rightarrow>
          let age = saturating_sub now (disk_stored_at e); remaining = saturating_sub (disk_max_age e) age in
          (Some (stamp_hit (disk_body e) age), fs,
           cache_store instant hot key (disk_body e) (max (unat remaining) 1)))"

text \<open>The files two levels below the root, without those that have the extension of a write in progress.\<close>

definition iter_paths :: "disk_fs \<Rightarrow> bytes list" where
  "iter_paths fs = filter (\<lambda>p. \<not> ends_with p TMP) (map fst (names fs))"

primrec reap_paths :: "u64 \<Rightarrow> bytes list \<Rightarrow> disk_fs \<Rightarrow> nat \<times> disk_fs" where
  "reap_paths now [] fs = (0, fs)"
| "reap_paths now (p # ps) fs =
     (let kept = (case fs_read fs p of
                    None \<Rightarrow> True
                  | Some data \<Rightarrow> (case decode data of Some e \<Rightarrow> entry_fresh e now | None \<Rightarrow> False)) in
      if kept then reap_paths now ps fs
      else case fs_remove fs p of
        (Removed, fs) \<Rightarrow> (let (n, fs) = reap_paths now ps fs in (Suc n, fs))
      | (_, fs) \<Rightarrow> reap_paths now ps fs)"

definition reap :: "disk_cache \<Rightarrow> disk_fs \<Rightarrow> u64 \<Rightarrow> nat \<times> disk_fs" where
  "reap dc fs now = (if \<not> disk_enabled dc then (0, fs) else reap_paths now (iter_paths fs) fs)"

section \<open>Format\<close>

lemma decode_prefix:
  assumes "length key < 2 ^ 32" "28 + length key \<le> n"
  shows "decode (take n (encode key resp stored_at max_age)) =
     Some \<lparr> disk_key = key, disk_stored_at = stored_at, disk_max_age = max_age, disk_body = take (n - 28 - length key) resp \<rparr>"
proof -
  let ?data = "take n (encode key resp stored_at max_age)"
  have magic: "length MAGIC = 4"
    by (simp add: MAGIC_def)
  then have data: "?data = MAGIC @ to_le_bytes VERSION @ to_le_bytes stored_at @ to_le_bytes max_age @
      to_le_bytes (of_nat (length key) :: u32) @ key @ take (n - 28 - length key) resp"
    using assms(2) by (simp add: encode_def)
  have "unat (of_nat (length key) :: u32) = length key"
    using assms(1) by (simp add: unat_of_nat)
  then show ?thesis
    unfolding data decode_def using magic by (simp add: Let_def)
qed

lemma decode_encode:
  assumes "length key < 2 ^ 32"
  shows "decode (encode key resp stored_at max_age) =
     Some \<lparr> disk_key = key, disk_stored_at = stored_at, disk_max_age = max_age, disk_body = resp \<rparr>"
proof -
  have "take (28 + length key + length resp) (encode key resp stored_at max_age) = encode key resp stored_at max_age"
    by (simp add: encode_def MAGIC_def)
  with decode_prefix [OF assms, of "28 + length key + length resp" resp stored_at max_age] show ?thesis
    by (simp del: take_all_iff)
qed

interpretation disk_file: codec
  "\<lambda>e. encode (disk_key e) (disk_body e) (disk_stored_at e) (disk_max_age e)" decode "\<lambda>e. length (disk_key e) < 2 ^ 32"
  by unfold_locales (simp add: decode_encode)

section \<open>Paths\<close>

lemma length_hash_hex [simp]: "length (hash_hex key) = 32"
  by (simp add: hash_hex_def Let_def length_concat o_def sum_list_triv)

lemma HEX_nth: "i < 16 \<Longrightarrow> HEX ! i \<in> set HEX"
  by (rule nth_mem) (simp add: HEX_def)

lemma nibbles_less: "unat (drop_bit 4 (b :: byte)) < 16" "unat ((b :: byte) AND 15) < 16"
proof -
  have "unat (drop_bit 4 b) = unat b div 16"
    by (simp add: drop_bit_eq_div unat_div)
  then show "unat (drop_bit 4 b) < 16"
    using unsigned_less [of b, where ?'a = nat] by (simp add: less_mult_imp_div_less)
  have "b AND 15 = take_bit 4 b"
    by (simp add: take_bit_eq_mask mask_eq_exp_minus_1)
  then show "unat (b AND 15) < 16"
    by (simp add: take_bit_eq_mod unat_mod)
qed

lemma hash_hex_digits: "set (hash_hex key) \<subseteq> set HEX"
  using nibbles_less HEX_nth by (auto simp: hash_hex_def Let_def)

lemma entry_path_length: "length (entry_path dc key) = length (disk_root dc) + 39"
  by (simp add: entry_path_def Let_def)

lemma entry_path_not_tmp [simp]:
  "entry_path dc k \<noteq> entry_path dc key @ TMP" "entry_path dc key @ TMP \<noteq> entry_path dc k"
  using entry_path_length [of dc k] entry_path_length [of dc key]
  by (metis length_append TMP_def length_ascii add_diff_cancel_left' diff_self_eq_0 list.size(3) length_greater_0_conv list.discI less_irrefl)+

text \<open>
  C27: Every key has a well-formed path: the root, then two shard directories of two characters and a file name of
  thirty-two, all lower-case hexadecimal digits, so that no key, whatever bytes it has, names a file outside
  the root or collides with a temporary file.
\<close>

theorem entry_path_well_formed:
  "\<exists>a b h. entry_path dc key = disk_root dc @ [SLASH] @ a @ [SLASH] @ b @ [SLASH] @ h \<and>
     length a = 2 \<and> length b = 2 \<and> length h = 32 \<and> set (a @ b @ h) \<subseteq> set (ascii ''0123456789abcdef'') \<and>
     (\<forall>k. entry_path dc key @ TMP \<noteq> entry_path dc k)"
proof (intro exI conjI)
  show "entry_path dc key = disk_root dc @ [SLASH] @ take 2 (hash_hex key) @ [SLASH] @ take 2 (drop 2 (hash_hex key)) @ [SLASH] @ hash_hex key"
    by (simp add: entry_path_def Let_def)
  show "set (take 2 (hash_hex key) @ take 2 (drop 2 (hash_hex key)) @ hash_hex key) \<subseteq> set (ascii ''0123456789abcdef'')"
    using hash_hex_digits [of key] unfolding HEX_def [symmetric]
    by (auto dest: in_set_takeD in_set_dropD)
qed simp_all

section \<open>The file system under the operations\<close>

text \<open>Every name points to a file of its own.\<close>

definition fs_ok :: "disk_fs \<Rightarrow> bool" where
  "fs_ok fs \<longleftrightarrow> distinct (map fst (names fs)) \<and>
     (\<forall>p f. map_of (names fs) p = Some f \<longrightarrow> f < length (files fs)) \<and>
     (\<forall>p q f. map_of (names fs) p = Some f \<and> map_of (names fs) q = Some f \<longrightarrow> p = q)"

lemma fs_okD:
  assumes "fs_ok fs"
  shows "map_of (names fs) p = Some f \<Longrightarrow> f < length (files fs)"
    and "map_of (names fs) p = Some f \<Longrightarrow> map_of (names fs) q = Some f \<Longrightarrow> p = q"
    and "distinct (map fst (names fs))"
  using assms unfolding fs_ok_def by blast+

lemma fs_create_facts:
  assumes "fs_ok fs" "fs_create fs path = (f, fs')"
  shows "fs_ok fs'" "map_of (names fs') path = Some f" "files fs' ! f = []" "refused fs' = refused fs"
    "p \<noteq> path \<Longrightarrow> fs_read fs' p = fs_read fs p"
proof -
  note D = fs_okD [OF assms(1)]
  show "map_of (names fs') path = Some f" "files fs' ! f = []" "refused fs' = refused fs"
    using assms(2) D(1) [of path f] by (auto simp: fs_create_def update_conv' split: option.splits)
  show "fs_ok fs'"
  proof (cases "map_of (names fs) path")
    case None
    then show ?thesis
      using assms(2) D less_irrefl unfolding fs_ok_def fs_create_def
      by (auto simp: update_conv' distinct_update less_Suc_eq split: if_splits) blast+
  next
    case (Some g)
    then have "names fs' = names fs" "length (files fs') = length (files fs)"
      using assms(2) by (auto simp: fs_create_def)
    then show ?thesis
      using assms(1) by (simp add: fs_ok_def)
  qed
  show "fs_read fs' p = fs_read fs p" if "p \<noteq> path"
  proof (cases "map_of (names fs) p")
    case None
    then show ?thesis
      using assms(2) that by (auto simp: fs_create_def fs_read_def update_conv' split: option.splits)
  next
    case (Some g)
    then show ?thesis
      using assms(2) that D(1) [OF Some] D(2) [OF Some, of path]
      by (auto simp: fs_create_def fs_read_def update_conv' nth_append nth_list_update_if split: option.splits)
  qed
qed

lemma fs_write_at_facts:
  assumes "fs_ok fs" "map_of (names fs) path = Some f"
  shows "fs_ok (fs_write_at fs f off bs)" "names (fs_write_at fs f off bs) = names fs"
    "refused (fs_write_at fs f off bs) = refused fs"
    "files (fs_write_at fs f off bs) ! f = write_at off bs (files fs ! f)"
    "p \<noteq> path \<Longrightarrow> fs_read (fs_write_at fs f off bs) p = fs_read fs p"
proof -
  note D = fs_okD [OF assms(1)]
  show "fs_ok (fs_write_at fs f off bs)" "names (fs_write_at fs f off bs) = names fs"
    "refused (fs_write_at fs f off bs) = refused fs"
    "files (fs_write_at fs f off bs) ! f = write_at off bs (files fs ! f)"
    using assms D(1) [OF assms(2)] by (simp_all add: fs_write_at_def fs_ok_def)
  show "fs_read (fs_write_at fs f off bs) p = fs_read fs p" if "p \<noteq> path"
    using that D(2) [OF assms(2), of p]
    by (cases "map_of (names fs) p") (auto simp: fs_write_at_def fs_read_def nth_list_update_if)
qed

lemma fs_rename_facts:
  assumes "fs_ok fs" "map_of (names fs) a = Some f" "a \<noteq> b"
  shows "\<exists>fs'. fs_rename fs a b = Some fs' \<and> fs_ok fs' \<and> refused fs' = refused fs \<and>
     (\<not> refused fs b \<longrightarrow> fs_read fs' b = Some (files fs ! f)) \<and>
     (\<forall>p. p \<noteq> a \<and> p \<noteq> b \<longrightarrow> fs_read fs' p = fs_read fs p)"
proof -
  note D = fs_okD [OF assms(1)]
  let ?fs = "fs\<lparr> names := AList.update b f (AList.delete a (names fs)) \<rparr>"
  have lookup: "map_of (names ?fs) p = (if p = b then Some f else if p = a then None else map_of (names fs) p)" for p
    by (simp add: update_conv' delete_conv')
  have "fs_ok ?fs"
    unfolding fs_ok_def
  proof (intro conjI allI impI)
    show "distinct (map fst (names ?fs))"
      using D(3) by (simp add: distinct_update distinct_delete)
    show "g < length (files ?fs)" if "map_of (names ?fs) p = Some g" for p g
      using that D(1) [OF assms(2)] D(1) [of p g] unfolding lookup by (simp split: if_splits)
    show "p = q" if "map_of (names ?fs) p = Some g \<and> map_of (names ?fs) q = Some g" for p q g
      using that D(2) assms(2) unfolding lookup by (metis option.inject option.distinct(1))
  qed
  then show ?thesis
    using assms lookup by (simp add: fs_rename_def fs_read_def)
qed

lemma write_at_start [simp]: "write_at 0 bs [] = bs"
  by (simp add: write_at_def)

definition put_took_effect :: "disk_cache \<Rightarrow> u64 \<Rightarrow> unit + unit \<Rightarrow> bool" where
  "put_took_effect dc max_age r \<longleftrightarrow> disk_enabled dc \<and> max_age \<noteq> 0 \<and> r = Inr ()"

text \<open>What a put, with whatever failure, leaves under the paths of keys.\<close>

lemma disk_put_reads:
  assumes "fs_ok fs" "disk_put w dc key resp stored_at max_age fs = (r, fs')"
  shows "fs_ok fs' \<and> refused fs' = refused fs \<and>
     fs_read fs' (entry_path dc k) =
       (if put_took_effect dc max_age r \<and> entry_path dc k = entry_path dc key \<and> \<not> refused fs (entry_path dc key)
        then Some (encode key resp stored_at max_age) else fs_read fs (entry_path dc k))"
proof (cases "\<not> disk_enabled dc \<or> max_age = 0 \<or> mkdir_fails w")
  case True
  then show ?thesis
    using assms by (auto simp: disk_put_def put_took_effect_def Let_def split: if_splits)
next
  case False
  let ?path = "entry_path dc key" let ?tmp = "?path @ TMP" let ?data = "encode key resp stored_at max_age"
  obtain f fs1 where fs1: "fs_create fs ?tmp = (f, fs1)"
    by (cases "fs_create fs ?tmp")
  note create = fs_create_facts [OF assms(1) fs1]
  have put: "disk_put w dc key resp stored_at max_age fs =
     (case write_fails w of
        Some n \<Rightarrow> (Inl (), fs_write_at fs1 f 0 (take n ?data))
      | None \<Rightarrow> if rename_fails w then (Inl (), fs_write_at fs1 f 0 ?data)
          else case fs_rename (fs_write_at fs1 f 0 ?data) ?tmp ?path of
            None \<Rightarrow> (Inl (), fs_write_at fs1 f 0 ?data) | Some fs \<Rightarrow> (Inr (), fs))"
    using False fs1 by (cases "write_fails w") (simp_all add: disk_put_def Let_def)
  have same: "fs_ok (fs_write_at fs1 f 0 bs) \<and> refused (fs_write_at fs1 f 0 bs) = refused fs \<and>
      fs_read (fs_write_at fs1 f 0 bs) (entry_path dc k) = fs_read fs (entry_path dc k)" for bs k
    using fs_write_at_facts [OF create(1,2)] create(4,5) by simp
  show ?thesis
  proof (cases "write_fails w = None \<and> \<not> rename_fails w")
    case True
    have written: "map_of (names (fs_write_at fs1 f 0 ?data)) ?tmp = Some f" "files (fs_write_at fs1 f 0 ?data) ! f = ?data"
      "fs_ok (fs_write_at fs1 f 0 ?data)" "refused (fs_write_at fs1 f 0 ?data) = refused fs"
      using fs_write_at_facts [OF create(1,2), where off = 0 and bs = ?data] create by simp_all
    obtain fs2 where fs2: "fs_rename (fs_write_at fs1 f 0 ?data) ?tmp ?path = Some fs2" "fs_ok fs2" "refused fs2 = refused fs"
       "\<not> refused fs ?path \<longrightarrow> fs_read fs2 ?path = Some ?data"
       "\<forall>p. p \<noteq> ?tmp \<and> p \<noteq> ?path \<longrightarrow> fs_read fs2 p = fs_read (fs_write_at fs1 f 0 ?data) p"
      using fs_rename_facts [OF written(3,1) entry_path_not_tmp(2) [of dc key key]] unfolding written(2,4) by (elim exE conjE)
    have "(r, fs') = (Inr (), fs2)"
      using put assms(2) True fs2(1) by simp
    then show ?thesis
      using fs2 same [of ?data k] False
      by (cases "entry_path dc k = ?path"; cases "refused fs ?path") (auto simp: put_took_effect_def fs_read_def)
  next
    case False
    then show ?thesis
      using put assms(2) same by (auto simp: put_took_effect_def split: option.splits if_splits)
  qed
qed

text \<open>
  C25: A put is all or nothing and never touches another key: whatever step of it fails, every key still reads
  what it read before; when it succeeds, its key reads back exactly the stored bytes, time and lifetime,
  and a key whose hash collides reads a miss, never these bytes.
\<close>

theorem disk_put_atomic:
  assumes "fs_ok fs" "length key < 2 ^ 32" "disk_put w dc key resp stored_at max_age fs = (r, fs')"
  shows "fs_ok fs' \<and>
     get_entry dc fs' k =
       (if put_took_effect dc max_age r \<and> entry_path dc k = entry_path dc key \<and> \<not> refused fs (entry_path dc key)
        then (if k = key
              then Some \<lparr> disk_key = key, disk_stored_at = stored_at, disk_max_age = max_age, disk_body = resp \<rparr>
              else None)
        else get_entry dc fs k)"
  using disk_put_reads [OF assms(1,3), of k] decode_encode [OF assms(2), of resp stored_at max_age]
  by (auto simp: get_entry_def put_took_effect_def)

theorem disk_put_atomic_witness:
  "\<exists>fs'. disk_put \<lparr> mkdir_fails = False, write_fails = None, rename_fails = False \<rparr> \<lparr> disk_root = [], disk_enabled = True \<rparr>
      demo_key demo_resp 1000 60 \<lparr> names = [], files = [], refused = (\<lambda>_. False) \<rparr> = (Inr (), fs') \<and>
     get_entry \<lparr> disk_root = [], disk_enabled = True \<rparr> fs' demo_key =
       Some \<lparr> disk_key = demo_key, disk_stored_at = 1000, disk_max_age = 60, disk_body = demo_resp \<rparr>"
proof -
  let ?w = "\<lparr> mkdir_fails = False, write_fails = None, rename_fails = False \<rparr>"
  let ?dc = "\<lparr> disk_root = [], disk_enabled = True \<rparr>" let ?fs = "\<lparr> names = [], files = [], refused = (\<lambda>_. False) \<rparr>"
  obtain fs' where fs': "disk_put ?w ?dc demo_key demo_resp 1000 60 ?fs = (Inr (), fs')"
    by (simp add: disk_put_def Let_def fs_create_def fs_write_at_def fs_rename_def)
  have "fs_ok ?fs" "length demo_key < 2 ^ 32"
    by (simp_all add: fs_ok_def demo_key_def)
  from disk_put_atomic [OF this fs', of demo_key] fs' show ?thesis
    by (simp add: put_took_effect_def)
qed

section \<open>Expiry\<close>

definition stale :: "u64 \<Rightarrow> disk_fs \<Rightarrow> bytes \<Rightarrow> bool" where
  "stale now fs p =
     (case fs_read fs p of
        None \<Rightarrow> False
      | Some data \<Rightarrow> (case decode data of Some e \<Rightarrow> \<not> entry_fresh e now | None \<Rightarrow> True))"

lemma fs_remove_facts:
  assumes "fs_ok fs" "fs_read fs p = Some data"
  shows "fst (fs_remove fs p) = Removed" "fs_ok (snd (fs_remove fs p))" "refused (snd (fs_remove fs p)) = refused fs"
    "fs_read (snd (fs_remove fs p)) q = (if q = p then None else fs_read fs q)"
proof -
  have rm: "fs_remove fs p = (Removed, fs\<lparr> names := AList.delete p (names fs) \<rparr>)"
    using assms(2) by (auto simp: fs_remove_def fs_read_def split: if_splits)
  then show "fst (fs_remove fs p) = Removed" "refused (snd (fs_remove fs p)) = refused fs"
      "fs_read (snd (fs_remove fs p)) q = (if q = p then None else fs_read fs q)"
    by (simp_all add: fs_read_def delete_conv')
  have lookup: "map_of (AList.delete p (names fs)) q = (if q = p then None else map_of (names fs) q)" for q
    by (simp add: delete_conv')
  show "fs_ok (snd (fs_remove fs p))"
    unfolding rm snd_conv fs_ok_def
  proof (intro conjI allI impI)
    show "distinct (map fst (names (fs\<lparr> names := AList.delete p (names fs) \<rparr>)))"
      using fs_okD(3) [OF assms(1)] by (simp add: distinct_delete)
    show "f < length (files (fs\<lparr> names := AList.delete p (names fs) \<rparr>))"
      if "map_of (names (fs\<lparr> names := AList.delete p (names fs) \<rparr>)) q = Some f" for q f
      using that fs_okD(1) [OF assms(1), of q f] by (simp add: lookup split: if_splits)
    show "q = q'" if "map_of (names (fs\<lparr> names := AList.delete p (names fs) \<rparr>)) q = Some f \<and>
        map_of (names (fs\<lparr> names := AList.delete p (names fs) \<rparr>)) q' = Some f" for q q' f
      using that fs_okD(2) [OF assms(1), of q f q'] by (simp add: lookup split: if_splits)
  qed
qed

lemma reap_paths_facts:
  assumes "fs_ok fs" "distinct ps" "reap_paths now ps fs = (n, fs')"
  shows "n = length (filter (stale now fs) ps) \<and>
     (\<forall>q. fs_read fs' q = (if q \<in> set ps \<and> stale now fs q then None else fs_read fs q))"
  using assms
proof (induction ps arbitrary: fs n)
  case (Cons p ps)
  show ?case
  proof (cases "stale now fs p")
    case False
    then have "reap_paths now ps fs = (n, fs')"
      using Cons.prems(3) by (auto simp: stale_def split: option.splits)
    then show ?thesis
      using Cons.IH [of fs n] Cons.prems(1,2) False by auto
  next
    case True
    then obtain data where data: "fs_read fs p = Some data"
      by (auto simp: stale_def split: option.splits)
    note rm = fs_remove_facts [OF Cons.prems(1) data]
    let ?fs = "snd (fs_remove fs p)"
    obtain m where m: "reap_paths now ps ?fs = (m, fs')" "n = Suc m"
      using Cons.prems(3) True rm(1) data
      by (cases "fs_remove fs p") (auto simp: stale_def split: option.splits prod.splits)
    have stale: "stale now ?fs q = (q \<noteq> p \<and> stale now fs q)" for q
      by (auto simp: stale_def rm(4))
    then have "filter (stale now ?fs) ps = filter (stale now fs) ps"
      using Cons.prems(2) by (intro filter_cong) auto
    moreover have "m = length (filter (stale now ?fs) ps)"
      "fs_read fs' q = (if q \<in> set ps \<and> stale now ?fs q then None else fs_read ?fs q)" for q
      using Cons.IH [OF rm(2) _ m(1)] Cons.prems(2) by simp_all
    ultimately show ?thesis
      using True m(2) by (simp add: stale rm(4))
  qed
qed simp

lemma fs_read_listed: "fs_read fs p = Some d \<Longrightarrow> p \<in> set (map fst (names fs))"
  by (force simp: fs_read_def split: if_splits dest: map_of_SomeD)

lemma entry_path_not_ends_tmp: "\<not> ends_with (entry_path dc k) TMP"
proof
  have "length TMP = 4"
    by (simp add: TMP_def)
  moreover assume "ends_with (entry_path dc k) TMP"
  ultimately have "drop (length (entry_path dc k) - 4) (entry_path dc k) = TMP"
    by (simp add: ends_with_def)
  then have "drop 28 (hash_hex k) = TMP"
    by (simp add: entry_path_def Let_def)
  then have "set TMP \<subseteq> set HEX"
    using hash_hex_digits [of k] set_drop_subset [of 28 "hash_hex k"] by simp
  then show False
    by (simp add: TMP_def HEX_def)
qed


lemma unat_saturating_sub: "unat (saturating_sub a b) = unat a - unat b"
  by (simp add: saturating_sub_def unat_sub word_le_nat_alt)

lemma stamp_hit_stamp: "stamp_hit resp age = stamp resp (ascii ''HIT'') (Some (unat age))"
  by (simp add: stamp_hit_def stamp_def split: option.splits)

text \<open>
  Promoting a cold entry does not prolong its life: the hot copy holds the bytes of the disk entry, the answer
  is stamped with the entry's age, and at any later moment at which the hot tier would still replay the
  copy the entry's own lifetime, counted in whole seconds since it was stored, is not over.
\<close>

theorem promotion_keeps_expiry:
  assumes "promote_on_miss dc instant fs hot key now = (Some r, fs', hot')"
  shows "\<exists>e h. get_entry dc fs key = Some e \<and> entries hot' key = Some h \<and> entry_body h = disk_body e \<and>
     r = stamp (disk_body e) (ascii ''HIT'') (Some (unat now - unat (disk_stored_at e))) \<and>
     (\<forall>d. (elapsed_secs (instant + d) (entry_stored_at h) < entry_max_age h) =
          ((unat now - unat (disk_stored_at e)) + d div 10 ^ 9 < unat (disk_max_age e)))"
proof -
  obtain e where e: "get_entry dc fs key = Some e" "entry_fresh e now" "r = stamp_hit (disk_body e) (saturating_sub now (disk_stored_at e))"
    "hot' = cache_store instant hot key (disk_body e)
       (max (unat (saturating_sub (disk_max_age e) (saturating_sub now (disk_stored_at e)))) 1)"
    using assms by (auto simp: promote_on_miss_def get_fresh_def Let_def split: option.splits if_splits)
  have "unat now - unat (disk_stored_at e) < unat (disk_max_age e)"
    using e(2) by (simp add: entry_fresh_def word_less_nat_alt unat_saturating_sub)
  then show ?thesis
    using e by (auto simp: cache_store_def store_insert_def unat_saturating_sub stamp_hit_stamp elapsed_secs_def)
qed

text \<open>A store that holds one entry, for the concrete instances below.\<close>

definition demo_disk :: disk_cache where "demo_disk = \<lparr> disk_root = [], disk_enabled = True \<rparr>"

definition demo_fs :: disk_fs where
  "demo_fs = \<lparr> names = [(entry_path demo_disk demo_key, 0)], files = [encode demo_key demo_resp 1000 60], refused = (\<lambda>_. False) \<rparr>"

lemma demo_fs_ok: "fs_ok demo_fs"
  by (simp add: fs_ok_def demo_fs_def)

lemma demo_fs_entry:
  "get_entry demo_disk demo_fs demo_key =
     Some \<lparr> disk_key = demo_key, disk_stored_at = 1000, disk_max_age = 60, disk_body = demo_resp \<rparr>"
proof -
  have "length demo_key < 2 ^ 32"
    by (simp add: demo_key_def)
  then show ?thesis
    by (simp add: get_entry_def demo_disk_def demo_fs_def fs_read_def decode_encode)
qed


theorem promotion_keeps_expiry_witness:
  "\<exists>r hot' h. promote_on_miss demo_disk 7 demo_fs cache_new demo_key 1050 = (Some r, demo_fs, hot') \<and>
     r = stamp demo_resp (ascii ''HIT'') (Some 50) \<and> entries hot' demo_key = Some h \<and> entry_body h = demo_resp"
proof -
  obtain r hot' where p: "promote_on_miss demo_disk 7 demo_fs cache_new demo_key 1050 = (Some r, demo_fs, hot')"
    by (simp add: promote_on_miss_def get_fresh_def demo_fs_entry entry_fresh_def saturating_sub_def Let_def)
  from promotion_keeps_expiry [OF p] p show ?thesis
    by (auto simp: demo_fs_entry)
qed

section \<open>Two writers of one key\<close>

text \<open>
  Two calls of \<open>put\<close> for the same key run at the same time. A writer opens the temporary file, writes its
  bytes in pieces at its own offset, and renames.
\<close>

datatype put_pc = Opening | Writing nat nat | Renamed bool

record put_sys =
  disk :: disk_fs
  writers :: "put_pc list"

inductive put_step :: "bytes \<Rightarrow> bytes list \<Rightarrow> put_sys \<Rightarrow> put_sys \<Rightarrow> bool" for path data where
  open_tmp: "i < length (writers s) \<Longrightarrow> writers s ! i = Opening \<Longrightarrow> fs_create (disk s) (path @ TMP) = (f, fs) \<Longrightarrow>
     put_step path data s \<lparr> disk = fs, writers = (writers s)[i := Writing f 0] \<rparr>"
| write_some: "i < length (writers s) \<Longrightarrow> writers s ! i = Writing f off \<Longrightarrow> off + n \<le> length (data ! i) \<Longrightarrow>
     put_step path data s
       \<lparr> disk = fs_write_at (disk s) f off (take n (drop off (data ! i))), writers = (writers s)[i := Writing f (off + n)] \<rparr>"
| rename_done: "i < length (writers s) \<Longrightarrow> writers s ! i = Writing f (length (data ! i)) \<Longrightarrow>
     fs_rename (disk s) (path @ TMP) path = Some fs \<Longrightarrow>
     put_step path data s \<lparr> disk = fs, writers = (writers s)[i := Renamed True] \<rparr>"
| rename_failed: "i < length (writers s) \<Longrightarrow> writers s ! i = Writing f (length (data ! i)) \<Longrightarrow>
     fs_rename (disk s) (path @ TMP) path = None \<Longrightarrow>
     put_step path data s \<lparr> disk = disk s, writers = (writers s)[i := Renamed False] \<rparr>"

inductive put_runs :: "bytes \<Rightarrow> bytes list \<Rightarrow> put_sys \<Rightarrow> put_sys \<Rightarrow> bool" for path data where
  put_refl: "put_runs path data s s"
| put_trans: "put_runs path data s t \<Longrightarrow> put_step path data t u \<Longrightarrow> put_runs path data s u"

text \<open>
  C28: The temporary name is the same for both, so one writer can truncate the file the other is about to
  rename: for every prefix of a response there is an interleaving after which a reader gets a well-formed
  entry of the right key whose body is just that prefix.
\<close>

theorem concurrent_put_is_torn:
  assumes "length key < 2 ^ 32" "n \<le> length resp" "max_age \<noteq> 0"
  shows "\<exists>s. put_runs (entry_path demo_disk key) [encode key resp stored_at max_age, encode key resp stored_at max_age]
               \<lparr> disk = \<lparr> names = [], files = [], refused = (\<lambda>_. False) \<rparr>, writers = [Opening, Opening] \<rparr> s \<and>
     writers s ! 0 = Renamed True \<and>
     get_entry demo_disk (disk s) key =
       Some \<lparr> disk_key = key, disk_stored_at = stored_at, disk_max_age = max_age, disk_body = take n resp \<rparr>"
proof -
  let ?path = "entry_path demo_disk key" let ?data = "encode key resp stored_at max_age" let ?len = "length ?data"
  let ?m = "28 + length key + n" let ?no = "\<lambda>_. False"
  let ?fs = "\<lambda>d. \<lparr> names = [(?path @ TMP, 0)], files = [d], refused = ?no \<rparr>"
  let ?s = "\<lambda>fs a b. \<lparr> disk = fs, writers = [a, b] \<rparr>"
  let ?run = "put_runs ?path [?data, ?data] (?s \<lparr> names = [], files = [], refused = ?no \<rparr> Opening Opening)"
  let ?step = "put_step ?path [?data, ?data]"
  let ?final = "\<lparr> names = [(?path, 0)], files = [take ?m ?data], refused = ?no \<rparr>"
  have m: "?m \<le> ?len"
    using assms(2) by (simp add: encode_def MAGIC_def)
  have "?step (?s \<lparr> names = [], files = [], refused = ?no \<rparr> Opening Opening) (?s (?fs []) (Writing 0 0) Opening)"
    using open_tmp [of 0 "?s \<lparr> names = [], files = [], refused = ?no \<rparr> Opening Opening" ?path 0 "?fs []"] by (simp add: fs_create_def)
  then have "?run (?s (?fs []) (Writing 0 0) Opening)"
    by (rule put_trans [OF put_refl])
  moreover have "?step (?s (?fs []) (Writing 0 0) Opening) (?s (?fs ?data) (Writing 0 ?len) Opening)"
    using write_some [of 0 "?s (?fs []) (Writing 0 0) Opening" 0 0 ?len "[?data, ?data]" ?path] by (simp add: fs_write_at_def)
  ultimately have "?run (?s (?fs ?data) (Writing 0 ?len) Opening)"
    by (rule put_trans)
  moreover have "?step (?s (?fs ?data) (Writing 0 ?len) Opening) (?s (?fs []) (Writing 0 ?len) (Writing 0 0))"
    using open_tmp [of 1 "?s (?fs ?data) (Writing 0 ?len) Opening" ?path 0 "?fs []"] by (simp add: fs_create_def)
  ultimately have "?run (?s (?fs []) (Writing 0 ?len) (Writing 0 0))"
    by (rule put_trans)
  moreover have "?step (?s (?fs []) (Writing 0 ?len) (Writing 0 0)) (?s (?fs (take ?m ?data)) (Writing 0 ?len) (Writing 0 ?m))"
    using write_some [of 1 "?s (?fs []) (Writing 0 ?len) (Writing 0 0)" 0 0 ?m "[?data, ?data]" ?path] m by (simp add: fs_write_at_def)
  ultimately have "?run (?s (?fs (take ?m ?data)) (Writing 0 ?len) (Writing 0 ?m))"
    by (rule put_trans)
  moreover have "?step (?s (?fs (take ?m ?data)) (Writing 0 ?len) (Writing 0 ?m)) (?s ?final (Renamed True) (Writing 0 ?m))"
    using rename_done [of 0 "?s (?fs (take ?m ?data)) (Writing 0 ?len) (Writing 0 ?m)" 0 "[?data, ?data]" ?path ?final]
    by (simp add: fs_rename_def)
  ultimately have "?run (?s ?final (Renamed True) (Writing 0 ?m))"
    by (rule put_trans)
  moreover have "get_entry demo_disk ?final key =
      Some \<lparr> disk_key = key, disk_stored_at = stored_at, disk_max_age = max_age, disk_body = take n resp \<rparr>"
    using decode_prefix [OF assms(1), of ?m resp stored_at max_age] by (simp add: get_entry_def demo_disk_def fs_read_def)
  ultimately show ?thesis
    by (intro exI [of _ "?s ?final (Renamed True) (Writing 0 ?m)"]) simp
qed

theorem concurrent_put_is_torn_witness:
  "\<exists>s. put_runs (entry_path demo_disk demo_key) [encode demo_key demo_resp 1000 60, encode demo_key demo_resp 1000 60]
          \<lparr> disk = \<lparr> names = [], files = [], refused = (\<lambda>_. False) \<rparr>, writers = [Opening, Opening] \<rparr> s \<and>
     get_entry demo_disk (disk s) demo_key =
       Some \<lparr> disk_key = demo_key, disk_stored_at = 1000, disk_max_age = 60, disk_body = take 8 demo_resp \<rparr>"
proof -
  have "length demo_key < 2 ^ 32" "8 \<le> length demo_resp"
    by (simp_all add: demo_key_def demo_resp_def)
  from concurrent_put_is_torn [OF this, of 60 1000] show ?thesis
    by auto
qed

end
