(* ===== verification/Interp.thy ===== *)
theory Interp
  imports Cache_Disk Fleet
begin

text \<open>
  The effect interpreter of \<^verbatim>\<open>interp.rs\<close> and the proxy lane of \<^verbatim>\<open>proxy_hook.rs\<close>. The compiled Lean core runs a
  request until it needs an effect and yields it; the host performs the effect, appends the result to a
  growing list and replays the core with the list. The core behind \<open>call_seam\<close>, the name resolver and the
  buffered forward are parameters; the two cache tiers and the fleet are the models of their theories.
\<close>

section \<open>Choosing the seam\<close>

definition TAG_DONE :: byte where "TAG_DONE = 0"
definition TAG_YIELD_PROXY :: byte where "TAG_YIELD_PROXY = 1"
definition TAG_YIELD_CACHE_LOOKUP :: byte where "TAG_YIELD_CACHE_LOOKUP = 2"
definition TAG_YIELD_CACHE_STORE :: byte where "TAG_YIELD_CACHE_STORE = 3"

definition is_cacheable_shape :: "bytes \<Rightarrow> bool" where
  "is_cacheable_shape req =
     (case find_sub req CRLF of
        None \<Rightarrow> False
      | Some e \<Rightarrow>
          (case split_sp (take e req) of
             meth # target # _ \<Rightarrow>
               meth = ascii ''GET'' \<and> (starts_with target (ascii ''/static'') \<or> starts_with target (ascii ''/admin''))
           | _ \<Rightarrow> False))"

definition should_handle :: "bool \<Rightarrow> bytes \<Rightarrow> bool" where
  "should_handle has_fleet req \<longleftrightarrow> is_proxy_path req \<and> has_fleet \<or> is_cacheable_shape req"

text \<open>The value of \<open>DRORB_LB_POLICY\<close>, when it is set to valid Unicode.\<close>

definition lb_selector :: "bytes option \<Rightarrow> byte" where
  "lb_selector var =
     (if var \<in> Some ` set (map ascii [''leastConn'', ''least_conn'', ''leastconn'', ''1'']) then 1 else 0)"

definition lb_policy_byte :: "bytes option \<Rightarrow> byte" where
  "lb_policy_byte var =
     (if var \<in> Some ` set (map ascii [''roundRobin'', ''round_robin'', ''rr'', ''wrr'', ''0'']) then 0
      else if var \<in> Some ` set (map ascii [''leastConn'', ''least_conn'', ''leastconn'', ''1'']) then 1
      else if var \<in> Some ` set (map ascii [''wLeastConn'', ''weighted_least_conn'', ''wleastconn'', ''2'']) then 2
      else 3)"

definition current_mask :: "'addr fleet option \<Rightarrow> byte" where
  "current_mask f = (case f of Some f \<Rightarrow> fleet_mask f | None \<Rightarrow> 0)"

datatype seam = ServeStep | ServeResume | ServeStepCfg | ServeResumeCfg | ServeStepPol | ServeResumePol | LbPick

text \<open>\<open>policy\<close> is the load-balancing byte of the operator's configuration, when there is one.\<close>

definition seams :: "byte option \<Rightarrow> bytes option \<Rightarrow> seam \<times> seam \<times> byte option" where
  "seams policy var =
     (case policy of
        Some p \<Rightarrow> (ServeStepPol, ServeResumePol, Some p)
      | None \<Rightarrow>
          let sel = lb_selector var in
          if sel = 0 then (ServeStep, ServeResume, None) else (ServeStepCfg, ServeResumeCfg, Some sel))"

section \<open>Framing\<close>

definition opt_byte :: "byte option \<Rightarrow> bytes" where
  "opt_byte p = (case p of Some b \<Rightarrow> [b] | None \<Rightarrow> [])"

definition frame_step :: "byte option \<Rightarrow> byte \<Rightarrow> bytes \<Rightarrow> bytes" where
  "frame_step prefix msk req = opt_byte prefix @ [msk] @ req"

definition len32 :: "bytes \<Rightarrow> bytes" where
  "len32 bs = to_be_bytes (of_nat (length bs) :: u32)"

definition frame_resume :: "byte option \<Rightarrow> byte \<Rightarrow> bytes \<Rightarrow> bytes list \<Rightarrow> bytes" where
  "frame_resume prefix msk req results =
     opt_byte prefix @ [msk] @ len32 req @ req @ [of_nat (length results)] @ concat (map (\<lambda>r. len32 r @ r) results)"

section \<open>The loop\<close>

text \<open>What the interpreter reads off an output of the core.\<close>

datatype step_out = SDone bytes | SProxy u32 bytes | SLookup bytes | SStore nat bytes bytes | SOther

definition parse_step :: "bytes \<Rightarrow> step_out" where
  "parse_step cur =
     (case cur of
        [] \<Rightarrow> SOther
      | tag # rest \<Rightarrow>
          if tag = TAG_DONE then SDone rest
          else if tag = TAG_YIELD_PROXY \<and> rest \<noteq> [] then SProxy (ucast (hd rest)) (tl rest)
          else if tag = TAG_YIELD_CACHE_LOOKUP then SLookup rest
          else if tag = TAG_YIELD_CACHE_STORE \<and> 8 \<le> length rest then
            let lifetime = unat (from_be_bytes (take 4 rest) :: u32);
                key_len = unat (from_be_bytes (take 4 (drop 4 rest)) :: u32) in
            if length rest < 8 + key_len then SOther
            else SStore lifetime (take key_len (drop 8 rest)) (drop (8 + key_len) rest)
          else SOther)"

record 'addr shell =
  hot :: response_cache
  cold :: disk_fs
  lane :: "'addr fleet option"

text \<open>
  The surroundings of one request: the clocks at its \<open>n\<close>-th effect, what becomes of the hot tier while a
  coalesced lookup waits, the disk tier with its write faults, the resolver and the forward.
\<close>

record 'addr env =
  instant_at :: "nat \<Rightarrow> nat"
  secs_at :: "nat \<Rightarrow> u64"
  waited :: "response_cache \<Rightarrow> nat \<times> response_cache"
  tier :: disk_cache
  tier_faults :: put_faults
  resolver :: "bytes \<Rightarrow> 'addr option"
  buffered_forward :: "'addr \<Rightarrow> bytes \<Rightarrow> bytes option"

definition dial_effect :: "'addr env \<Rightarrow> u32 \<Rightarrow> bytes \<Rightarrow> 'addr fleet \<Rightarrow> (bytes \<times> 'addr fleet) outcome" where
  "dial_effect env backend req f =
     (case fleet_addr (resolver env) f backend of
        (None, f) \<Rightarrow> Return (bad_gateway, f)
      | (Some addr, f) \<Rightarrow>
          (case buffered_forward env addr req of
             Some resp \<Rightarrow> bind_outcome (record_success f backend) (\<lambda>f. Return (resp, f))
           | None \<Rightarrow> bind_outcome (record_failure f backend) (\<lambda>f. Return (bad_gateway, f))))"

definition lookup_effect :: "'addr env \<Rightarrow> nat \<Rightarrow> bytes \<Rightarrow> 'addr shell \<Rightarrow> bytes \<times> 'addr shell" where
  "lookup_effect env n key sh =
     (case lookup_coalescing (instant_at env n) (hot sh) key (waited env) of
        (Some hit, h) \<Rightarrow> (hit, sh\<lparr> hot := h \<rparr>)
      | (None, h) \<Rightarrow>
          if disk_enabled (tier env) then
            (case promote_on_miss (tier env) (instant_at env n) (cold sh) h key (secs_at env n) of
               (Some hit, fs, h) \<Rightarrow> (hit, sh\<lparr> hot := h, cold := fs \<rparr>)
             | (None, fs, h) \<Rightarrow> ([], sh\<lparr> hot := h, cold := fs \<rparr>))
          else ([], sh\<lparr> hot := h \<rparr>))"

definition store_effect :: "'addr env \<Rightarrow> nat \<Rightarrow> nat \<Rightarrow> bytes \<Rightarrow> bytes \<Rightarrow> 'addr shell \<Rightarrow> 'addr shell" where
  "store_effect env n lifetime key resp sh =
     (let h = cache_store (instant_at env n) (hot sh) key resp lifetime;
          fs = (if disk_enabled (tier env) \<and> lifetime \<noteq> 0
                then snd (disk_put (tier_faults env) (tier env) key resp (secs_at env n) (of_nat lifetime) (cold sh))
                else cold sh)
      in sh\<lparr> hot := h, cold := fs \<rparr>)"

text \<open>One effect: \<open>None\<close> when the request falls through to the ordinary serve.\<close>

definition perform :: "'addr env \<Rightarrow> nat \<Rightarrow> step_out \<Rightarrow> 'addr shell \<Rightarrow> (bytes option \<times> 'addr shell) outcome" where
  "perform env n out sh =
     (case out of
        SProxy backend req \<Rightarrow>
          (case lane sh of
             None \<Rightarrow> Return (None, sh)
           | Some f \<Rightarrow> bind_outcome (dial_effect env backend req f) (\<lambda>(r, f). Return (Some r, sh\<lparr> lane := Some f \<rparr>)))
      | SLookup key \<Rightarrow> (let (r, sh) = lookup_effect env n key sh in Return (Some r, sh))
      | SStore lifetime key resp \<Rightarrow> Return (Some [], store_effect env n lifetime key resp sh)
      | _ \<Rightarrow> Return (None, sh))"

text \<open>The loop may go on for as long as the core yields: \<open>None\<close> is a loop that does not end.\<close>

partial_function (option) effect_loop ::
  "'addr env \<Rightarrow> (bytes \<Rightarrow> bytes option) \<Rightarrow> (bytes list \<Rightarrow> bytes) \<Rightarrow> bytes \<Rightarrow> bytes list \<Rightarrow> 'addr shell
     \<Rightarrow> (bytes option \<times> 'addr shell) outcome option" where
  "effect_loop env resume frame cur results sh =
     (case parse_step cur of
        SDone r \<Rightarrow> Some (Return (Some r, sh))
      | out \<Rightarrow>
          (case perform env (length results) out sh of
             Panic \<Rightarrow> Some Panic
           | Return (None, sh) \<Rightarrow> Some (Return (None, sh))
           | Return (Some r, sh) \<Rightarrow>
               (case resume (frame (results @ [r])) of
                  None \<Rightarrow> Some (Return (None, sh))
                | Some cur \<Rightarrow> effect_loop env resume frame cur (results @ [r]) sh)))"

definition run_effect_serve ::
  "'addr env \<Rightarrow> (seam \<Rightarrow> bytes \<Rightarrow> bytes option) \<Rightarrow> byte option \<Rightarrow> bytes option \<Rightarrow> bytes \<Rightarrow> 'addr shell
     \<Rightarrow> (bytes option \<times> 'addr shell) outcome option" where
  "run_effect_serve env call_seam policy var req sh =
     (let msk = current_mask (lane sh); (step_seam, resume_seam, prefix) = seams policy var in
      case call_seam step_seam (frame_step prefix msk req) of
        None \<Rightarrow> Some (Return (None, sh))
      | Some cur \<Rightarrow> effect_loop env (call_seam resume_seam) (frame_resume prefix msk req) cur [] sh)"

section \<open>The proxy lane\<close>

definition pick_lb_via_seam ::
  "(seam \<Rightarrow> bytes \<Rightarrow> bytes option) \<Rightarrow> byte \<Rightarrow> byte \<Rightarrow> byte \<Rightarrow> bytes \<Rightarrow> bytes \<Rightarrow> u32 option" where
  "pick_lb_via_seam call_seam pol rnd msk conns key =
     (case call_seam LbPick ([pol, rnd, msk, of_nat (length conns)] @ conns @ key) of
        None \<Rightarrow> None
      | Some out \<Rightarrow>
          if out = [] \<or> \<not> utf8_valid out then None
          else map_option of_nat (parse_uint 32 (str_trim out)))"

definition handle_proxy_streaming ::
  "(seam \<Rightarrow> bytes \<Rightarrow> bytes option) \<Rightarrow> (bytes \<Rightarrow> 'addr option) \<Rightarrow> ('addr \<Rightarrow> bytes)
     \<Rightarrow> ('addr \<Rightarrow> bytes \<Rightarrow> nat \<Rightarrow> client \<Rightarrow> (io_kind + streamed) \<times> client) \<Rightarrow> bytes option \<Rightarrow> bytes \<Rightarrow> 'addr fleet option
     \<Rightarrow> client \<Rightarrow> ((io_kind + stream_outcome) \<times> client \<times> 'addr fleet) outcome option" where
  "handle_proxy_streaming call_seam resolve_target addr_str forward_via var req f c =
     (case f of
        None \<Rightarrow> None
      | Some f \<Rightarrow>
          let (rnd, f) = next_round f; conns = conns_bytes f in
          Some (handle_streaming_via resolve_target addr_str
            (\<lambda>msk key. pick_lb_via_seam call_seam (lb_policy_byte var) rnd msk conns key) forward_via req f c))"

definition takes_over_connection :: "bool \<Rightarrow> bool \<Rightarrow> (bytes \<Rightarrow> bool) \<Rightarrow> bytes \<Rightarrow> bool" where
  "takes_over_connection has_fleet effect_seam vhost_proxy req \<longleftrightarrow>
     has_fleet \<and> (\<not> effect_seam \<and> is_proxy_path req \<or> vhost_proxy req)"

section \<open>What the core promises\<close>

text \<open>
  The resumable serve as its interface describes it: a tree of effects whose branches are the
  continuations. It crosses the seam as tagged bytes, and \<open>resume\<close> runs it again over recorded results.
\<close>

datatype step_tree =
  TDone bytes
| TProxy byte bytes "bytes \<Rightarrow> step_tree"
| TLookup bytes "bytes \<Rightarrow> step_tree"
| TStore u32 bytes bytes "bytes \<Rightarrow> step_tree"

primrec encode_step :: "step_tree \<Rightarrow> bytes" where
  "encode_step (TDone r) = TAG_DONE # r"
| "encode_step (TProxy b req k) = [TAG_YIELD_PROXY, b] @ req"
| "encode_step (TLookup key k) = TAG_YIELD_CACHE_LOOKUP # key"
| "encode_step (TStore life key resp k) = [TAG_YIELD_CACHE_STORE] @ to_be_bytes life @ len32 key @ key @ resp"

declare encode_step.simps [simp del]

fun replay :: "step_tree \<Rightarrow> bytes list \<Rightarrow> step_tree" where
  "replay (TProxy b req k) (r # rs) = replay (k r) rs"
| "replay (TLookup key k) (r # rs) = replay (k r) rs"
| "replay (TStore life key resp k) (r # rs) = replay (k r) rs"
| "replay t rs = t"

definition serves :: "(seam \<Rightarrow> bytes \<Rightarrow> bytes option) \<Rightarrow> seam \<times> seam \<times> byte option \<Rightarrow> byte \<Rightarrow> bytes \<Rightarrow> step_tree \<Rightarrow> bool" where
  "serves call_seam sel msk req t =
     (case sel of (step_seam, resume_seam, prefix) \<Rightarrow>
        call_seam step_seam (frame_step prefix msk req) = Some (encode_step t) \<and>
        (\<forall>rs. length rs < 256 \<and> (\<forall>r \<in> set rs. length r < 2 ^ 32) \<longrightarrow>
           call_seam resume_seam (frame_resume prefix msk req rs) = Some (encode_step (replay t rs))))"

text \<open>The tree run directly, with no bytes in between.\<close>

primrec run_tree :: "'addr env \<Rightarrow> step_tree \<Rightarrow> nat \<Rightarrow> 'addr shell \<Rightarrow> (bytes option \<times> 'addr shell) outcome" where
  "run_tree env (TDone r) n sh = Return (Some r, sh)"
| "run_tree env (TProxy b req k) n sh =
     bind_outcome (perform env n (SProxy (ucast b) req) sh)
       (\<lambda>(r, sh). case r of None \<Rightarrow> Return (None, sh) | Some r \<Rightarrow> run_tree env (k r) (Suc n) sh)"
| "run_tree env (TLookup key k) n sh =
     bind_outcome (perform env n (SLookup key) sh)
       (\<lambda>(r, sh). case r of None \<Rightarrow> Return (None, sh) | Some r \<Rightarrow> run_tree env (k r) (Suc n) sh)"
| "run_tree env (TStore life key resp k) n sh =
     bind_outcome (perform env n (SStore (unat life) key resp) sh)
       (\<lambda>(r, sh). case r of None \<Rightarrow> Return (None, sh) | Some r \<Rightarrow> run_tree env (k r) (Suc n) sh)"

text \<open>
  The run fits the frames: fewer than 256 effects, results and stored keys below 4 GiB.
\<close>

primrec fits :: "'addr env \<Rightarrow> step_tree \<Rightarrow> nat \<Rightarrow> 'addr shell \<Rightarrow> bool" where
  "fits env (TDone r) n sh \<longleftrightarrow> True"
| "fits env (TProxy b req k) n sh \<longleftrightarrow> n < 255 \<and>
     (\<forall>r sh'. perform env n (SProxy (ucast b) req) sh = Return (Some r, sh') \<longrightarrow> length r < 2 ^ 32 \<and> fits env (k r) (Suc n) sh')"
| "fits env (TLookup key k) n sh \<longleftrightarrow> n < 255 \<and>
     (\<forall>r sh'. perform env n (SLookup key) sh = Return (Some r, sh') \<longrightarrow> length r < 2 ^ 32 \<and> fits env (k r) (Suc n) sh')"
| "fits env (TStore life key resp k) n sh \<longleftrightarrow> n < 255 \<and> length key < 2 ^ 32 \<and>
     (\<forall>r sh'. perform env n (SStore (unat life) key resp) sh = Return (Some r, sh') \<longrightarrow>
        length r < 2 ^ 32 \<and> fits env (k r) (Suc n) sh')"

lemma length_len32 [simp]: "length (len32 bs) = 4"
  by (simp add: len32_def)

lemma from_len32: "length bs < 2 ^ 32 \<Longrightarrow> unat (from_be_bytes (len32 bs) :: u32) = length bs"
  by (simp add: len32_def unat_of_nat)

lemma parse_encode_step [simp]:
  "parse_step (encode_step (TDone r)) = SDone r"
  "parse_step (encode_step (TProxy b req k)) = SProxy (ucast b) req"
  "parse_step (encode_step (TLookup key k)) = SLookup key"
  by (simp_all add: encode_step.simps parse_step_def TAG_DONE_def TAG_YIELD_PROXY_def TAG_YIELD_CACHE_LOOKUP_def)

lemma parse_encode_store [simp]:
  assumes "length key < 2 ^ 32"
  shows "parse_step (encode_step (TStore life key resp k)) = SStore (unat life) key resp"
  using from_len32 [OF assms]
  by (simp add: encode_step.simps parse_step_def TAG_DONE_def TAG_YIELD_PROXY_def TAG_YIELD_CACHE_LOOKUP_def TAG_YIELD_CACHE_STORE_def Let_def)

lemma replay_snoc: "replay t (rs @ [r]) = replay (replay t rs) [r]"
proof (induction rs arbitrary: t)
  case (Cons r' rs)
  then show ?case by (cases t) simp_all
qed (cases t; simp)

text \<open>One round of the loop on a yielded effect.\<close>

lemma effect_loop_yield:
  assumes "\<And>r. parse_step cur \<noteq> SDone r"
    and "\<And>r. length (results @ [r]) < 256 \<Longrightarrow> length r < 2 ^ 32 \<Longrightarrow> resume (frame (results @ [r])) = Some (next_cur r)"
    and "length results < 255"
    and "\<And>r sh'. perform env (length results) (parse_step cur) sh = Return (Some r, sh') \<Longrightarrow>
           length r < 2 ^ 32 \<and> effect_loop env resume frame (next_cur r) (results @ [r]) sh' = Some (run r sh')"
  shows "effect_loop env resume frame cur results sh =
     Some (bind_outcome (perform env (length results) (parse_step cur) sh)
       (\<lambda>(r, sh). case r of None \<Rightarrow> Return (None, sh) | Some r \<Rightarrow> run r sh))"
proof -
  have loop: "effect_loop env resume frame cur results sh =
      (case perform env (length results) (parse_step cur) sh of
         Panic \<Rightarrow> Some Panic
       | Return (None, sh) \<Rightarrow> Some (Return (None, sh))
       | Return (Some r, sh) \<Rightarrow>
           (case resume (frame (results @ [r])) of
              None \<Rightarrow> Some (Return (None, sh))
            | Some cur \<Rightarrow> effect_loop env resume frame cur (results @ [r]) sh))"
    using assms(1) by (subst effect_loop.simps) (cases "parse_step cur"; simp; blast)
  show ?thesis
  proof (cases "perform env (length results) (parse_step cur) sh")
    case Panic
    then show ?thesis
      by (simp add: loop)
  next
    case (Return x)
    obtain r sh' where x: "x = (r, sh')"
      by (cases x)
    show ?thesis
    proof (cases r)
      case None
      then show ?thesis
        using Return x by (simp add: loop)
    next
      case (Some r')
      have "effect_loop env resume frame (next_cur r') (results @ [r']) sh' = Some (run r' sh')" "length r' < 2 ^ 32"
        using assms(4) [of r' sh'] Return x Some by simp_all
      then show ?thesis
        using Return x Some assms(2) [of r'] assms(3) by (simp add: loop)
    qed
  qed
qed

lemma effect_loop_runs:
  assumes "\<And>rs. length rs < 256 \<Longrightarrow> \<forall>r \<in> set rs. length r < 2 ^ 32 \<Longrightarrow> resume (frame rs) = Some (encode_step (replay t0 rs))"
  shows "fits env t (length results) sh \<Longrightarrow> replay t0 results = t \<Longrightarrow> \<forall>r \<in> set results. length r < 2 ^ 32 \<Longrightarrow>
     effect_loop env resume frame (encode_step t) results sh = Some (run_tree env t (length results) sh)"
proof (induction t arbitrary: results sh)
  case (TDone r)
  show ?case
    by (subst effect_loop.simps) simp
next
  case (TProxy b req k)
  have "resume (frame (results @ [r])) = Some (encode_step (k r))" if "length (results @ [r]) < 256" "length r < 2 ^ 32" for r
    using assms [of "results @ [r]"] that TProxy.prems by (simp add: replay_snoc)
  then have "effect_loop env resume frame (encode_step (TProxy b req k)) results sh =
     Some (bind_outcome (perform env (length results) (parse_step (encode_step (TProxy b req k))) sh)
       (\<lambda>(r, sh). case r of None \<Rightarrow> Return (None, sh) | Some r \<Rightarrow> run_tree env (k r) (Suc (length results)) sh))"
    using TProxy.prems TProxy.IH [of _ "results @ [_]"]
    by (intro effect_loop_yield [where next_cur = "\<lambda>r. encode_step (k r)"]) (auto simp: replay_snoc)
  then show ?case
    by simp
next
  case (TLookup key k)
  have "resume (frame (results @ [r])) = Some (encode_step (k r))" if "length (results @ [r]) < 256" "length r < 2 ^ 32" for r
    using assms [of "results @ [r]"] that TLookup.prems by (simp add: replay_snoc)
  then have "effect_loop env resume frame (encode_step (TLookup key k)) results sh =
     Some (bind_outcome (perform env (length results) (parse_step (encode_step (TLookup key k))) sh)
       (\<lambda>(r, sh). case r of None \<Rightarrow> Return (None, sh) | Some r \<Rightarrow> run_tree env (k r) (Suc (length results)) sh))"
    using TLookup.prems TLookup.IH [of _ "results @ [_]"]
    by (intro effect_loop_yield [where next_cur = "\<lambda>r. encode_step (k r)"]) (auto simp: replay_snoc)
  then show ?case
    by simp
next
  case (TStore life key resp k)
  then have key: "length key < 2 ^ 32"
    by simp
  have "resume (frame (results @ [r])) = Some (encode_step (k r))" if "length (results @ [r]) < 256" "length r < 2 ^ 32" for r
    using assms [of "results @ [r]"] that TStore.prems by (simp add: replay_snoc)
  then have "effect_loop env resume frame (encode_step (TStore life key resp k)) results sh =
     Some (bind_outcome (perform env (length results) (parse_step (encode_step (TStore life key resp k))) sh)
       (\<lambda>(r, sh). case r of None \<Rightarrow> Return (None, sh) | Some r \<Rightarrow> run_tree env (k r) (Suc (length results)) sh))"
    using TStore.prems TStore.IH [of _ "results @ [_]"] key
    by (intro effect_loop_yield [where next_cur = "\<lambda>r. encode_step (k r)"]) (auto simp: replay_snoc)
  then show ?case
    using key by simp
qed

lemma effect_serve_loop:
  assumes "serves call_seam (seams policy var) (current_mask (lane sh)) req t" "fits env t 0 sh"
  shows "run_effect_serve env call_seam policy var req sh = Some (run_tree env t 0 sh)"
proof -
  obtain step_seam resume_seam prefix where sel: "seams policy var = (step_seam, resume_seam, prefix)"
    by (cases "seams policy var")
  have "call_seam resume_seam (frame_resume prefix (current_mask (lane sh)) req rs) = Some (encode_step (replay t rs))"
    if "length rs < 256" "\<forall>r \<in> set rs. length r < 2 ^ 32" for rs
    using assms(1) that by (simp add: serves_def sel)
  then have "effect_loop env (call_seam resume_seam) (frame_resume prefix (current_mask (lane sh)) req) (encode_step t) [] sh =
      Some (run_tree env t 0 sh)"
    using effect_loop_runs [of "call_seam resume_seam" _ t env t "[]" sh] assms(2) by (cases t) simp_all
  then show ?thesis
    using assms(1) by (simp add: run_effect_serve_def serves_def sel)
qed


section \<open>A core that serves a tree\<close>

text \<open>The results of a resume frame, read back.\<close>

primrec unframe :: "nat \<Rightarrow> bytes \<Rightarrow> bytes list" where
  "unframe 0 bs = []"
| "unframe (Suc n) bs =
     (let l = unat (from_be_bytes (take 4 bs) :: u32) in take l (drop 4 bs) # unframe n (drop (4 + l) bs))"

lemma unframe_frames:
  "\<forall>r \<in> set rs. length r < 2 ^ 32 \<Longrightarrow> unframe (length rs) (concat (map (\<lambda>r. len32 r @ r) rs)) = rs"
proof (induction rs)
  case (Cons r rs)
  have "unat (from_be_bytes (len32 r) :: u32) = length r"
    using Cons.prems by (intro from_len32) simp
  then show ?case
    using Cons by (simp add: Let_def)
qed simp

definition tree_core :: "byte option \<Rightarrow> bytes \<Rightarrow> step_tree \<Rightarrow> seam \<Rightarrow> bytes \<Rightarrow> bytes option" where
  "tree_core prefix req t s inp =
     (if s \<in> {ServeStep, ServeStepCfg, ServeStepPol} then Some (encode_step t)
      else case drop (length (opt_byte prefix) + 5 + length req) inp of
             [] \<Rightarrow> None
           | n # rest \<Rightarrow> Some (encode_step (replay t (unframe (unat n) rest))))"

lemma drop_exact: "length xs = n \<Longrightarrow> drop n (xs @ ys) = ys"
  by simp

lemma tree_core_serves: "serves (tree_core (snd (snd (seams policy var))) req t) (seams policy var) msk req t"
proof -
  obtain a b prefix where sel: "seams policy var = (a, b, prefix)"
    by (cases "seams policy var")
  then have ab: "a \<in> {ServeStep, ServeStepCfg, ServeStepPol}" "b \<notin> {ServeStep, ServeStepCfg, ServeStepPol}"
    by (auto simp: seams_def Let_def split: option.splits if_splits)
  have "tree_core prefix req t b (frame_resume prefix msk req rs) = Some (encode_step (replay t rs))"
    if "length rs < 256" "\<forall>r \<in> set rs. length r < 2 ^ 32" for rs
  proof -
    have "unat (of_nat (length rs) :: byte) = length rs"
      using that(1) by (simp add: unat_of_nat)
    moreover have "drop (length (opt_byte prefix) + 5 + length req) (frame_resume prefix msk req rs) =
        of_nat (length rs) # concat (map (\<lambda>r. len32 r @ r) rs)"
    proof -
      let ?hd = "opt_byte prefix @ [msk] @ len32 req @ req"
      have "length ?hd = length (opt_byte prefix) + 5 + length req"
        "frame_resume prefix msk req rs = ?hd @ (of_nat (length rs) # concat (map (\<lambda>r. len32 r @ r) rs))"
        by (simp_all add: frame_resume_def)
      then show ?thesis
        by (simp only: drop_exact)
    qed
    ultimately show ?thesis
      using ab(2) unframe_frames [OF that(2)] by (simp add: tree_core_def)
  qed
  then show ?thesis
    using ab(1) by (simp add: serves_def sel tree_core_def)
qed

text \<open>The tree of a cacheable route, as the interface describes it: a lookup, and on a miss the handler's response and a store.\<close>

definition cached_route :: "bytes \<Rightarrow> u32 \<Rightarrow> bytes \<Rightarrow> step_tree" where
  "cached_route key life resp =
     TLookup key (\<lambda>hit. if hit = [] then TStore life key resp (\<lambda>_. TDone resp) else TDone hit)"

definition quiet_env :: "nat \<Rightarrow> 'addr env" where
  "quiet_env t = \<lparr> instant_at = (\<lambda>_. t), secs_at = (\<lambda>_. 0), waited = (\<lambda>c. (t, c)),
     tier = \<lparr> disk_root = [], disk_enabled = False \<rparr>,
     tier_faults = \<lparr> mkdir_fails = False, write_fails = None, rename_fails = False \<rparr>,
     resolver = (\<lambda>_. None), buffered_forward = (\<lambda>_ _. None) \<rparr>"

definition empty_shell :: "unit shell" where
  "empty_shell = \<lparr> hot = cache_new, cold = \<lparr> names = [], files = [], refused = (\<lambda>_. False) \<rparr>, lane = None \<rparr>"

lemma stamp_longer: "length resp \<le> length (stamp resp x age)"
  by (auto simp: stamp_def split: option.splits)

text \<open>A miss of a cacheable route with the disk tier off, and a later lookup of the same key.\<close>

lemma cached_route_miss:
  assumes "\<not> disk_enabled (tier env)" "entries (hot sh) key = None" "Cache.inflight (hot sh) key = None"
    "length key < 2 ^ 32" "life \<noteq> 0"
  shows "fits env (cached_route key life resp) 0 sh"
    "\<exists>sh'. run_tree env (cached_route key life resp) 0 sh = Return (Some resp, sh') \<and> lane sh' = lane sh \<and> cold sh' = cold sh \<and>
       entries (hot sh') key = Some \<lparr> entry_body = resp, entry_stored_at = instant_at env 1, entry_max_age = unat life \<rparr> \<and>
       Cache.inflight (hot sh') key = None"
proof -
  have "unat life \<noteq> 0"
    using assms(5) by (simp add: unat_eq_0)
  then show "fits env (cached_route key life resp) 0 sh"
    "\<exists>sh'. run_tree env (cached_route key life resp) 0 sh = Return (Some resp, sh') \<and> lane sh' = lane sh \<and> cold sh' = cold sh \<and>
       entries (hot sh') key = Some \<lparr> entry_body = resp, entry_stored_at = instant_at env 1, entry_max_age = unat life \<rparr> \<and>
       Cache.inflight (hot sh') key = None"
    using assms
    by (auto simp: cached_route_def perform_def lookup_effect_def lookup_coalescing_def try_hit_def elect_def
          store_effect_def cache_store_def store_insert_def publish_fetch_def Let_def)
qed

lemma cached_route_hit:
  assumes "entries (hot sh) key = Some e" "elapsed_secs (instant_at env 0) (entry_stored_at e) < entry_max_age e" "entry_body e \<noteq> []"
    "length (stamp (entry_body e) (ascii ''HIT'') (Some (elapsed_secs (instant_at env 0) (entry_stored_at e)))) < 2 ^ 32"
  shows "fits env (cached_route key life resp) 0 sh"
    "run_tree env (cached_route key life resp) 0 sh =
       Return (Some (stamp (entry_body e) (ascii ''HIT'') (Some (elapsed_secs (instant_at env 0) (entry_stored_at e)))), sh)"
proof -
  let ?r = "stamp (entry_body e) (ascii ''HIT'') (Some (elapsed_secs (instant_at env 0) (entry_stored_at e)))"
  have "?r \<noteq> []"
    using stamp_longer [of "entry_body e"] assms(3) by (metis le_zero_eq length_0_conv)
  moreover have "lookup_effect env 0 key sh = (?r, sh)"
    using assms(1,2) by (simp add: lookup_effect_def lookup_coalescing_def try_hit_def Let_def)
  ultimately show "fits env (cached_route key life resp) 0 sh" "run_tree env (cached_route key life resp) 0 sh = Return (Some ?r, sh)"
    using assms(4) by (simp_all add: cached_route_def perform_def)
qed

text \<open>
  A cacheable route served twice through the interpreter runs its handler once: the first request, which
  finds no entry, is answered with the handler's response; a second request within the lifetime gets the same
  bytes stamped with their age, even when the core would now produce another response.
\<close>

theorem effect_cache_replays:
  assumes "serves call_seam (seams policy var) (current_mask (lane sh)) req (cached_route key life resp)"
    "serves call_seam' (seams policy var) (current_mask (lane sh)) req (cached_route key life' resp')"
    "\<not> disk_enabled (tier env)" "entries (hot sh) key = None" "Cache.inflight (hot sh) key = None"
    "length key < 2 ^ 32" "life \<noteq> 0" "resp \<noteq> []" "age = elapsed_secs (instant_at env' 0) (instant_at env 1)"
    "age < unat life" "length (stamp resp (ascii ''HIT'') (Some age)) < 2 ^ 32"
  shows "\<exists>sh'. run_effect_serve env call_seam policy var req sh = Some (Return (Some resp, sh')) \<and>
           run_effect_serve env' call_seam' policy var req sh' = Some (Return (Some (stamp resp (ascii ''HIT'') (Some age)), sh'))"
proof -
  note miss = cached_route_miss [OF assms(3-7), of resp]
  obtain sh' where sh': "run_tree env (cached_route key life resp) 0 sh = Return (Some resp, sh')" "lane sh' = lane sh"
      "entries (hot sh') key = Some \<lparr> entry_body = resp, entry_stored_at = instant_at env 1, entry_max_age = unat life \<rparr>"
    using miss(2) by (elim exE conjE)
  have hit: "fits env' (cached_route key life' resp') 0 sh'"
      "run_tree env' (cached_route key life' resp') 0 sh' = Return (Some (stamp resp (ascii ''HIT'') (Some age)), sh')"
    using cached_route_hit [OF sh'(3), of env' life' resp'] assms(8-11) by simp_all
  have "run_effect_serve env call_seam policy var req sh = Some (Return (Some resp, sh'))"
    using effect_serve_loop [OF assms(1) miss(1)] sh'(1) by simp
  moreover have "run_effect_serve env' call_seam' policy var req sh' = Some (Return (Some (stamp resp (ascii ''HIT'') (Some age)), sh'))"
    using effect_serve_loop [OF _ hit(1)] assms(2) hit(2) sh'(2) by simp
  ultimately show ?thesis
    by (intro exI [of _ sh'] conjI)
qed

lemma empty_shell_simps [simp]:
  "entries (hot empty_shell) key = None" "Cache.inflight (hot empty_shell) key = None" "lane empty_shell = None"
  by (simp_all add: empty_shell_def cache_new_def)

lemma quiet_env_simps [simp]: "\<not> disk_enabled (tier (quiet_env t))" "instant_at (quiet_env t) n = t"
  by (simp_all add: quiet_env_def)

lemma default_seams [simp]: "seams None None = (ServeStep, ServeResume, None)"
  by (simp add: seams_def lb_selector_def Let_def)


theorem effect_cache_replays_witness:
  "\<exists>sh'. run_effect_serve (quiet_env 0) (tree_core None demo_key (cached_route demo_key 60 demo_resp)) None None demo_key empty_shell =
       Some (Return (Some demo_resp, sh')) \<and>
     run_effect_serve (quiet_env (5 * 10 ^ 9)) (tree_core None demo_key (cached_route demo_key 60 [])) None None demo_key sh' =
       Some (Return (Some (stamp demo_resp (ascii ''HIT'') (Some 5)), sh'))"
proof (rule effect_cache_replays)
  show "serves (tree_core None demo_key (cached_route demo_key 60 demo_resp)) (seams None None) (current_mask (lane empty_shell))
      demo_key (cached_route demo_key 60 demo_resp)"
    "serves (tree_core None demo_key (cached_route demo_key 60 [])) (seams None None) (current_mask (lane empty_shell))
      demo_key (cached_route demo_key 60 [])"
    using tree_core_serves [of None None] by simp_all
  show "length (stamp demo_resp (ascii ''HIT'') (Some 5)) < 2 ^ 32"
    by (simp add: stamp_def demo_resp_def find_sub_def dec_digits.simps)
qed (simp_all add: demo_key_def demo_resp_def elapsed_secs_def)

end
