(* ===== verification/Static_Serve.thy ===== *)
theory Static_Serve
  imports Cache Word_Bytes Host_IO
begin

text \<open>
  The static-file lane of \<^verbatim>\<open>static_serve.rs\<close>: which file a request names, and carrying out the serving
  plan the compiled Lean core decides. The two decisions of the core, \<open>resolve\<close> and \<open>decide\<close>, and the
  file system are parameters; nothing is assumed of the core's answers.
\<close>

section \<open>Plans\<close>

definition STATIC_CHUNK :: nat where "STATIC_CHUNK = 64 * 1024"

definition decide_frame :: "bool \<Rightarrow> bool \<Rightarrow> bool \<Rightarrow> u64 \<Rightarrow> u64 \<Rightarrow> bytes \<Rightarrow> bytes \<Rightarrow> bytes" where
  "decide_frame found redir ka len mtime fname req =
     (let flags = of_bool ka OR push_bit 1 (of_bool found) OR push_bit 2 (of_bool redir) in
      [flags] @ to_be_bytes len @ to_be_bytes mtime @ to_be_bytes (of_nat (length fname) :: u16) @ fname @ req)"

datatype plan_out =
  Reply bytes
| Whole bytes
| Window u64 u64 bytes
| Parts bytes bytes "(bytes \<times> u64 \<times> u64) list"

definition take_n :: "nat \<Rightarrow> bytes \<Rightarrow> (bytes \<times> bytes) option" where
  "take_n n p = (if length p < n then None else Some (take n p, drop n p))"

text \<open>A length of two or four octets and that many bytes after it.\<close>

definition take_len16 :: "bytes \<Rightarrow> (bytes \<times> bytes) option" where
  "take_len16 p = (case take_n 2 p of None \<Rightarrow> None | Some (l, p) \<Rightarrow> take_n (unat (from_be_bytes l :: u16)) p)"

definition take_len32 :: "bytes \<Rightarrow> (bytes \<times> bytes) option" where
  "take_len32 p = (case take_n 4 p of None \<Rightarrow> None | Some (l, p) \<Rightarrow> take_n (unat (from_be_bytes l :: u32)) p)"

primrec take_segs :: "nat \<Rightarrow> bytes \<Rightarrow> ((bytes \<times> u64 \<times> u64) list \<times> bytes) option" where
  "take_segs 0 p = Some ([], p)"
| "take_segs (Suc c) p =
     (case take_len16 p of
        None \<Rightarrow> None
      | Some (pre, p) \<Rightarrow>
          (case take_n 8 p of
             None \<Rightarrow> None
           | Some (off, p) \<Rightarrow>
               (case take_n 8 p of
                  None \<Rightarrow> None
                | Some (n, p) \<Rightarrow>
                    map_option (\<lambda>(segs, p). ((pre, from_be_bytes off, from_be_bytes n) # segs, p)) (take_segs c p))))"

definition parse_plan :: "bytes \<Rightarrow> plan_out option" where
  "parse_plan out =
     (case out of
        [] \<Rightarrow> None
      | tag # rest \<Rightarrow>
          if tag = 1 then Some (Reply rest)
          else if tag = 2 then Some (Whole rest)
          else if tag = 3 then
            (if length rest < 16 then None
             else Some (Window (from_be_bytes (take 8 rest)) (from_be_bytes (take 8 (drop 8 rest))) (drop 16 rest)))
          else if tag = 4 then
            (case take_len32 rest of
               None \<Rightarrow> None
             | Some (head, p) \<Rightarrow>
                 (case take_len16 p of
                    None \<Rightarrow> None
                  | Some (tail, p) \<Rightarrow>
                      (case take_n 2 p of
                         None \<Rightarrow> None
                       | Some (count, p) \<Rightarrow>
                           (case take_segs (unat (from_be_bytes count :: u16)) p of
                              None \<Rightarrow> None
                            | Some (segs, p) \<Rightarrow> if p \<noteq> [] then None else Some (Parts head tail segs)))))
          else None)"

section \<open>Which file\<close>

text \<open>A path is the list of its components, from the root of the file system.\<close>

type_synonym path = "bytes list"

record static_root =
  doc_root :: path
  url_prefix :: bytes
  spa_index :: "bytes option"

record file_system =
  canonicalize :: "path \<Rightarrow> path option"
  is_file :: "path \<Rightarrow> bool"
  is_dir :: "path \<Rightarrow> bool"

definition components :: "bytes \<Rightarrow> path" where
  "components s = filter (\<lambda>c. c \<noteq> [] \<and> c \<noteq> ascii ''.'') (split_on (\<lambda>b. b = 47) s)"

text \<open>\<open>PathBuf::push\<close>: an absolute argument replaces the path.\<close>

definition path_push :: "path \<Rightarrow> bytes \<Rightarrow> path" where
  "path_push p s = (if starts_with s [47] then components s else p @ components s)"

text \<open>\<open>Path::starts_with\<close> compares whole components.\<close>

definition under :: "path \<Rightarrow> path \<Rightarrow> bool" where
  "under root p \<longleftrightarrow> take (length root) p = root"

definition request_line :: "bytes \<Rightarrow> (bytes \<times> bytes) option" where
  "request_line req =
     (case find_sub req CRLF of
        None \<Rightarrow> None
      | Some line_end \<Rightarrow>
          (case split_sp (take line_end req) of meth # target # _ \<Rightarrow> Some (meth, target) | _ \<Rightarrow> None))"

definition target_path :: "bytes \<Rightarrow> bytes" where
  "target_path target = takeWhile (\<lambda>b. b \<noteq> 63 \<and> b \<noteq> 35) target"

definition is_static_path :: "static_root \<Rightarrow> bytes \<Rightarrow> bool" where
  "is_static_path sr req =
     (case request_line req of
        None \<Rightarrow> False
      | Some (meth, target) \<Rightarrow> meth \<noteq> [] \<and> starts_with (target_path target) (url_prefix sr))"

definition candidate :: "static_root \<Rightarrow> bytes \<Rightarrow> path" where
  "candidate sr joined = (if joined = [] then doc_root sr else path_push (doc_root sr) joined)"

definition resolve_with :: "file_system \<Rightarrow> static_root \<Rightarrow> bytes \<Rightarrow> (bytes \<Rightarrow> bytes option) \<Rightarrow> path option" where
  "resolve_with fs sr target core =
     (let path = target_path target in
      if \<not> starts_with path (url_prefix sr) then None
      else case core (drop (length (url_prefix sr)) path) of
        None \<Rightarrow> None
      | Some joined \<Rightarrow>
          if \<not> utf8_valid joined then None
          else case canonicalize fs (candidate sr joined) of
            None \<Rightarrow> None
          | Some real \<Rightarrow> if \<not> under (doc_root sr) real then None else if \<not> is_file fs real then None else Some real)"

datatype resolved = File path | Redirect | Missing

definition spa_index_file :: "file_system \<Rightarrow> static_root \<Rightarrow> path option" where
  "spa_index_file fs sr =
     (case spa_index sr of
        None \<Rightarrow> None
      | Some rel \<Rightarrow>
          (case canonicalize fs (path_push (doc_root sr) rel) of
             None \<Rightarrow> None
           | Some real \<Rightarrow> if \<not> under (doc_root sr) real then None else if is_file fs real then Some real else None))"

definition resolve_primary :: "file_system \<Rightarrow> static_root \<Rightarrow> bytes \<Rightarrow> (bytes \<Rightarrow> bytes option) \<Rightarrow> resolved" where
  "resolve_primary fs sr target core =
     (let path = target_path target in
      if \<not> starts_with path (url_prefix sr) then Missing
      else case core (drop (length (url_prefix sr)) path) of
        None \<Rightarrow> Missing
      | Some joined \<Rightarrow>
          if \<not> utf8_valid joined then Missing
          else case canonicalize fs (candidate sr joined) of
            None \<Rightarrow> Missing
          | Some real \<Rightarrow>
              if \<not> under (doc_root sr) real then Missing
              else if is_file fs real then File real
              else if is_dir fs real then
                (if \<not> ends_with path [47] then Redirect
                 else case canonicalize fs (path_push real (ascii ''index.html'')) of
                   None \<Rightarrow> Missing
                 | Some ireal \<Rightarrow> if under (doc_root sr) ireal \<and> is_file fs ireal then File ireal else Missing)
              else Missing)"

definition resolve_entity :: "file_system \<Rightarrow> static_root \<Rightarrow> bytes \<Rightarrow> (bytes \<Rightarrow> bytes option) \<Rightarrow> resolved" where
  "resolve_entity fs sr target core =
     (case resolve_primary fs sr target core of
        Missing \<Rightarrow> (case spa_index_file fs sr of Some idx \<Rightarrow> File idx | None \<Rightarrow> Missing)
      | other \<Rightarrow> other)"

text \<open>
  \<open>StaticRoot::from_env\<close>, with the canonical document root and the values of the three other variables.
\<close>

definition trim_slashes :: "bytes \<Rightarrow> bytes" where
  "trim_slashes s = dropWhile (\<lambda>b. b = 47) s"

definition spa_of_flag :: "bytes \<Rightarrow> bytes option" where
  "spa_of_flag v =
     (let v = str_trim v in
      if v = [] \<or> eq_ignore_ascii_case v (ascii ''0'') \<or> eq_ignore_ascii_case v (ascii ''false'') then None
      else if eq_ignore_ascii_case v (ascii ''1'') \<or> eq_ignore_ascii_case v (ascii ''true'') then Some (ascii ''index.html'')
      else Some v)"

definition static_from_env :: "path \<Rightarrow> bytes option \<Rightarrow> bytes option \<Rightarrow> bytes option \<Rightarrow> static_root" where
  "static_from_env root prefix_var spa_index_var spa_var =
     (let p = (case prefix_var of Some p \<Rightarrow> p | None \<Rightarrow> ascii ''/static/'');
          p = (if starts_with p [47] then p else 47 # p);
          p = (if ends_with p [47] then p else p @ [47]);
          spa = (case spa_index_var of Some s \<Rightarrow> Some s | None \<Rightarrow> (case spa_var of Some v \<Rightarrow> spa_of_flag v | None \<Rightarrow> None));
          spa = (case spa of None \<Rightarrow> None | Some s \<Rightarrow> (let s = str_trim (trim_slashes s) in if s = [] then None else Some s))
      in \<lparr> doc_root = root, url_prefix = p, spa_index = spa \<rparr>)"

section \<open>Carrying out a plan\<close>

text \<open>
  An open file: the length and time its metadata gave, the bytes reads find now, and what single reads
  and \<open>sendfile\<close> calls do: fail, or move at most that many bytes plus one. When the script is used up a
  call moves all it was asked for.
\<close>

record open_file =
  meta_len :: u64
  meta_mtime :: u64
  content :: bytes
  moves :: "(io_kind + nat) list"

definition next_move :: "open_file \<Rightarrow> nat \<Rightarrow> (io_kind + nat) \<times> open_file" where
  "next_move f want =
     (case moves f of
        [] \<Rightarrow> (Inr want, f)
      | Inl e # ms \<Rightarrow> (Inl e, f\<lparr> moves := ms \<rparr>)
      | Inr n # ms \<Rightarrow> (Inr (min want (Suc n)), f\<lparr> moves := ms \<rparr>))"

text \<open>
  The loop both movers have: at most \<open>chunk\<close> bytes at a time from offset \<open>off\<close>, none at the end of the
  file; \<open>failing\<close> is what happens to the client when the file side fails.
\<close>

function move_loop :: "nat \<Rightarrow> (client \<Rightarrow> client) \<Rightarrow> open_file \<Rightarrow> client \<Rightarrow> nat \<Rightarrow> nat \<Rightarrow> (io_kind + unit) \<times> open_file \<times> client" where
  "move_loop chunk failing f c off remaining =
     (if remaining = 0 then (Inr (), f, c)
      else
        let (m, f) = next_move f (min remaining chunk) in
        case m of
          Inl e \<Rightarrow> (Inl e, f, failing c)
        | Inr k \<Rightarrow>
            let bs = take k (drop off (content f)) in
            if bs = [] then (Inl UnexpectedEof, f, failing c)
            else case write_all c bs of
              (False, c) \<Rightarrow> (Inl OtherError, f, c)
            | (True, c) \<Rightarrow> move_loop chunk failing f c (off + length bs) (remaining - length bs))"
  by pat_completeness auto
termination
  by (relation "measure (\<lambda>(chunk, failing, f, c, off, remaining). remaining)") (auto simp: min_def)

declare move_loop.simps [simp del]

text \<open>Reading through a buffer, flushing the client before an error is reported.\<close>

definition pump_loop :: "open_file \<Rightarrow> client \<Rightarrow> nat \<Rightarrow> nat \<Rightarrow> (io_kind + unit) \<times> open_file \<times> client" where
  "pump_loop = move_loop STATIC_CHUNK (\<lambda>c. snd (flush_client c))"

definition pump_window :: "open_file \<Rightarrow> client \<Rightarrow> u64 \<Rightarrow> u64 \<Rightarrow> (io_kind + nat) \<times> open_file \<times> client" where
  "pump_window f c off n =
     (if 2 ^ 63 \<le> unat off then (Inl OtherError, f, c)
      else case pump_loop f c (unat off) (unat n) of
        (Inl e, f, c) \<Rightarrow> (Inl e, f, c)
      | (Inr u, f, c) \<Rightarrow> (Inr (unat n), f, c))"

definition SENDFILE_MAX :: nat where "SENDFILE_MAX = 0x7ffff000"

text \<open>An interrupted \<open>sendfile\<close> is called again with the same arguments, so it has no entry in the script.\<close>

definition sendfile_loop :: "open_file \<Rightarrow> client \<Rightarrow> nat \<Rightarrow> nat \<Rightarrow> (io_kind + unit) \<times> open_file \<times> client" where
  "sendfile_loop = move_loop SENDFILE_MAX (\<lambda>c. c)"

definition sendfile_window :: "open_file \<Rightarrow> client \<Rightarrow> u64 \<Rightarrow> u64 \<Rightarrow> (io_kind + unit) \<times> open_file \<times> client" where
  "sendfile_window f c off n =
     (if 2 ^ 63 \<le> unat off \<and> n \<noteq> 0 then (Inl OtherError, f, c) else sendfile_loop f c (unat off) (unat n))"

definition send_window :: "bool \<Rightarrow> open_file \<Rightarrow> client \<Rightarrow> u64 \<Rightarrow> u64 \<Rightarrow> (io_kind + nat) \<times> open_file \<times> client" where
  "send_window zero_copy f c off n =
     (if zero_copy then
        case flush_client c of
          (False, c) \<Rightarrow> (Inl OtherError, f, c)
        | (True, c) \<Rightarrow>
            (case sendfile_window f c off n of
               (Inl e, f, c) \<Rightarrow> (Inl e, f, c)
             | (Inr u, f, c) \<Rightarrow> (Inr (unat n), f, c))
      else pump_window f c off n)"

record static_outcome =
  out_head :: bytes
  out_bytes :: nat
  out_keepalive :: bool

datatype static_seg = Buf bytes | FileWindow u64 u64

record static_plan =
  segs :: "static_seg list"
  plan_file :: "open_file option"
  plan_keepalive :: bool
  plan_head :: bytes

text \<open>
  The part the synchronous and the asynchronous server share: the facts about the file, the crossing of
  the decision and the decoded plan. Errors of the seam are one value.
\<close>

record boundary =
  b_file :: "open_file option"
  b_name :: bytes
  b_redir :: bool

definition boundary_facts ::
  "file_system \<Rightarrow> (path \<Rightarrow> open_file option) \<Rightarrow> static_root \<Rightarrow> bytes \<Rightarrow> bytes \<Rightarrow> (bytes \<Rightarrow> bytes option) \<Rightarrow> boundary" where
  "boundary_facts fs open_path sr meth target resolve =
     (if meth = ascii ''GET'' \<or> meth = ascii ''HEAD'' then
        (case resolve_entity fs sr target resolve of
           File path \<Rightarrow>
             (case open_path path of
                Some f \<Rightarrow> \<lparr> b_file = Some f, b_name = (if path = [] then [] else last path), b_redir = False \<rparr>
              | None \<Rightarrow> \<lparr> b_file = None, b_name = [], b_redir = False \<rparr>)
         | Redirect \<Rightarrow> \<lparr> b_file = None, b_name = [], b_redir = True \<rparr>
         | Missing \<Rightarrow> \<lparr> b_file = None, b_name = [], b_redir = False \<rparr>)
      else \<lparr> b_file = None, b_name = [], b_redir = False \<rparr>)"

definition b_len :: "boundary \<Rightarrow> u64" where
  "b_len b = (case b_file b of Some f \<Rightarrow> meta_len f | None \<Rightarrow> 0)"

definition b_mtime :: "boundary \<Rightarrow> u64" where
  "b_mtime b = (case b_file b of Some f \<Rightarrow> meta_mtime f | None \<Rightarrow> 0)"

definition static_decision ::
  "file_system \<Rightarrow> (path \<Rightarrow> open_file option) \<Rightarrow> static_root \<Rightarrow> (bytes \<Rightarrow> bytes option) \<Rightarrow> (bytes \<Rightarrow> bytes option)
     \<Rightarrow> bytes \<Rightarrow> bool \<Rightarrow> (boundary \<times> plan_out) option" where
  "static_decision fs open_path sr resolve decide req ka =
     (case request_line req of
        None \<Rightarrow> None
      | Some (meth, target) \<Rightarrow>
          let b = boundary_facts fs open_path sr meth target resolve in
          (case decide (decide_frame (b_file b \<noteq> None) (b_redir b) ka (b_len b) (b_mtime b) (b_name b) req) of
             None \<Rightarrow> None
           | Some out \<Rightarrow> map_option (\<lambda>plan. (b, plan)) (parse_plan out)))"

definition reply_head :: "bytes \<Rightarrow> bytes" where
  "reply_head resp = take (case find_sub resp (CRLF @ CRLF) of Some p \<Rightarrow> p + 4 | None \<Rightarrow> length resp) resp"

text \<open>The parts of a multipart plan: preface, window, one after the other.\<close>

fun send_parts ::
  "bool \<Rightarrow> open_file \<Rightarrow> client \<Rightarrow> nat \<Rightarrow> (bytes \<times> u64 \<times> u64) list \<Rightarrow> (io_kind + nat) \<times> open_file \<times> client" where
  "send_parts zc f c bytes [] = (Inr bytes, f, c)"
| "send_parts zc f c bytes ((pre, off, n) # rest) =
     (case write_all c pre of
        (False, c) \<Rightarrow> (Inl OtherError, f, c)
      | (True, c) \<Rightarrow>
          (case send_window zc f c off n of
             (Inl e, f, c) \<Rightarrow> (Inl e, f, c)
           | (Inr m, f, c) \<Rightarrow> send_parts zc f c (bytes + length pre + m) rest))"

text \<open>Write the last bytes, flush and report.\<close>

definition finish_static :: "bytes \<Rightarrow> bool \<Rightarrow> nat \<Rightarrow> bytes \<Rightarrow> client \<Rightarrow> (io_kind + static_outcome) \<times> client" where
  "finish_static head ka bytes rest c =
     (case write_all c rest of
        (False, c) \<Rightarrow> (Inl OtherError, c)
      | (True, c) \<Rightarrow>
          (case flush_client c of
             (False, c) \<Rightarrow> (Inl OtherError, c)
           | (True, c) \<Rightarrow> (Inr \<lparr> out_head = head, out_bytes = bytes + length rest, out_keepalive = ka \<rparr>, c)))"

definition flush_static :: "bytes \<Rightarrow> bool \<Rightarrow> nat \<Rightarrow> client \<Rightarrow> (io_kind + static_outcome) \<times> client" where
  "flush_static head ka bytes c =
     (case flush_client c of
        (False, c) \<Rightarrow> (Inl OtherError, c)
      | (True, c) \<Rightarrow> (Inr \<lparr> out_head = head, out_bytes = bytes, out_keepalive = ka \<rparr>, c))"

definition window_response :: "bool \<Rightarrow> bool \<Rightarrow> bytes \<Rightarrow> open_file \<Rightarrow> u64 \<Rightarrow> u64 \<Rightarrow> client \<Rightarrow> (io_kind + static_outcome) \<times> client" where
  "window_response zc ka head f off n c =
     (case write_all c head of
        (False, c) \<Rightarrow> (Inl OtherError, c)
      | (True, c) \<Rightarrow>
          (case send_window zc f c off n of
             (Inl e, f, c) \<Rightarrow> (Inl e, c)
           | (Inr m, f, c) \<Rightarrow> flush_static head ka (length head + m) c))"

definition execute_plan :: "bool \<Rightarrow> bool \<Rightarrow> boundary \<Rightarrow> plan_out \<Rightarrow> client \<Rightarrow> (io_kind + static_outcome) \<times> client" where
  "execute_plan zc ka b plan c =
     (case plan of
        Reply resp \<Rightarrow> finish_static (reply_head resp) ka 0 resp c
      | Whole head \<Rightarrow>
          (case b_file b of None \<Rightarrow> (Inl OtherError, c) | Some f \<Rightarrow> window_response zc ka head f 0 (b_len b) c)
      | Window off n head \<Rightarrow>
          (case b_file b of None \<Rightarrow> (Inl OtherError, c) | Some f \<Rightarrow> window_response zc ka head f off n c)
      | Parts head tail parts \<Rightarrow>
          (case b_file b of
             None \<Rightarrow> (Inl OtherError, c)
           | Some f \<Rightarrow>
               (case write_all c head of
                  (False, c) \<Rightarrow> (Inl OtherError, c)
                | (True, c) \<Rightarrow>
                    (case send_parts zc f c (length head) parts of
                       (Inl e, f, c) \<Rightarrow> (Inl e, c)
                     | (Inr m, f, c) \<Rightarrow> finish_static head ka m tail c))))"

definition handle_streaming_zc ::
  "file_system \<Rightarrow> (path \<Rightarrow> open_file option) \<Rightarrow> static_root \<Rightarrow> (bytes \<Rightarrow> bytes option) \<Rightarrow> (bytes \<Rightarrow> bytes option)
     \<Rightarrow> bool \<Rightarrow> bytes \<Rightarrow> bool \<Rightarrow> client \<Rightarrow> (io_kind + static_outcome) \<times> client" where
  "handle_streaming_zc fs open_path sr resolve decide zc req ka c =
     (case static_decision fs open_path sr resolve decide req ka of
        None \<Rightarrow> (Inl OtherError, c)
      | Some (b, plan) \<Rightarrow> execute_plan zc ka b plan c)"

definition serve_tls_buf ::
  "file_system \<Rightarrow> (path \<Rightarrow> open_file option) \<Rightarrow> static_root \<Rightarrow> (bytes \<Rightarrow> bytes option) \<Rightarrow> (bytes \<Rightarrow> bytes option)
     \<Rightarrow> bytes \<Rightarrow> bool \<Rightarrow> io_kind + bytes" where
  "serve_tls_buf fs open_path sr resolve decide req ka =
     (case handle_streaming_zc fs open_path sr resolve decide False req ka \<lparr> sent = [], faults = [] \<rparr> of
        (Inl e, c) \<Rightarrow> Inl e
      | (Inr out, c) \<Rightarrow> Inr (sent c))"

fun parts_segs :: "(bytes \<times> u64 \<times> u64) list \<Rightarrow> static_seg list" where
  "parts_segs [] = []"
| "parts_segs ((pre, off, n) # rest) = Buf pre # FileWindow off n # parts_segs rest"

definition linearize :: "bool \<Rightarrow> boundary \<Rightarrow> plan_out \<Rightarrow> static_plan option" where
  "linearize ka b plan =
     (case plan of
        Reply resp \<Rightarrow> Some \<lparr> segs = [Buf resp], plan_file = None, plan_keepalive = ka, plan_head = reply_head resp \<rparr>
      | Whole head \<Rightarrow>
          map_option (\<lambda>f. \<lparr> segs = [Buf head, FileWindow 0 (b_len b)], plan_file = Some f, plan_keepalive = ka, plan_head = head \<rparr>) (b_file b)
      | Window off n head \<Rightarrow>
          map_option (\<lambda>f. \<lparr> segs = [Buf head, FileWindow off n], plan_file = Some f, plan_keepalive = ka, plan_head = head \<rparr>) (b_file b)
      | Parts head tail parts \<Rightarrow>
          map_option (\<lambda>f. \<lparr> segs = Buf head # parts_segs parts @ [Buf tail], plan_file = Some f, plan_keepalive = ka, plan_head = head \<rparr>) (b_file b))"

definition plan ::
  "file_system \<Rightarrow> (path \<Rightarrow> open_file option) \<Rightarrow> static_root \<Rightarrow> (bytes \<Rightarrow> bytes option) \<Rightarrow> (bytes \<Rightarrow> bytes option)
     \<Rightarrow> bytes \<Rightarrow> bool \<Rightarrow> static_plan option" where
  "plan fs open_path sr resolve decide req ka =
     (case static_decision fs open_path sr resolve decide req ka of
        None \<Rightarrow> None
      | Some (b, p) \<Rightarrow> linearize ka b p)"

section \<open>Confinement\<close>

lemma resolve_entity_confined:
  assumes "resolve_entity fs sr target core = File p"
  shows "under (doc_root sr) p \<and> is_file fs p"
proof (cases "resolve_primary fs sr target core")
  case (File q)
  then have "p = q"
    using assms by (simp add: resolve_entity_def)
  with File show ?thesis
    by (auto simp: resolve_primary_def Let_def split: if_splits option.splits)
next
  case Redirect
  then show ?thesis
    using assms by (simp add: resolve_entity_def)
next
  case Missing
  then show ?thesis
    using assms by (auto simp: resolve_entity_def spa_index_file_def split: option.splits if_splits)
qed

lemma resolve_with_primary: "resolve_with fs sr target core = Some p \<Longrightarrow> resolve_primary fs sr target core = File p"
  by (auto simp: resolve_with_def resolve_primary_def Let_def split: if_splits option.splits)

text \<open>
  C30: The static lane never serves anything from outside its document root: whatever the client requests, whatever
  relative path the core resolves it to (absolute ones and ones with dot segments included), whatever plan the
  core decides and whatever symbolic links there are, the response is the same for any two contents of
  the files outside the root.
\<close>

theorem static_lane_is_confined:
  assumes "\<And>p. under (doc_root sr) p \<Longrightarrow> is_file fs p \<Longrightarrow> open_path p = open_path' p"
  shows "handle_streaming_zc fs open_path sr resolve decide zc req ka c = handle_streaming_zc fs open_path' sr resolve decide zc req ka c"
proof -
  have "boundary_facts fs open_path sr meth target resolve = boundary_facts fs open_path' sr meth target resolve" for meth target
    using assms resolve_entity_confined [of fs sr target resolve]
    by (auto simp: boundary_facts_def split: resolved.splits)
  then show ?thesis
    by (cases "request_line req") (simp_all add: handle_streaming_zc_def static_decision_def case_prod_beta)
qed

section \<open>The bytes of a plan\<close>

text \<open>What a plan puts on the wire, and whether the file still has the windows it names.\<close>

fun seg_wire :: "bytes \<Rightarrow> static_seg \<Rightarrow> bytes" where
  "seg_wire d (Buf b) = b"
| "seg_wire d (FileWindow off n) = take (unat n) (drop (unat off) d)"

definition plan_wire :: "static_plan \<Rightarrow> bytes" where
  "plan_wire p = concat (map (seg_wire (case plan_file p of Some f \<Rightarrow> content f | None \<Rightarrow> [])) (segs p))"

fun seg_fits :: "bytes \<Rightarrow> static_seg \<Rightarrow> bool" where
  "seg_fits d (Buf b) \<longleftrightarrow> True"
| "seg_fits d (FileWindow off n) \<longleftrightarrow> unat n = 0 \<or> unat off + unat n \<le> length d"

text \<open>Offsets a file can have.\<close>

fun seg_seekable :: "static_seg \<Rightarrow> bool" where
  "seg_seekable (Buf b) \<longleftrightarrow> True"
| "seg_seekable (FileWindow off n) \<longleftrightarrow> unat off < 2 ^ 63"

definition plan_fits :: "static_plan \<Rightarrow> bool" where
  "plan_fits p \<longleftrightarrow> list_all (seg_fits (case plan_file p of Some f \<Rightarrow> content f | None \<Rightarrow> [])) (segs p)"

text \<open>No call on the file fails; short ones are possible.\<close>

definition calm :: "open_file \<Rightarrow> bool" where
  "calm f \<longleftrightarrow> (\<forall>m \<in> set (moves f). \<exists>n. m = Inr n)"

lemma next_move_calm:
  assumes "calm f" "0 < want"
  shows "\<exists>k f'. next_move f want = (Inr k, f') \<and> 0 < k \<and> k \<le> want \<and> calm f' \<and> content f' = content f"
  using assms by (cases "moves f") (auto simp: next_move_def calm_def)

lemma write_all_reliable_pair [simp]: "faults c = [] \<Longrightarrow> write_all c bs = (True, c\<lparr> sent := sent c @ bs \<rparr>)"
  by (rule write_all_reliable)

text \<open>With a calm file and a reliable client a loop delivers its window, or what there is of it and an error.\<close>

lemma move_loop_calm:
  assumes "0 < chunk" "calm f" "faults c = []" "\<forall>c. faults c = [] \<longrightarrow> failing c = c"
  shows "\<exists>f'. move_loop chunk failing f c off remaining =
      (if remaining = 0 \<or> off + remaining \<le> length (content f) then Inr () else Inl UnexpectedEof, f',
       c\<lparr> sent := sent c @ take remaining (drop off (content f)) \<rparr>) \<and> calm f' \<and> content f' = content f"
  using assms(2-3)
proof (induction remaining arbitrary: f c off rule: less_induct)
  case (less remaining)
  show ?case
  proof (cases "remaining = 0")
    case True
    then show ?thesis
      using less.prems by (subst move_loop.simps) simp
  next
    case False
    then obtain k f1 where k: "next_move f (min remaining chunk) = (Inr k, f1)" "0 < k" "k \<le> min remaining chunk" "calm f1"
        "content f1 = content f"
      using next_move_calm [OF less.prems(1), of "min remaining chunk"] assms(1) by auto
    define bs where "bs = take k (drop off (content f))"
    have loop: "move_loop chunk failing f c off remaining =
       (if bs = [] then (Inl UnexpectedEof, f1, c)
        else move_loop chunk failing f1 (c\<lparr> sent := sent c @ bs \<rparr>) (off + length bs) (remaining - length bs))"
      using False k less.prems(2) assms(4) by (subst move_loop.simps) (simp add: bs_def)
    show ?thesis
    proof (cases "bs = []")
      case True
      then have "drop off (content f) = []"
        using k(2) by (auto simp: bs_def)
      then show ?thesis
        using loop True False k by simp
    next
      case False
      have len: "length bs \<le> remaining" "0 < length bs"
        using k(3) False by (auto simp: bs_def)
      have split: "bs @ take (remaining - length bs) (drop (off + length bs) (content f)) = take remaining (drop off (content f))"
      proof -
        have "bs = take (length bs) (drop off (content f))"
          by (simp add: bs_def min_def)
        then show ?thesis
          using take_add [of "length bs" "remaining - length bs" "drop off (content f)"] len(1) by (simp add: add.commute)
      qed
      define r c1 where "r = remaining - length bs" and "c1 = c\<lparr> sent := sent c @ bs \<rparr>"
      have r: "r < remaining"
        unfolding r_def using len by linarith
      have "faults c1 = []"
        using less.prems(2) by (simp add: c1_def)
      from less.IH [OF r k(4) this, of "off + length bs"] obtain f' where f':
          "move_loop chunk failing f1 c1 (off + length bs) r =
             (if r = 0 \<or> off + length bs + r \<le> length (content f1) then Inr () else Inl UnexpectedEof, f',
              c1\<lparr> sent := sent c1 @ take r (drop (off + length bs) (content f1)) \<rparr>)" "calm f'" "content f' = content f1"
        by (elim exE conjE)
      have "(remaining - length bs = 0 \<or> off + length bs + (remaining - length bs) \<le> length (content f)) =
          (remaining = 0 \<or> off + remaining \<le> length (content f))"
        using len by (auto simp: bs_def)
      then show ?thesis
        using loop False split k(5) f' unfolding r_def c1_def by (intro exI [of _ f']) simp
    qed
  qed
qed

lemma chunks_positive: "0 < STATIC_CHUNK" "0 < SENDFILE_MAX"
  by (simp_all add: STATIC_CHUNK_def SENDFILE_MAX_def)

lemma flush_reliable_pair [simp]: "faults c = [] \<Longrightarrow> flush_client c = (True, c)"
  by (rule flush_client_reliable)

lemma keep_client: "\<forall>c. faults c = [] \<longrightarrow> (\<lambda>c :: client. c) c = c"
  by simp

lemma flush_keeps: "\<forall>c. faults c = [] \<longrightarrow> (\<lambda>c. snd (flush_client c)) c = c"
  by simp

lemma send_window_calm:
  assumes "calm f" "faults c = []" "unat off < 2 ^ 63"
  shows "\<exists>f'. send_window zc f c off n =
      (if unat n = 0 \<or> unat off + unat n \<le> length (content f) then Inr (unat n) else Inl UnexpectedEof, f',
       c\<lparr> sent := sent c @ take (unat n) (drop (unat off) (content f)) \<rparr>) \<and> calm f' \<and> content f' = content f"
proof (cases zc)
  case True
  obtain f' where "sendfile_loop f c (unat off) (unat n) =
      (if unat n = 0 \<or> unat off + unat n \<le> length (content f) then Inr () else Inl UnexpectedEof, f',
       c\<lparr> sent := sent c @ take (unat n) (drop (unat off) (content f)) \<rparr>)" "calm f'" "content f' = content f"
    using move_loop_calm [OF chunks_positive(2) assms(1,2) keep_client, of "unat off" "unat n"]
    unfolding sendfile_loop_def by (elim exE conjE)
  then show ?thesis
    using True assms by (intro exI [of _ f']) (simp add: send_window_def sendfile_window_def)
next
  case False
  obtain f' where "pump_loop f c (unat off) (unat n) =
      (if unat n = 0 \<or> unat off + unat n \<le> length (content f) then Inr () else Inl UnexpectedEof, f',
       c\<lparr> sent := sent c @ take (unat n) (drop (unat off) (content f)) \<rparr>)" "calm f'" "content f' = content f"
    using move_loop_calm [OF chunks_positive(1) assms(1,2) flush_keeps, of "unat off" "unat n"]
    unfolding pump_loop_def by (elim exE conjE)
  then show ?thesis
    using False assms by (intro exI [of _ f']) (simp add: send_window_def pump_window_def)
qed

text \<open>The parts of a plan, as the segments they are.\<close>

lemma send_parts_calm:
  assumes "calm f" "faults c = []" "list_all seg_seekable (parts_segs parts)"
  shows "\<exists>f' c'. send_parts zc f c bytes parts =
      (if list_all (seg_fits (content f)) (parts_segs parts)
       then Inr (bytes + length (concat (map (seg_wire (content f)) (parts_segs parts)))) else Inl UnexpectedEof, f', c') \<and>
     (list_all (seg_fits (content f)) (parts_segs parts) \<longrightarrow>
        c' = c\<lparr> sent := sent c @ concat (map (seg_wire (content f)) (parts_segs parts)) \<rparr>)"
  using assms
proof (induction parts arbitrary: f c bytes rule: parts_segs.induct)
  case (2 pre off n rest)
  define c1 where "c1 = c\<lparr> sent := sent c @ pre \<rparr>"
  have c1: "faults c1 = []" "write_all c pre = (True, c1)"
    using "2.prems"(2) by (simp_all add: c1_def)
  obtain f1 where f1: "send_window zc f c1 off n =
      (if unat n = 0 \<or> unat off + unat n \<le> length (content f) then Inr (unat n) else Inl UnexpectedEof, f1,
       c1\<lparr> sent := sent c1 @ take (unat n) (drop (unat off) (content f)) \<rparr>)" "calm f1" "content f1 = content f"
    using send_window_calm [OF "2.prems"(1) c1(1), of off zc n] "2.prems"(3) by auto
  show ?case
  proof (cases "unat n = 0 \<or> unat off + unat n \<le> length (content f)")
    case True
    define c2 where "c2 = c1\<lparr> sent := sent c1 @ take (unat n) (drop (unat off) (content f)) \<rparr>"
    have w: "send_window zc f c1 off n = (Inr (unat n), f1, c2)" "faults c2 = []"
      using f1 True c1 by (simp_all add: c2_def)
    have len: "length (take (unat n) (drop (unat off) (content f))) = unat n"
      using True by auto
    obtain f' c' where ih: "send_parts zc f1 c2 (bytes + length pre + unat n) rest =
        (if list_all (seg_fits (content f1)) (parts_segs rest)
         then Inr (bytes + length pre + unat n + length (concat (map (seg_wire (content f1)) (parts_segs rest)))) else Inl UnexpectedEof, f', c')"
       "list_all (seg_fits (content f1)) (parts_segs rest) \<longrightarrow>
          c' = c2\<lparr> sent := sent c2 @ concat (map (seg_wire (content f1)) (parts_segs rest)) \<rparr>"
      using "2.IH" [OF f1(2) w(2), of "bytes + length pre + unat n"] "2.prems"(3) by auto
    show ?thesis
      using ih c1(2) w(1) True len f1(3) by (intro exI [of _ f'] exI [of _ c']) (simp add: c2_def c1_def)
  next
    case False
    then show ?thesis
      using f1 c1(2) by simp
  qed
qed simp

definition plan_seekable :: "static_plan \<Rightarrow> bool" where
  "plan_seekable p \<longleftrightarrow> list_all seg_seekable (segs p)"

definition plan_calm :: "static_plan \<Rightarrow> bool" where
  "plan_calm p \<longleftrightarrow> (case plan_file p of Some f \<Rightarrow> calm f | None \<Rightarrow> True)"

lemma window_response_calm:
  assumes "calm f" "faults c = []" "unat off < 2 ^ 63"
  shows "if unat n = 0 \<or> unat off + unat n \<le> length (content f)
     then window_response zc ka head f off n c =
       (Inr \<lparr> out_head = head, out_bytes = length head + unat n, out_keepalive = ka \<rparr>,
        c\<lparr> sent := sent c @ head @ take (unat n) (drop (unat off) (content f)) \<rparr>)
     else fst (window_response zc ka head f off n c) = Inl UnexpectedEof"
proof -
  define c1 where "c1 = c\<lparr> sent := sent c @ head \<rparr>"
  have "faults c1 = []"
    using assms(2) by (simp add: c1_def)
  from send_window_calm [OF assms(1) this assms(3), of zc n] obtain f' where
    "send_window zc f c1 off n =
      (if unat n = 0 \<or> unat off + unat n \<le> length (content f) then Inr (unat n) else Inl UnexpectedEof, f',
       c1\<lparr> sent := sent c1 @ take (unat n) (drop (unat off) (content f)) \<rparr>)"
    by (elim exE conjE)
  then show ?thesis
    using assms(2) by (simp add: window_response_def flush_static_def c1_def)
qed

lemma execute_plan_wire:
  assumes "linearize ka b p = Some sp" "plan_calm sp" "plan_seekable sp" "faults c = []"
  shows "if plan_fits sp
     then execute_plan zc ka b p c =
       (Inr \<lparr> out_head = plan_head sp, out_bytes = length (plan_wire sp), out_keepalive = plan_keepalive sp \<rparr>,
        c\<lparr> sent := sent c @ plan_wire sp \<rparr>)
     else fst (execute_plan zc ka b p c) = Inl UnexpectedEof"
proof (cases p)
  case (Reply resp)
  then show ?thesis
    using assms by (auto simp: linearize_def execute_plan_def finish_static_def plan_fits_def plan_wire_def)
next
  case (Whole head)
  then obtain f where "b_file b = Some f" "sp = \<lparr> segs = [Buf head, FileWindow 0 (b_len b)], plan_file = Some f, plan_keepalive = ka, plan_head = head \<rparr>"
    using assms(1) by (auto simp: linearize_def)
  then show ?thesis
    using window_response_calm [of f c 0 "b_len b" zc ka head] assms Whole
    by (simp add: execute_plan_def plan_calm_def plan_fits_def plan_wire_def split: if_splits)
next
  case (Window off n head)
  then obtain f where "b_file b = Some f" "sp = \<lparr> segs = [Buf head, FileWindow off n], plan_file = Some f, plan_keepalive = ka, plan_head = head \<rparr>"
    using assms(1) by (auto simp: linearize_def)
  then show ?thesis
    using window_response_calm [of f c off n zc ka head] assms Window
    by (auto simp: execute_plan_def plan_calm_def plan_fits_def plan_wire_def plan_seekable_def split: if_splits)
next
  case (Parts head tail parts)
  then obtain f where f: "b_file b = Some f"
      "sp = \<lparr> segs = Buf head # parts_segs parts @ [Buf tail], plan_file = Some f, plan_keepalive = ka, plan_head = head \<rparr>"
    using assms(1) by (auto simp: linearize_def)
  define c1 where "c1 = c\<lparr> sent := sent c @ head \<rparr>"
  have "calm f" "faults c1 = []" "list_all seg_seekable (parts_segs parts)"
    using assms f by (simp_all add: c1_def plan_calm_def plan_seekable_def)
  from send_parts_calm [OF this, of zc "length head"] obtain f' c' where
    "send_parts zc f c1 (length head) parts =
      (if list_all (seg_fits (content f)) (parts_segs parts)
       then Inr (length head + length (concat (map (seg_wire (content f)) (parts_segs parts)))) else Inl UnexpectedEof, f', c')"
    "list_all (seg_fits (content f)) (parts_segs parts) \<longrightarrow>
        c' = c1\<lparr> sent := sent c1 @ concat (map (seg_wire (content f)) (parts_segs parts)) \<rparr>"
    by (elim exE conjE)
  then show ?thesis
    using f Parts assms(4) by (simp add: execute_plan_def finish_static_def plan_fits_def plan_wire_def c1_def)
qed

text \<open>
  C31: The synchronous and the asynchronous static servers put the same bytes on the wire: for a request whose plan is
  \<open>p\<close>, serving it with \<open>sendfile\<close> or through a buffer, with any short reads and short sends, writes exactly the
  segments of \<open>p\<close> with the file windows filled in, reports their total length, and fails, never
  completing with a short body, exactly when the file has shrunk below a window.
\<close>

theorem static_plan_on_the_wire:
  assumes "plan fs open_path sr resolve decide req ka = Some p" "plan_calm p" "plan_seekable p" "faults c = []"
  shows "if plan_fits p
     then handle_streaming_zc fs open_path sr resolve decide zc req ka c =
       (Inr \<lparr> out_head = plan_head p, out_bytes = length (plan_wire p), out_keepalive = plan_keepalive p \<rparr>,
        c\<lparr> sent := sent c @ plan_wire p \<rparr>)
     else fst (handle_streaming_zc fs open_path sr resolve decide zc req ka c) = Inl UnexpectedEof"
proof -
  obtain b po where d: "static_decision fs open_path sr resolve decide req ka = Some (b, po)" "linearize ka b po = Some p"
    using assms(1) by (auto simp: plan_def split: option.splits)
  show ?thesis
    using execute_plan_wire [OF d(2) assms(2-4), of zc] d(1) by (simp add: handle_streaming_zc_def)
qed

definition demo_file :: open_file where
  "demo_file = \<lparr> meta_len = 5, meta_mtime = 0, content = ascii ''hello'', moves = [Inr 0, Inr 2] \<rparr>"

definition demo_root :: static_root where
  "demo_root = \<lparr> doc_root = [ascii ''srv''], url_prefix = ascii ''/'', spa_index = None \<rparr>"

definition demo_disk_tree :: file_system where
  "demo_disk_tree = \<lparr> canonicalize = Some, is_file = (\<lambda>_. True), is_dir = (\<lambda>_. False) \<rparr>"

definition demo_get :: bytes where "demo_get = ascii ''GET /a'' @ CRLF"

definition demo_plan :: "bytes \<Rightarrow> bytes option" where
  "demo_plan _ = Some ([3] @ to_be_bytes (1 :: u64) @ to_be_bytes (3 :: u64) @ ascii ''head'')"

lemma demo_planned:
  "plan demo_disk_tree (\<lambda>_. Some demo_file) demo_root Some demo_plan demo_get True =
     Some \<lparr> segs = [Buf (ascii ''head''), FileWindow 1 3], plan_file = Some demo_file, plan_keepalive = True, plan_head = ascii ''head'' \<rparr>"
proof -
  have "request_line demo_get = Some (ascii ''GET'', ascii ''/a'')"
    by (simp add: request_line_def demo_get_def find_sub_def split_sp_def)
  moreover have "resolve_entity demo_disk_tree demo_root (ascii ''/a'') Some = File [ascii ''srv'', ascii ''a'']"
    by (simp add: resolve_entity_def resolve_primary_def demo_root_def demo_disk_tree_def target_path_def Let_def starts_with_def
          candidate_def path_push_def components_def under_def utf8_valid_def utf8_chars_ascii)
  moreover have "parse_plan (the (demo_plan bs)) = Some (Window 1 3 (ascii ''head''))" for bs
    by (simp add: parse_plan_def demo_plan_def)
  ultimately show ?thesis
    by (simp add: plan_def static_decision_def boundary_facts_def Let_def demo_plan_def linearize_def del: ascii_simps)
qed

theorem static_plan_on_the_wire_witness:
  "\<forall>zc. handle_streaming_zc demo_disk_tree (\<lambda>_. Some demo_file) demo_root Some demo_plan zc demo_get True \<lparr> sent = [], faults = [] \<rparr> =
     (Inr \<lparr> out_head = ascii ''head'', out_bytes = 7, out_keepalive = True \<rparr>, \<lparr> sent = ascii ''headell'', faults = [] \<rparr>)"
  using static_plan_on_the_wire [OF demo_planned, of "\<lparr> sent = [], faults = [] \<rparr>"]
  by (simp add: plan_calm_def calm_def demo_file_def plan_seekable_def plan_fits_def plan_wire_def)

theorem static_lane_is_confined_witness:
  "\<forall>zc. handle_streaming_zc demo_disk_tree (\<lambda>_. Some demo_file) demo_root Some demo_plan zc demo_get True \<lparr> sent = [], faults = [] \<rparr> =
   handle_streaming_zc demo_disk_tree (\<lambda>p. if under [ascii ''srv''] p then Some demo_file else None) demo_root Some demo_plan
     zc demo_get True \<lparr> sent = [], faults = [] \<rparr>"
  by (intro allI static_lane_is_confined) (simp add: demo_root_def)

section \<open>The encoding of plans\<close>

text \<open>The format of a plan, as the interface of the decision describes it.\<close>

definition len16 :: "bytes \<Rightarrow> bytes" where
  "len16 bs = to_be_bytes (of_nat (length bs) :: u16)"

definition encode_segs :: "(bytes \<times> u64 \<times> u64) list \<Rightarrow> bytes" where
  "encode_segs ss = concat (map (\<lambda>(pre, off, n). len16 pre @ pre @ to_be_bytes off @ to_be_bytes n) ss)"

primrec encode_plan :: "plan_out \<Rightarrow> bytes" where
  "encode_plan (Reply resp) = 1 # resp"
| "encode_plan (Whole head) = 2 # head"
| "encode_plan (Window off n head) = 3 # to_be_bytes off @ to_be_bytes n @ head"
| "encode_plan (Parts head tail ss) =
     4 # to_be_bytes (of_nat (length head) :: u32) @ head @ len16 tail @ tail @
     to_be_bytes (of_nat (length ss) :: u16) @ encode_segs ss"

primrec plan_small :: "plan_out \<Rightarrow> bool" where
  "plan_small (Reply resp) \<longleftrightarrow> True"
| "plan_small (Whole head) \<longleftrightarrow> True"
| "plan_small (Window off n head) \<longleftrightarrow> True"
| "plan_small (Parts head tail ss) \<longleftrightarrow> length head < 2 ^ 32 \<and> length tail < 2 ^ 16 \<and> length ss < 2 ^ 16 \<and>
     (\<forall>(pre, off, n) \<in> set ss. length pre < 2 ^ 16)"

lemma take_n_Some: "take_n n p = Some (a, r) \<longleftrightarrow> p = a @ r \<and> length a = n"
  by (auto simp: take_n_def)

lemma octets_of_word:
  assumes "LENGTH('w::len) = 8 * k"
  shows "length l = k \<and> unat (from_be_bytes l :: 'w word) = n \<longleftrightarrow> l = to_be_bytes (of_nat n :: 'w word) \<and> n < 2 ^ LENGTH('w)"
proof
  assume l: "length l = k \<and> unat (from_be_bytes l :: 'w word) = n"
  then have "l = to_be_bytes (from_be_bytes l :: 'w word)"
    using to_be_from_be [of l, where ?'w = 'w] assms by simp
  also have "(from_be_bytes l :: 'w word) = of_nat n"
    using l by auto
  finally show "l = to_be_bytes (of_nat n :: 'w word) \<and> n < 2 ^ LENGTH('w)"
    using l unsigned_less [of "from_be_bytes l :: 'w word", where ?'a = nat] by auto
next
  assume "l = to_be_bytes (of_nat n :: 'w word) \<and> n < 2 ^ LENGTH('w)"
  then show "length l = k \<and> unat (from_be_bytes l :: 'w word) = n"
    using assms by (simp add: unat_of_nat)
qed

lemma take_len16_Some: "take_len16 p = Some (a, r) \<longleftrightarrow> p = len16 a @ a @ r \<and> length a < 2 ^ 16"
proof -
  have "take_len16 p = Some (a, r) \<longleftrightarrow> (\<exists>l. p = l @ a @ r \<and> length l = 2 \<and> unat (from_be_bytes l :: u16) = length a)"
    unfolding take_len16_def by (auto simp: take_n_Some split: option.splits) (auto simp: take_n_def split: if_splits)
  also have "\<dots> \<longleftrightarrow> p = len16 a @ a @ r \<and> length a < 2 ^ 16"
    using octets_of_word [where ?'w = 16 and k = 2 and n = "length a"] by (auto simp: len16_def)
  finally show ?thesis .
qed

lemma take_len32_Some: "take_len32 p = Some (a, r) \<longleftrightarrow> p = to_be_bytes (of_nat (length a) :: u32) @ a @ r \<and> length a < 2 ^ 32"
proof -
  have "take_len32 p = Some (a, r) \<longleftrightarrow> (\<exists>l. p = l @ a @ r \<and> length l = 4 \<and> unat (from_be_bytes l :: u32) = length a)"
    unfolding take_len32_def by (auto simp: take_n_Some split: option.splits) (auto simp: take_n_def split: if_splits)
  also have "\<dots> \<longleftrightarrow> p = to_be_bytes (of_nat (length a) :: u32) @ a @ r \<and> length a < 2 ^ 32"
    using octets_of_word [where ?'w = 32 and k = 4 and n = "length a"] by auto
  finally show ?thesis .
qed

lemma u64_octets: "length l = 8 \<and> (from_be_bytes l :: u64) = w \<longleftrightarrow> l = to_be_bytes w"
  using to_be_from_be [of l, where ?'w = 64] by auto

lemma take_segs_Some:
  "take_segs c p = Some (ss, r) \<longleftrightarrow> p = encode_segs ss @ r \<and> length ss = c \<and> (\<forall>(pre, off, n) \<in> set ss. length pre < 2 ^ 16)"
proof (induction c arbitrary: p ss)
  case 0
  then show ?case
    by (auto simp: encode_segs_def)
next
  case (Suc c)
  have "take_segs (Suc c) p = Some (ss, r) \<longleftrightarrow>
     (\<exists>pre p1 l1 p2 l2 p3 ss'. take_len16 p = Some (pre, p1) \<and> take_n 8 p1 = Some (l1, p2) \<and> take_n 8 p2 = Some (l2, p3) \<and>
        take_segs c p3 = Some (ss', r) \<and> ss = (pre, from_be_bytes l1, from_be_bytes l2) # ss')"
    by (auto split: option.splits)
  also have "\<dots> \<longleftrightarrow> (\<exists>pre off n ss'. ss = (pre, off, n) # ss' \<and> length pre < 2 ^ 16 \<and>
      p = len16 pre @ pre @ to_be_bytes off @ to_be_bytes n @ encode_segs ss' @ r \<and> length ss' = c \<and>
      (\<forall>(pre, off, n) \<in> set ss'. length pre < 2 ^ 16))"
    unfolding take_len16_Some take_n_Some Suc.IH
  proof (intro iffI; elim exE conjE)
    fix pre p1 l1 p2 l2 p3 ss'
    assume "p = len16 pre @ pre @ p1" "length pre < 2 ^ 16" "p1 = l1 @ p2" "length l1 = 8" "p2 = l2 @ p3" "length l2 = 8"
      "p3 = encode_segs ss' @ r" "length ss' = c" "\<forall>(pre, off, n) \<in> set ss'. length pre < 2 ^ 16"
      "ss = (pre, from_be_bytes l1, from_be_bytes l2) # ss'"
    then show "\<exists>pre off n ss'. ss = (pre, off, n) # ss' \<and> length pre < 2 ^ 16 \<and>
        p = len16 pre @ pre @ to_be_bytes off @ to_be_bytes n @ encode_segs ss' @ r \<and> length ss' = c \<and>
        (\<forall>(pre, off, n) \<in> set ss'. length pre < 2 ^ 16)"
      using u64_octets [of l1 "from_be_bytes l1"] u64_octets [of l2 "from_be_bytes l2"]
      by (rule_tac exI [of _ pre], rule_tac exI [of _ "from_be_bytes l1"], rule_tac exI [of _ "from_be_bytes l2"], rule_tac exI [of _ ss']) simp
  next
    fix pre off n ss'
    assume "ss = (pre, off, n) # ss'" "length pre < 2 ^ 16"
      "p = len16 pre @ pre @ to_be_bytes off @ to_be_bytes n @ encode_segs ss' @ r" "length ss' = c"
      "\<forall>(pre, off, n) \<in> set ss'. length pre < 2 ^ 16"
    then show "\<exists>pre p1 l1 p2 l2 p3 ss'. (p = len16 pre @ pre @ p1 \<and> length pre < 2 ^ 16) \<and> (p1 = l1 @ p2 \<and> length l1 = 8) \<and>
        (p2 = l2 @ p3 \<and> length l2 = 8) \<and>
        (p3 = encode_segs ss' @ r \<and> length ss' = c \<and> (\<forall>(pre, off, n) \<in> set ss'. length pre < 2 ^ 16)) \<and>
        ss = (pre, from_be_bytes l1, from_be_bytes l2) # ss'"
      apply (rule_tac exI [of _ pre], rule_tac exI [of _ "to_be_bytes off @ to_be_bytes n @ encode_segs ss' @ r"])
      apply (rule_tac exI [of _ "to_be_bytes off"], rule_tac exI [of _ "to_be_bytes n @ encode_segs ss' @ r"])
      apply (rule_tac exI [of _ "to_be_bytes n"], rule_tac exI [of _ "encode_segs ss' @ r"], rule_tac exI [of _ ss'])
      apply simp
      done
  qed
  also have "\<dots> \<longleftrightarrow> p = encode_segs ss @ r \<and> length ss = Suc c \<and> (\<forall>(pre, off, n) \<in> set ss. length pre < 2 ^ 16)"
    by (cases ss) (auto simp: encode_segs_def)
  finally show ?case .
qed

lemma parse_parts_Some:
  "parse_plan (4 # p) = Some (Parts head tail ss) \<longleftrightarrow> 4 # p = encode_plan (Parts head tail ss) \<and> plan_small (Parts head tail ss)"
proof -
  have "parse_plan (4 # p) = Some (Parts head tail ss) \<longleftrightarrow>
      (\<exists>p1 p2 l p3. take_len32 p = Some (head, p1) \<and> take_len16 p1 = Some (tail, p2) \<and> take_n 2 p2 = Some (l, p3) \<and>
         take_segs (unat (from_be_bytes l :: u16)) p3 = Some (ss, []))"
    by (auto simp: parse_plan_def split: option.splits if_splits)
  also have "\<dots> \<longleftrightarrow> (\<exists>l. p = to_be_bytes (of_nat (length head) :: u32) @ head @ len16 tail @ tail @ l @ encode_segs ss \<and>
      length head < 2 ^ 32 \<and> length tail < 2 ^ 16 \<and> (length l = 2 \<and> unat (from_be_bytes l :: u16) = length ss) \<and>
      (\<forall>(pre, off, n) \<in> set ss. length pre < 2 ^ 16))"
    unfolding take_len32_Some take_len16_Some take_n_Some take_segs_Some by auto
  also have "\<dots> \<longleftrightarrow> 4 # p = encode_plan (Parts head tail ss) \<and> plan_small (Parts head tail ss)"
    using octets_of_word [where ?'w = 16 and k = 2 and n = "length ss"] by auto
  finally show ?thesis .
qed

text \<open>
  C32: The plan decoder accepts exactly the encodings of plans: an output of the decision is read as a plan if and only if
  it is that plan's encoding, so no output has two readings, no length prefix is trusted beyond the bytes that
  follow it, and trailing bytes are refused.
\<close>

theorem parse_plan_exact:
  "parse_plan bs = Some p \<longleftrightarrow> bs = encode_plan p \<and> plan_small p"
proof (cases p)
  case (Window off n head)
  have "parse_plan bs = Some p \<longleftrightarrow> (\<exists>l1 l2. bs = 3 # l1 @ l2 @ head \<and> (length l1 = 8 \<and> from_be_bytes l1 = off) \<and> (length l2 = 8 \<and> from_be_bytes l2 = n))"
  proof
    assume "parse_plan bs = Some p"
    then obtain rest where rest: "bs = 3 # rest" "16 \<le> length rest" "off = from_be_bytes (take 8 rest)"
       "n = from_be_bytes (take 8 (drop 8 rest))" "head = drop 16 rest"
      using Window by (auto simp: parse_plan_def split: list.splits if_splits option.splits prod.splits)
    have "take 8 (drop 8 rest) @ head = drop 8 rest"
      using append_take_drop_id [of 8 "drop 8 rest"] rest(5) by simp
    then have "rest = take 8 rest @ take 8 (drop 8 rest) @ head"
      by simp
    then show "\<exists>l1 l2. bs = 3 # l1 @ l2 @ head \<and> (length l1 = 8 \<and> from_be_bytes l1 = off) \<and> (length l2 = 8 \<and> from_be_bytes l2 = n)"
      using rest by (rule_tac exI [of _ "take 8 rest"], rule_tac exI [of _ "take 8 (drop 8 rest)"]) simp
  qed (auto simp: parse_plan_def Window)
  then show ?thesis
    unfolding u64_octets by (simp add: Window)
next
  case (Parts head tail ss)
  show ?thesis
  proof (cases "\<exists>q. bs = 4 # q")
    case True
    then show ?thesis
      using parse_parts_Some Parts by auto
  next
    case False
    then show ?thesis
      using Parts by (auto simp: parse_plan_def split: list.splits if_splits)
  qed
qed (auto simp: parse_plan_def split: list.splits if_splits option.splits prod.splits)

end
