(* ===== verification/Calendar.thy ===== *)
theory Calendar
  imports Bytes
begin

text \<open>
  Civil dates and Unix days: \<open>civil_from_days\<close> of \<^verbatim>\<open>access_log.rs\<close>, which stamps log lines, and
  \<open>days_from_civil\<close> of \<^verbatim>\<open>renewal.rs\<close>, which reads certificate times. Both are checked against the rule of the
  Gregorian calendar, written down as the date that follows a date. Rust's division of 64-bit integers truncates.
\<close>

section \<open>The two conversions\<close>

text \<open>Division that truncates towards zero, by a positive constant.\<close>

definition tdiv :: "int \<Rightarrow> int \<Rightarrow> int" where
  "tdiv a b = (if 0 \<le> a then a div b else - ((- a) div b))"

definition civil_from_days :: "int \<Rightarrow> int \<times> int \<times> int" where
  "civil_from_days z =
     (let z = z + 719468;
          era = tdiv (if 0 \<le> z then z else z - 146096) 146097;
          doe = z - era * 146097;
          yoe = tdiv (doe - tdiv doe 1460 + tdiv doe 36524 - tdiv doe 146096) 365;
          y = yoe + era * 400;
          doy = doe - (365 * yoe + tdiv yoe 4 - tdiv yoe 100);
          mp = tdiv (5 * doy + 2) 153;
          d = doy - tdiv (153 * mp + 2) 5 + 1;
          m = (if mp < 10 then mp + 3 else mp - 9)
      in (y + (if m \<le> 2 then 1 else 0), m, d))"

definition days_from_civil :: "int \<Rightarrow> int \<Rightarrow> int \<Rightarrow> int" where
  "days_from_civil y m d =
     (let y = (if m \<le> 2 then y - 1 else y);
          era = tdiv (if 0 \<le> y then y else y - 399) 400;
          yoe = y - era * 400;
          doy = tdiv (153 * (if 2 < m then m - 3 else m + 9) + 2) 5 + d - 1;
          doe = yoe * 365 + tdiv yoe 4 - tdiv yoe 100 + doy
      in era * 146097 + doe - 719468)"

section \<open>The Gregorian calendar\<close>

definition leap_year :: "int \<Rightarrow> bool" where
  "leap_year y \<longleftrightarrow> y mod 4 = 0 \<and> (y mod 100 \<noteq> 0 \<or> y mod 400 = 0)"

definition days_in_month :: "int \<Rightarrow> int \<Rightarrow> int" where
  "days_in_month y m =
     (if m = 2 then (if leap_year y then 29 else 28) else if m \<in> {4, 6, 9, 11} then 30 else 31)"

fun valid_date :: "int \<times> int \<times> int \<Rightarrow> bool" where
  "valid_date (y, m, d) \<longleftrightarrow> 1 \<le> m \<and> m \<le> 12 \<and> 1 \<le> d \<and> d \<le> days_in_month y m"

fun next_day :: "int \<times> int \<times> int \<Rightarrow> int \<times> int \<times> int" where
  "next_day (y, m, d) =
     (if d < days_in_month y m then (y, m, d + 1) else if m < 12 then (y, m + 1, 1) else (y + 1, 1, 1))"

section \<open>Days of an era\<close>

text \<open>
  An era is 400 years from the first of March. The day of the era of year \<open>yoe\<close> and day \<open>doy\<close> of that year;
  the year has a day 365 when the February at its end has 29 days.
\<close>

definition long_year :: "int \<Rightarrow> bool" where
  "long_year yoe \<longleftrightarrow> leap_year (yoe + 1)"

definition day_of_era :: "int \<Rightarrow> int \<Rightarrow> int" where
  "day_of_era yoe doy = 365 * yoe + yoe div 4 - yoe div 100 + doy"

definition year_day_ok :: "int \<Rightarrow> int \<Rightarrow> bool" where
  "year_day_ok yoe doy \<longleftrightarrow> 0 \<le> yoe \<and> yoe < 400 \<and> 0 \<le> doy \<and> (doy \<le> 364 \<or> doy = 365 \<and> long_year yoe)"

text \<open>A year of the era as a century, a group of four years and a year of the group.\<close>

lemma year_split:
  assumes "0 \<le> (yoe :: int)" "yoe < 400"
  obtains c q r where "yoe = 100 * c + 4 * q + r" "0 \<le> c" "c \<le> 3" "0 \<le> q" "q \<le> 24" "0 \<le> r" "r \<le> 3"
proof
  show "yoe = 100 * (yoe div 100) + 4 * (yoe mod 100 div 4) + yoe mod 100 mod 4"
    by simp
  have "0 \<le> yoe mod 100" "yoe mod 100 < 100" "0 \<le> yoe mod 100 mod 4" "yoe mod 100 mod 4 < 4"
    by simp_all
  then show "0 \<le> yoe mod 100 div 4" "yoe mod 100 div 4 \<le> 24" "0 \<le> yoe mod 100 mod 4" "yoe mod 100 mod 4 \<le> 3"
    by linarith+
qed (use assms in linarith)+

lemma day_of_era_split:
  assumes "(yoe :: int) = 100 * c + 4 * q + r" "0 \<le> c" "c \<le> 3" "0 \<le> q" "q \<le> 24" "0 \<le> r" "r \<le> 3"
  shows "day_of_era yoe doy = 36524 * c + 1461 * q + 365 * r + doy"
    and "long_year yoe \<longleftrightarrow> r = 3 \<and> (q = 24 \<longrightarrow> c = 3)"
proof -
  have "yoe div 4 = 25 * c + q" "yoe div 100 = c"
    by (rule int_div_pos_eq [of _ _ _ r] int_div_pos_eq [of _ _ _ "4 * q + r"]; use assms in simp)+
  then show "day_of_era yoe doy = 36524 * c + 1461 * q + 365 * r + doy"
    by (simp add: day_of_era_def assms(1))
  have "(yoe + 1) mod 4 = (if r = 3 then 0 else r + 1)"
    by (rule int_mod_pos_eq [of _ _ "if r = 3 then 25 * c + q + 1 else 25 * c + q"]; use assms in simp)
  moreover have "(yoe + 1) mod 100 = (if q = 24 \<and> r = 3 then 0 else 4 * q + r + 1)"
    by (rule int_mod_pos_eq [of _ _ "if q = 24 \<and> r = 3 then c + 1 else c"]; use assms in auto)
  moreover have "(yoe + 1) mod 400 = (if c = 3 \<and> q = 24 \<and> r = 3 then 0 else yoe + 1)"
    by (rule int_mod_pos_eq [of _ _ "if c = 3 \<and> q = 24 \<and> r = 3 then 1 else 0"]; use assms in auto)
  ultimately show "long_year yoe \<longleftrightarrow> r = 3 \<and> (q = 24 \<longrightarrow> c = 3)"
    using assms by (auto simp: long_year_def leap_year_def)
qed

lemma day_of_era_bounds:
  assumes "year_day_ok yoe doy"
  shows "0 \<le> day_of_era yoe doy" "day_of_era yoe doy < 146097"
proof -
  obtain c q r where s: "yoe = 100 * c + 4 * q + r" "0 \<le> c" "c \<le> 3" "0 \<le> q" "q \<le> 24" "0 \<le> r" "r \<le> 3"
    using assms by (auto simp: year_day_ok_def elim: year_split)
  show "0 \<le> day_of_era yoe doy" "day_of_era yoe doy < 146097"
    unfolding day_of_era_split(1) [OF s] using assms s(2-) unfolding year_day_ok_def by linarith+
qed

text \<open>The closed formula for the year, and the day left over.\<close>

lemma year_of_day:
  assumes "year_day_ok yoe doy"
  shows "(day_of_era yoe doy - day_of_era yoe doy div 1460 + day_of_era yoe doy div 36524 - day_of_era yoe doy div 146096) div 365 = yoe"
proof -
  obtain c q r where s: "yoe = 100 * c + 4 * q + r" "0 \<le> c" "c \<le> 3" "0 \<le> q" "q \<le> 24" "0 \<le> r" "r \<le> 3"
    using assms by (auto simp: year_day_ok_def elim: year_split)
  define doe where "doe = day_of_era yoe doy"
  have doe: "doe = 36524 * c + 1461 * q + 365 * r + doy"
    unfolding doe_def by (rule day_of_era_split(1) [OF s])
  have doy: "0 \<le> doy" "doy \<le> 365" "doy = 365 \<Longrightarrow> r = 3" "doy = 365 \<Longrightarrow> q = 24 \<Longrightarrow> c = 3"
    using assms day_of_era_split(2) [OF s] by (auto simp: year_day_ok_def)
  define e where "e = (if 1460 \<le> 24 * c + q + 365 * r + doy then 1 else 0 :: int)"
  have "doe div 1460 = 25 * c + q + e"
  proof -
    have "doe = 1460 * (25 * c + q) + (24 * c + q + 365 * r + doy)"
      by (simp add: doe)
    moreover have "0 \<le> 24 * c + q + 365 * r + doy - 1460 * e" "24 * c + q + 365 * r + doy - 1460 * e < 1460"
      using s doy unfolding e_def by auto
    ultimately show ?thesis
      by (intro int_div_pos_eq [of _ _ _ "24 * c + q + 365 * r + doy - 1460 * e"]) simp_all
  qed
  moreover have "doe div 36524 - doe div 146096 = c"
  proof (cases "doe = 146096")
    case True
    then have "c = 3"
      using s doy doe by linarith
    then show ?thesis
      using True by simp
  next
    case False
    have "1461 * q + 365 * r + doy < 36524 \<or> c = 3 \<and> 1461 * q + 365 * r + doy = 36524"
      using s doy by (cases "q = 24"; cases "doy = 365"; simp; linarith)
    then have lt: "1461 * q + 365 * r + doy < 36524"
      using False doe by auto
    then have "doe div 36524 = c"
      by (intro int_div_pos_eq [of _ _ _ "1461 * q + 365 * r + doy"]) (use s doy doe in simp_all)
    moreover have "doe div 146096 = 0"
      using s doy doe lt by (intro div_pos_pos_trivial) linarith+
    ultimately show ?thesis
      by simp
  qed
  ultimately have "doe - doe div 1460 + doe div 36524 - doe div 146096 = 365 * yoe + (doy - e)"
    using doe s(1) by simp
  moreover have "0 \<le> doy - e" "doy - e < 365"
    using s(2-) doy(1,2) doy(3) by (cases "doy = 365"; simp add: e_def)+
  ultimately show ?thesis
    unfolding doe_def by (intro int_div_pos_eq [of _ _ _ "doy - e"]) simp_all
qed

lemma day_exists:
  assumes "0 \<le> doe" "doe < 146097"
  obtains yoe doy where "year_day_ok yoe doy" "doe = day_of_era yoe doy"
proof -
  define c where "c = min 3 (doe div 36524)"
  define a where "a = doe - 36524 * c"
  have c: "0 \<le> c" "c \<le> 3" "0 \<le> a" "a < 36524 \<or> c = 3 \<and> a = 36524"
    using assms unfolding c_def a_def by linarith+
  define q where "q = a div 1461"
  define b where "b = a - 1461 * q"
  have q: "0 \<le> q" "q \<le> 24" "0 \<le> b" "b \<le> 1460" "q = 24 \<and> b = 1460 \<Longrightarrow> c = 3"
    using c unfolding q_def b_def by linarith+
  define r where "r = min 3 (b div 365)"
  define doy where "doy = b - 365 * r"
  have r: "0 \<le> r" "r \<le> 3" "0 \<le> doy" "doy \<le> 364 \<or> doy = 365 \<and> r = 3 \<and> b = 1460"
    using q unfolding r_def doy_def by linarith+
  let ?yoe = "100 * c + 4 * q + r"
  note s = refl [of ?yoe] c(1,2) q(1,2) r(1,2)
  have "day_of_era ?yoe doy = doe"
    unfolding day_of_era_split(1) [OF s] by (simp add: doy_def b_def a_def)
  moreover have "year_day_ok ?yoe doy"
    unfolding year_day_ok_def day_of_era_split(2) [OF s] using c q r by auto
  ultimately show ?thesis
    using that by blast
qed

section \<open>Days of a year\<close>

text \<open>Month \<open>mp\<close>, counted from March, starts on this day of the year.\<close>

definition month_start :: "int \<Rightarrow> int" where
  "month_start mp = (153 * mp + 2) div 5"

lemma month_start_bounds: "5 * month_start mp \<le> 153 * mp + 2" "153 * mp + 2 < 5 * month_start mp + 5"
  unfolding month_start_def by linarith+

lemma month_of_day:
  assumes "month_start mp \<le> doy" "doy < month_start (mp + 1)"
  shows "(5 * doy + 2) div 153 = mp"
proof (rule int_div_pos_eq)
  show "5 * doy + 2 = 153 * mp + (5 * doy + 2 - 153 * mp)"
    by simp
  show "0 \<le> 5 * doy + 2 - 153 * mp"
    using assms(1) month_start_bounds(2) [of mp] by linarith
  have "5 * doy + 5 \<le> 5 * month_start (mp + 1)"
    using assms(2) by simp
  then have "5 * doy + 5 \<le> 153 * (mp + 1) + 2"
    using month_start_bounds(1) [of "mp + 1"] by (rule order_trans)
  then show "5 * doy + 2 - 153 * mp < 153"
    by simp
qed

lemma day_in_month:
  "month_start ((5 * doy + 2) div 153) \<le> doy" "doy < month_start ((5 * doy + 2) div 153 + 1)"
proof -
  define mp where "mp = (5 * doy + 2) div 153"
  have "153 * mp \<le> 5 * doy + 2" "5 * doy + 2 < 153 * mp + 153"
    unfolding mp_def by linarith+
  note mp = this
  show "month_start ((5 * doy + 2) div 153) \<le> doy"
    unfolding mp_def [symmetric] using mp(1) month_start_bounds(1) [of mp] by linarith
  have "153 * (mp + 1) + 2 < 5 * month_start (mp + 1) + 5"
    by (rule month_start_bounds(2))
  then have "5 * doy < 5 * month_start (mp + 1)"
    using mp(2) by simp
  then show "doy < month_start ((5 * doy + 2) div 153 + 1)"
    unfolding mp_def [symmetric] by simp
qed

lemma month_starts:
  "month_start 0 = 0" "month_start 1 = 31" "month_start 2 = 61" "month_start 3 = 92" "month_start 4 = 122"
  "month_start 5 = 153" "month_start 6 = 184" "month_start 7 = 214" "month_start 8 = 245" "month_start 9 = 275"
  "month_start 10 = 306" "month_start 11 = 337" "month_start 12 = 367"
  by (simp_all add: month_start_def)

text \<open>
  A date as an era, a year of the era, a month counted from March and a day of the year, and back.
\<close>

definition march_year :: "int \<Rightarrow> int \<Rightarrow> int" where
  "march_year y m = (if m \<le> 2 then y - 1 else y)"

definition march_month :: "int \<Rightarrow> int" where
  "march_month m = (if 2 < m then m - 3 else m + 9)"

lemma months_from_march:
  assumes "1 \<le> m" "m \<le> 12"
  shows "m \<in> {1, 2, 3, 4, 5, 6, 7, 8, 9, 10, 11, 12 :: int}"
  using assms by simp presburger

lemma long_march_year: "long_year (y mod 400) \<longleftrightarrow> leap_year (y + 1)"
proof -
  have "(y mod 400 + 1) mod 400 = (y + 1) mod 400"
    by (rule mod_add_left_eq)
  moreover have "x mod 4 = x mod 400 mod 4" "x mod 100 = x mod 400 mod 100" for x :: int
    by (simp_all add: mod_mod_cancel)
  ultimately show ?thesis
    unfolding long_year_def leap_year_def by metis
qed

lemma tdiv_pos [simp]: "0 \<le> a \<Longrightarrow> tdiv a b = a div b"
  by (simp add: tdiv_def)

lemma tdiv_floor:
  assumes "0 < b" "c = b - 1"
  shows "tdiv (if 0 \<le> a then a else a - c) b = a div b"
proof (cases "0 \<le> a")
  case False
  have "(b - 1 - a) div b = - (a div b)"
  proof (rule int_div_pos_eq)
    show "b - 1 - a = b * - (a div b) + (b - 1 - a mod b)"
      by (simp add: algebra_simps)
    show "0 \<le> b - 1 - a mod b" "b - 1 - a mod b < b"
      using assms pos_mod_bound [of b a] pos_mod_sign [of b a] by linarith+
  qed
  then show ?thesis
    using False assms by (simp add: tdiv_def)
qed simp

lemma days_from_civil_split:
  assumes "1 \<le> m" "m \<le> 12"
  shows "days_from_civil y m d =
    march_year y m div 400 * 146097
      + day_of_era (march_year y m mod 400) (month_start (march_month m) + d - 1) - 719468"
proof -
  have "tdiv (if 0 \<le> march_year y m then march_year y m else march_year y m - 399) 400 = march_year y m div 400"
    by (rule tdiv_floor) simp_all
  moreover have "march_year y m - march_year y m div 400 * 400 = march_year y m mod 400"
    by (simp add: minus_div_mult_eq_mod)
  moreover have "tdiv (153 * march_month m + 2) 5 = month_start (march_month m)"
    using assms by (simp add: march_month_def month_start_def)
  ultimately show ?thesis
    unfolding days_from_civil_def march_year_def [symmetric] march_month_def [symmetric] Let_def day_of_era_def
    by simp
qed

lemma civil_from_days_split:
  assumes "year_day_ok yoe doy"
  shows "civil_from_days (era * 146097 + day_of_era yoe doy - 719468) =
    (let mp = (5 * doy + 2) div 153; m = (if mp < 10 then mp + 3 else mp - 9)
     in (yoe + era * 400 + (if m \<le> 2 then 1 else 0), m, doy - month_start mp + 1))"
proof -
  let ?doe = "day_of_era yoe doy"
  note b = day_of_era_bounds [OF assms]
  have ge: "0 \<le> yoe" "0 \<le> doy"
    using assms by (auto simp: year_day_ok_def)
  have era: "tdiv (if 0 \<le> era * 146097 + ?doe then era * 146097 + ?doe else era * 146097 + ?doe - 146096) 146097 = era"
    using b by (subst tdiv_floor) simp_all
  have "0 \<le> ?doe - ?doe div 1460 + ?doe div 36524 - ?doe div 146096"
    using b by linarith
  then have yoe: "tdiv (?doe - tdiv ?doe 1460 + tdiv ?doe 36524 - tdiv ?doe 146096) 365 = yoe"
    using b year_of_day [OF assms] by simp
  have doy: "?doe - (365 * yoe + tdiv yoe 4 - tdiv yoe 100) = doy"
    using ge by (simp add: day_of_era_def)
  have mp: "tdiv (5 * doy + 2) 153 = (5 * doy + 2) div 153"
    using ge by simp
  have start: "tdiv (153 * ((5 * doy + 2) div 153) + 2) 5 = month_start ((5 * doy + 2) div 153)"
    using ge by (simp add: month_start_def pos_imp_zdiv_nonneg_iff)
  have z: "era * 146097 + ?doe - 719468 + 719468 = era * 146097 + ?doe"
    and z': "era * 146097 + ?doe - era * 146097 = ?doe"
    by simp_all
  show ?thesis
    unfolding civil_from_days_def Let_def z era z' yoe doy mp start ..
qed

section \<open>The conversions are the calendar\<close>

lemma valid_date_year_day:
  assumes "valid_date (y, m, d)"
  shows "year_day_ok (march_year y m mod 400) (month_start (march_month m) + d - 1)"
    and "month_start (march_month m) + d - 1 < month_start (march_month m + 1)"
proof -
  have m: "1 \<le> m" "m \<le> 12" and d: "1 \<le> d" "d \<le> days_in_month y m"
    using assms by auto
  have long: "m = 2 \<Longrightarrow> long_year (march_year y m mod 400) \<longleftrightarrow> leap_year y"
    unfolding long_march_year by (simp add: march_year_def)
  show "month_start (march_month m) + d - 1 < month_start (march_month m + 1)"
    using months_from_march [OF m] d
    by (auto simp: march_month_def month_starts days_in_month_def split: if_splits)
  show "year_day_ok (march_year y m mod 400) (month_start (march_month m) + d - 1)"
    using months_from_march [OF m] d long
    by (auto simp: year_day_ok_def march_month_def month_starts days_in_month_def split: if_splits)
qed

lemma civil_days_inverse:
  assumes "valid_date (y, m, d)"
  shows "civil_from_days (days_from_civil y m d) = (y, m, d)"
proof -
  have m: "1 \<le> m" "m \<le> 12"
    using assms by auto
  note ok = valid_date_year_day [OF assms]
  have mp: "(5 * (month_start (march_month m) + d - 1) + 2) div 153 = march_month m"
    by (rule month_of_day) (use ok(2) assms in auto)
  have month: "(if march_month m < 10 then march_month m + 3 else march_month m - 9) = m"
    using m by (simp add: march_month_def)
  have "march_year y m mod 400 + march_year y m div 400 * 400 = march_year y m"
    by (rule mod_div_mult_eq)
  moreover have "march_year y m + (if m \<le> 2 then 1 else 0) = y"
    by (simp add: march_year_def)
  ultimately show ?thesis
    unfolding days_from_civil_split [OF m] civil_from_days_split [OF ok(1)] mp Let_def month by simp
qed

lemma days_of_some_date:
  obtains y m d where "valid_date (y, m, d)" "z = days_from_civil y m d"
proof -
  define era where "era = (z + 719468) div 146097"
  obtain yoe doy where ok: "year_day_ok yoe doy" and doe: "(z + 719468) mod 146097 = day_of_era yoe doy"
    by (rule day_exists [of "(z + 719468) mod 146097"]) simp_all
  define mp where "mp = (5 * doy + 2) div 153"
  define m where "m = (if mp < 10 then mp + 3 else mp - 9)"
  define y where "y = yoe + era * 400 + (if m \<le> 2 then 1 else 0)"
  define d where "d = doy - month_start mp + 1"
  have range: "0 \<le> yoe" "yoe < 400" "0 \<le> doy" "doy \<le> 365" "doy = 365 \<Longrightarrow> long_year yoe"
    using ok by (auto simp: year_day_ok_def)
  have "0 \<le> mp" "mp < 12"
    using range unfolding mp_def by linarith+
  then have mp: "mp \<in> {0, 1, 2, 3, 4, 5, 6, 7, 8, 9, 10, 11}"
    by simp presburger
  have m: "1 \<le> m" "m \<le> 12" "march_month m = mp"
    using \<open>0 \<le> mp\<close> \<open>mp < 12\<close> by (auto simp: m_def march_month_def)
  have my: "march_year y m = yoe + era * 400"
    by (simp add: march_year_def y_def)
  have "doy \<le> 364 \<or> m \<noteq> 2 \<or> leap_year y"
    using ok long_march_year [of "yoe + era * 400"] by (auto simp: y_def year_day_ok_def)
  then have "valid_date (y, m, d)"
    using m mp day_in_month [of doy] range(4) unfolding mp_def [symmetric]
    by (auto simp: d_def m_def month_starts days_in_month_def split: if_splits)
  moreover have "z = days_from_civil y m d"
  proof -
    have "era * 146097 + day_of_era yoe doy = z + 719468"
      unfolding era_def doe [symmetric] by (rule div_mult_mod_eq)
    then show ?thesis
      unfolding days_from_civil_split [OF m(1,2)] my m(3) using range by (simp add: d_def)
  qed
  ultimately show ?thesis
    using that by blast
qed

lemma valid_next_day: "valid_date dt \<Longrightarrow> valid_date (next_day dt)"
  by (cases dt) (auto simp: days_in_month_def split: if_splits)

lemma div_mod_suc:
  fixes y b :: int
  assumes "0 < b"
  shows "(y + 1) div b = (if y mod b = b - 1 then y div b + 1 else y div b)"
    and "(y + 1) mod b = (if y mod b = b - 1 then 0 else y mod b + 1)"
proof -
  have y: "y = b * (y div b) + y mod b"
    by simp
  have bound: "0 \<le> y mod b" "y mod b < b"
    using assms by simp_all
  have eq: "y + 1 = b * (if y mod b = b - 1 then y div b + 1 else y div b)
      + (if y mod b = b - 1 then 0 else y mod b + 1)"
  proof (cases "y mod b = b - 1")
    case True
    have "y + 1 = b * (y div b) + (y mod b + 1)"
      using y by linarith
    then show ?thesis
      using True by (simp add: algebra_simps)
  qed simp
  show "(y + 1) div b = (if y mod b = b - 1 then y div b + 1 else y div b)"
    using eq by (rule int_div_pos_eq) (use bound in auto)
  show "(y + 1) mod b = (if y mod b = b - 1 then 0 else y mod b + 1)"
    using eq by (rule int_mod_pos_eq) (use bound in auto)
qed

lemma day_of_era_next_year:
  assumes "\<not> year_day_ok (y mod 400) (doy + 1)" "year_day_ok (y mod 400) doy"
  shows "y div 400 * 146097 + day_of_era (y mod 400) doy + 1
    = (y + 1) div 400 * 146097 + day_of_era ((y + 1) mod 400) 0"
proof -
  obtain c q r where s: "y mod 400 = 100 * c + 4 * q + r" "0 \<le> c" "c \<le> 3" "0 \<le> q" "q \<le> 24" "0 \<le> r" "r \<le> 3"
    by (rule year_split [of "y mod 400"]) simp_all
  show ?thesis
  proof (cases "y mod 400 = 399")
    case True
    then have "c = 3" "q = 24" "r = 3"
      using s by linarith+
    then have "doy = 365"
      using assms day_of_era_split(2) [OF s] by (auto simp: year_day_ok_def)
    moreover have "(y + 1) div 400 = y div 400 + 1" "(y + 1) mod 400 = 0"
      using True by (simp_all add: div_mod_suc)
    ultimately show ?thesis
      using True by (simp add: day_of_era_def)
  next
    case False
    have "y mod 400 < 399"
      using False pos_mod_bound [of 400 y] by linarith
    then have nx: "(y + 1) div 400 = y div 400" "(y + 1) mod 400 = y mod 400 + 1"
      by (simp_all add: div_mod_suc)
    have doy: "doy = (if r = 3 \<and> (q = 24 \<longrightarrow> c = 3) then 365 else 364)"
      using assms day_of_era_split(2) [OF s] by (auto simp: year_day_ok_def)
    have e: "day_of_era (y mod 400) doy = 36524 * c + 1461 * q + 365 * r + doy"
      by (rule day_of_era_split(1) [OF s])
    have "day_of_era (y mod 400) doy + 1 = day_of_era (y mod 400 + 1) 0"
    proof (cases "r = 3")
      case False
      then have "day_of_era (y mod 400 + 1) 0 = 36524 * c + 1461 * q + 365 * (r + 1) + 0"
        by (intro day_of_era_split(1)) (use s in simp_all)
      then show ?thesis
        using e doy False by simp
    next
      case r: True
      show ?thesis
      proof (cases "q = 24")
        case False
        then have "day_of_era (y mod 400 + 1) 0 = 36524 * c + 1461 * (q + 1) + 365 * 0 + 0"
          by (intro day_of_era_split(1)) (use s r in simp_all)
        then show ?thesis
          using e doy r False by simp
      next
        case q: True
        then have "c < 3"
          using s r \<open>y mod 400 < 399\<close> by simp
        then have "day_of_era (y mod 400 + 1) 0 = 36524 * (c + 1) + 1461 * 0 + 365 * 0 + 0"
          by (intro day_of_era_split(1)) (use s r q in simp_all)
        then show ?thesis
          using e doy r q \<open>c < 3\<close> by simp
      qed
    qed
    then show ?thesis
      by (simp add: nx)
  qed
qed

lemma days_next_day:
  assumes "valid_date (y, m, d)" "next_day (y, m, d) = (y', m', d')"
  shows "days_from_civil y' m' d' = days_from_civil y m d + 1"
proof -
  have m: "1 \<le> m" "m \<le> 12" and d: "1 \<le> d" "d \<le> days_in_month y m"
    using assms(1) by auto
  have ok: "year_day_ok (march_year y m mod 400) (month_start (march_month m) + d - 1)"
    by (rule valid_date_year_day(1) [OF assms(1)])
  have m': "1 \<le> m'" "m' \<le> 12"
    using valid_next_day [OF assms(1)] assms(2) by auto
  note split = days_from_civil_split [OF m] days_from_civil_split [OF m']
  consider "d < days_in_month y m" | "d = days_in_month y m" "m \<noteq> 2" | "d = days_in_month y m" "m = 2"
    using d by linarith
  then show ?thesis
  proof cases
    case 1
    then show ?thesis
      using assms(2) by (auto simp: split day_of_era_def)
  next
    case 2
    have "march_year y' m' = march_year y m"
      "month_start (march_month m') = month_start (march_month m) + d" "d' = 1"
      using assms(2) 2 months_from_march [OF m]
      by (auto simp: march_year_def march_month_def month_starts days_in_month_def split: if_splits)
    then show ?thesis
      by (simp add: split day_of_era_def)
  next
    case 3
    have nx: "y' = y" "m' = 3" "d' = 1"
      using assms(2) 3 by auto
    have my: "march_year y' m' = march_year y m + 1" "month_start (march_month m') + d' - 1 = 0"
      by (simp_all add: nx 3 march_year_def march_month_def month_starts)
    have "\<not> year_day_ok (march_year y m mod 400) (month_start (march_month m) + d - 1 + 1)"
      using 3 long_march_year [of "march_year y m"]
      by (auto simp: year_day_ok_def march_month_def march_year_def month_starts days_in_month_def)
    from day_of_era_next_year [OF this ok] show ?thesis
      by (simp only: split my)
  qed
qed

text \<open>
  C36: The two conversions are the Gregorian calendar. Day 0 is the first of January 1970; every day number has a
  valid date; the date of the next day is the day after it in the calendar, month lengths and leap years
  included; \<open>days_from_civil\<close> gives the day number back, and for every valid date \<open>civil_from_days\<close> gives
  the date back. So the two modules agree on every date, also before 1970.
\<close>

theorem civil_days_are_the_calendar:
  "civil_from_days 0 = (1970, 1, 1) \<and>
   (\<forall>z. valid_date (civil_from_days z) \<and> civil_from_days (z + 1) = next_day (civil_from_days z) \<and>
        (\<exists>y m d. civil_from_days z = (y, m, d) \<and> days_from_civil y m d = z)) \<and>
   (\<forall>y m d. valid_date (y, m, d) \<longrightarrow> civil_from_days (days_from_civil y m d) = (y, m, d))"
proof (intro conjI allI impI)
  show "civil_from_days 0 = (1970, 1, 1)"
    by code_simp
  show "civil_from_days (days_from_civil y m d) = (y, m, d)" if "valid_date (y, m, d)" for y m d
    using that by (rule civil_days_inverse)
  fix z
  obtain y m d where date: "valid_date (y, m, d)" "z = days_from_civil y m d"
    by (rule days_of_some_date)
  then have c: "civil_from_days z = (y, m, d)"
    by (simp add: civil_days_inverse)
  then show "valid_date (civil_from_days z)"
    "\<exists>y m d. civil_from_days z = (y, m, d) \<and> days_from_civil y m d = z"
    using date by auto
  obtain y' m' d' where nx: "next_day (y, m, d) = (y', m', d')"
    by (cases "next_day (y, m, d)") auto
  have "civil_from_days (days_from_civil y' m' d') = (y', m', d')"
    using valid_next_day [OF date(1)] unfolding nx by (rule civil_days_inverse)
  then show "civil_from_days (z + 1) = next_day (civil_from_days z)"
    using days_next_day [OF date(1) nx] date(2) unfolding c nx by simp
qed

theorem civil_days_are_the_calendar_witness:
  "civil_from_days (days_from_civil 2000 2 29) = (2000, 2, 29) \<and> next_day (2000, 2, 29) = (2000, 3, 1)"
proof
  have "valid_date (2000, 2, 29) \<longrightarrow> civil_from_days (days_from_civil 2000 2 29) = (2000, 2, 29)"
    using civil_days_are_the_calendar by blast
  then show "civil_from_days (days_from_civil 2000 2 29) = (2000, 2, 29)"
    by (simp add: days_in_month_def leap_year_def)
qed (simp add: days_in_month_def leap_year_def)

end
