(* ===== verification/Formatting.thy ===== *)
theory Formatting
  imports Bytes
begin

text \<open>
  What the source uses of Rust's \<open>format!\<close>: decimal and lower-case hexadecimal numbers padded with zeros, and
  the fact that text joined by a separator is split back into its parts.
\<close>

section \<open>Padded numbers\<close>

definition pad_left :: "nat \<Rightarrow> bytes \<Rightarrow> bytes" where
  "pad_left w s = replicate (w - length s) 48 @ s"

definition pad_dec :: "nat \<Rightarrow> nat \<Rightarrow> bytes" where
  "pad_dec w n = pad_left w (dec_digits n)"

definition hex_char :: "nat \<Rightarrow> byte" where
  "hex_char d = (if d < 10 then of_nat (48 + d) else of_nat (87 + d))"

fun hex_digits :: "nat \<Rightarrow> bytes" where
  "hex_digits n = (if n < 16 then [hex_char n] else hex_digits (n div 16) @ [hex_char (n mod 16)])"

declare hex_digits.simps [simp del]

definition pad_hex :: "nat \<Rightarrow> nat \<Rightarrow> bytes" where
  "pad_hex w n = pad_left w (hex_digits n)"

lemma length_pad_left [simp]: "length (pad_left w s) = max w (length s)"
  by (auto simp: pad_left_def)

lemma set_pad_left: "set (pad_left w s) \<subseteq> insert 48 (set s)"
  by (auto simp: pad_left_def)

lemma dec_value_zeros: "dec_value 0 (replicate k 48 @ s) = dec_value 0 s"
  by (induction k) (auto simp: is_ascii_digit_def)

lemma dec_value_pad_dec [simp]: "dec_value 0 (pad_dec w n) = Some n"
  by (simp add: pad_dec_def pad_left_def dec_value_zeros dec_value_dec_digits)

lemma pad_dec_digits: "b \<in> set (pad_dec w n) \<Longrightarrow> is_ascii_digit b"
  using set_pad_left [of w "dec_digits n"] dec_digits_are_digits [of b n]
  by (auto simp: pad_dec_def is_ascii_digit_def)

lemma length_dec_digits: "length (dec_digits n) \<le> w \<longleftrightarrow> n < 10 ^ w \<or> n = 0 \<and> w \<noteq> 0" if "0 < w"
  using that
proof (induction n arbitrary: w rule: dec_digits.induct)
  case (1 n)
  show ?case
  proof (cases "n < 10")
    case True
    moreover have "(10 :: nat) \<le> 10 ^ w"
      using "1.prems" by (cases w) auto
    ultimately show ?thesis
      using "1.prems" by (subst dec_digits.simps) auto
  next
    case False
    obtain v where w: "w = Suc v"
      using "1.prems" by (cases w) auto
    have "length (dec_digits n) \<le> w \<longleftrightarrow> length (dec_digits (n div 10)) \<le> v"
      using False w by (subst dec_digits.simps) simp
    also have "\<dots> \<longleftrightarrow> n < 10 ^ w"
    proof (cases "v = 0")
      case True
      then show ?thesis
        using False w dec_digits_not_Nil [of "n div 10"] by simp
    next
      case v: False
      have "n div 10 \<noteq> 0"
        using False by simp
      then have "length (dec_digits (n div 10)) \<le> v \<longleftrightarrow> n div 10 < 10 ^ v"
        using "1.IH" [of v] v False by simp
      also have "\<dots> \<longleftrightarrow> n < 10 ^ w"
        using w by (simp add: div_less_iff_less_mult mult.commute)
      finally show ?thesis .
    qed
    finally show ?thesis
      using False by auto
  qed
qed

lemma length_pad_dec [simp]: "0 < w \<Longrightarrow> n < 10 ^ w \<Longrightarrow> length (pad_dec w n) = w"
  using length_dec_digits [of w n] by (simp add: pad_dec_def)

section \<open>Hexadecimal\<close>

lemma hex_char_ascii: "d < 16 \<Longrightarrow> 48 \<le> hex_char d \<and> hex_char d \<le> 102"
proof -
  assume "d < 16"
  then have "unat (hex_char d) = (if d < 10 then 48 + d else 87 + d)"
    by (auto simp: hex_char_def unat_of_nat simp del: of_nat_add)
  then show ?thesis
    using \<open>d < 16\<close> by (auto simp: word_le_nat_alt split: if_splits)
qed

lemma hex_digits_ascii: "b \<in> set (hex_digits n) \<Longrightarrow> 48 \<le> b \<and> b \<le> 102"
proof (induction n rule: hex_digits.induct)
  case (1 n)
  then show ?case
    using hex_char_ascii [of n] hex_char_ascii [of "n mod 16"]
    by (subst (asm) (2) hex_digits.simps) (auto split: if_splits)
qed

lemma pad_hex_ascii: "b \<in> set (pad_hex w n) \<Longrightarrow> 48 \<le> b \<and> b \<le> 102"
  using set_pad_left [of w "hex_digits n"] hex_digits_ascii [of b n] by (auto simp: pad_hex_def)

section \<open>Joined parts\<close>

lemma split_on_nosep: "\<forall>x \<in> set xs. \<not> p x \<Longrightarrow> split_on p xs = [xs]"
  by (induction xs) auto

lemma split_on_sep:
  assumes "\<forall>x \<in> set xs. \<not> p x" "p c"
  shows "split_on p (xs @ c # ys) = xs # split_on p ys"
  using assms by (induction xs) auto

lemma split_on_join_with:
  assumes "parts \<noteq> []" "\<forall>part \<in> set parts. \<forall>x \<in> set part. \<not> p x" "p c"
  shows "split_on p (join_with [c] parts) = parts"
  using assms
proof (induction "[c]" parts rule: join_with.induct)
  case (3 x y ys)
  then show ?case
    using split_on_sep [of x p c] by simp
qed (simp_all add: split_on_nosep)

lemma set_join_with: "set (join_with sep parts) \<subseteq> set sep \<union> (\<Union> (set ` set parts))"
  by (induction sep parts rule: join_with.induct) auto

end
