(* ===== verification/Access_Log.thy ===== *)
theory Access_Log
  imports Calendar Formatting Http
begin

text \<open>
  The access log (\<^verbatim>\<open>access_log.rs\<close>) and the facts of a TLS connection it appends
  (\<open>TlsInfo\<close> in \<^verbatim>\<open>tls.rs\<close>). A call is modelled by the write it makes, a sink and a line, or \<open>None\<close>.
  The text of a client address is an argument, as is the wall clock.
\<close>

section \<open>Fields of a request and of a response\<close>

record req_line =
  req_method :: bytes
  req_path :: bytes

text \<open>\<open>char::is_control\<close> on the UTF-8 bytes of a character: the C0 and C1 control codes and DEL.\<close>

definition is_control_char :: "bytes \<Rightarrow> bool" where
  "is_control_char c =
     (case c of
        [b] \<Rightarrow> b < 32 \<or> b = 127
      | [a, b] \<Rightarrow> a = 194 \<and> 128 \<le> b \<and> b \<le> 159
      | _ \<Rightarrow> False)"

definition SANITIZE_CAP :: nat where "SANITIZE_CAP = 2048"

text \<open>A string is valid UTF-8, so the first case does not arise.\<close>

definition sanitize :: "bytes \<Rightarrow> bytes" where
  "sanitize s =
     (case utf8_chars s of
        None \<Rightarrow> []
      | Some cs \<Rightarrow>
          concat (map (\<lambda>c. if is_control_char c \<or> c = [SP] then [95] else c) (take SANITIZE_CAP cs))
          @ (if SANITIZE_CAP < length cs then [226, 128, 166] else []))"

definition DASH :: bytes where "DASH = [45]"

definition req_line_parse :: "bytes \<Rightarrow> req_line" where
  "req_line_parse req =
     (let line = strip_cr (hd (split_on (\<lambda>b. b = LF) req));
          it = filter (\<lambda>s. s \<noteq> []) (split_on (\<lambda>b. b = SP) line);
          dec = (\<lambda>i. if i < length it \<and> utf8_valid (it ! i) then sanitize (it ! i) else DASH)
      in \<lparr> req_method = dec 0, req_path = dec 1 \<rparr>)"

definition status_of :: "bytes \<Rightarrow> bytes" where
  "status_of resp =
     (let start = hd (split_on (\<lambda>b. b = CR) resp) in
      case position (\<lambda>b. b = SP) start of
        None \<Rightarrow> DASH
      | Some sp \<Rightarrow>
          (let code = hd (split_on (\<lambda>b. b = SP) (drop (Suc sp) start)) in
           if length code = 3 \<and> list_all is_ascii_digit code then code else DASH))"

section \<open>Time stamps\<close>

definition iso8601 :: "nat \<Rightarrow> nat \<Rightarrow> bytes" where
  "iso8601 secs micros =
     (case civil_from_days (int (secs div 86400)) of
        (y, m, d) \<Rightarrow>
          (let sod = secs mod 86400 in
           pad_dec 4 (nat y) @ DASH @ pad_dec 2 (nat m) @ DASH @ pad_dec 2 (nat d) @ ascii ''T''
           @ pad_dec 2 (sod div 3600) @ ascii '':'' @ pad_dec 2 (sod mod 3600 div 60) @ ascii '':'' @ pad_dec 2 (sod mod 60)
           @ ascii ''.'' @ pad_dec 6 micros @ ascii ''Z''))"

section \<open>The lines\<close>

datatype log_sink = LogStderr | LogFile

text \<open>The sink named by the environment variable; \<open>opens\<close> says whether the file can be opened for append.\<close>

definition log_sink_of :: "bytes option \<Rightarrow> (bytes \<Rightarrow> bool) \<Rightarrow> log_sink option" where
  "log_sink_of var opens =
     (case var of
        None \<Rightarrow> None
      | Some v \<Rightarrow>
          if v = [] \<or> v = ascii ''0'' then None
          else if v = ascii ''1'' \<or> v = ascii ''stderr'' then Some LogStderr
          else if opens v then Some LogFile
          else None)"

text \<open>What a line says of every request.\<close>

definition base_line :: "bytes \<Rightarrow> bytes \<Rightarrow> req_line \<Rightarrow> bytes \<Rightarrow> bytes \<Rightarrow> u64 \<Rightarrow> nat \<Rightarrow> bytes" where
  "base_line ts client req status backend count dur_us =
     ascii ''ts='' @ ts @ ascii '' client='' @ client @ ascii '' method='' @ req_method req
     @ ascii '' path='' @ req_path req @ ascii '' status='' @ status @ ascii '' backend='' @ backend
     @ ascii '' bytes='' @ dec_digits (unat count) @ ascii '' dur_us='' @ dec_digits dur_us"

definition log_streamed ::
  "log_sink option \<Rightarrow> nat \<times> nat \<Rightarrow> bytes \<Rightarrow> req_line \<Rightarrow> bytes \<Rightarrow> u64 \<Rightarrow> bytes option \<Rightarrow> nat \<Rightarrow> (log_sink \<times> bytes) option" where
  "log_streamed sink now client req head_bytes count backend dur_us =
     (case sink of
        None \<Rightarrow> None
      | Some k \<Rightarrow>
          Some (k, base_line (iso8601 (fst now) (snd now)) client req (status_of head_bytes)
            (case backend of None \<Rightarrow> DASH | Some b \<Rightarrow> b) count dur_us @ [LF]))"

definition log_response ::
  "log_sink option \<Rightarrow> nat \<times> nat \<Rightarrow> bytes \<Rightarrow> req_line \<Rightarrow> bytes \<Rightarrow> bytes option \<Rightarrow> nat \<Rightarrow> (log_sink \<times> bytes) option" where
  "log_response sink now client req resp backend dur_us =
     log_streamed sink now client req resp (of_nat (length resp)) backend dur_us"

section \<open>TLS connections\<close>

record tls_info =
  peer :: bytes
  sni :: bytes
  alpn :: bytes
  group :: u32
  suite :: u32
  started :: "nat option"

definition tls_info_default :: tls_info where
  "tls_info_default =
     \<lparr> peer = ascii ''0.0.0.0'', sni = [], alpn = [], group = 0, suite = 0, started = None \<rparr>"

definition code_point :: "u32 \<Rightarrow> bytes" where
  "code_point g = ascii ''0x'' @ pad_hex 4 (unat g)"

definition group_name :: "tls_info \<Rightarrow> bytes" where
  "group_name i =
     (if group i = 0x11EC then ascii ''X25519MLKEM768''
      else if group i = 0x1D then ascii ''x25519''
      else if group i = 0x17 then ascii ''secp256r1''
      else if group i = 0 then DASH
      else code_point (group i))"

definition pq_hybrid :: "tls_info \<Rightarrow> bool" where
  "pq_hybrid i \<longleftrightarrow> group i = 0x11EC"

definition suite_name :: "tls_info \<Rightarrow> bytes" where
  "suite_name i =
     (if suite i = 0x1301 then ascii ''TLS_AES_128_GCM_SHA256''
      else if suite i = 0x1302 then ascii ''TLS_AES_256_GCM_SHA384''
      else if suite i = 0x1303 then ascii ''TLS_CHACHA20_POLY1305_SHA256''
      else if suite i = 0 then DASH
      else code_point (suite i))"

definition show_bool :: "bool \<Rightarrow> bytes" where
  "show_bool b = (if b then ascii ''true'' else ascii ''false'')"

definition dash :: "bytes \<Rightarrow> bytes" where
  "dash s = (if s = [] then DASH else sanitize s)"

definition tls_fields :: "tls_info \<Rightarrow> bytes" where
  "tls_fields i =
     ascii '' tls_version=TLSv1.3 tls_cipher='' @ suite_name i @ ascii '' tls_group='' @ group_name i
     @ ascii '' tls_pq='' @ show_bool (pq_hybrid i) @ ascii '' tls_sni='' @ dash (sni i)
     @ ascii '' tls_alpn='' @ dash (alpn i)"

definition log_tls ::
  "log_sink option \<Rightarrow> nat \<times> nat \<Rightarrow> bytes \<Rightarrow> req_line \<Rightarrow> bytes \<Rightarrow> nat \<Rightarrow> tls_info \<Rightarrow> (log_sink \<times> bytes) option" where
  "log_tls sink now client req resp dur_us i =
     (case sink of
        None \<Rightarrow> None
      | Some k \<Rightarrow>
          Some (k, base_line (iso8601 (fst now) (snd now)) client req (status_of resp) DASH (of_nat (length resp)) dur_us
            @ tls_fields i @ [LF]))"

definition log_tls_h2 ::
  "log_sink option \<Rightarrow> nat \<times> nat \<Rightarrow> bytes \<Rightarrow> req_line \<Rightarrow> bytes \<Rightarrow> u64 \<Rightarrow> nat \<Rightarrow> tls_info \<Rightarrow> (log_sink \<times> bytes) option" where
  "log_tls_h2 sink now client req status count dur_us i =
     (case sink of
        None \<Rightarrow> None
      | Some k \<Rightarrow>
          Some (k, base_line (iso8601 (fst now) (snd now)) client req status DASH count dur_us @ tls_fields i @ [LF]))"

section \<open>Fields stay apart\<close>

definition field_safe :: "bytes \<Rightarrow> bool" where
  "field_safe s \<longleftrightarrow> (\<forall>b \<in> set s. b \<noteq> SP \<and> b \<noteq> LF)"

lemma field_safe_append [simp]: "field_safe (s @ t) \<longleftrightarrow> field_safe s \<and> field_safe t"
  by (auto simp: field_safe_def)

lemma field_safe_Nil [simp]: "field_safe []"
  by (simp add: field_safe_def)

lemma field_safe_Cons [simp]: "field_safe (b # s) \<longleftrightarrow> b \<noteq> SP \<and> b \<noteq> LF \<and> field_safe s"
  by (auto simp: field_safe_def)

lemma field_safe_concat [simp]: "field_safe (concat ss) \<longleftrightarrow> (\<forall>s \<in> set ss. field_safe s)"
  by (auto simp: field_safe_def)

lemma field_safe_digits: "\<forall>b \<in> set s. is_ascii_digit b \<Longrightarrow> field_safe s"
  by (auto simp: field_safe_def is_ascii_digit_def)

lemma field_safe_numbers [simp]: "field_safe (dec_digits n)" "field_safe (pad_dec w n)"
  using dec_digits_are_digits pad_dec_digits by (auto intro!: field_safe_digits)

lemma field_safe_pad_hex [simp]: "field_safe (pad_hex w n)"
  using pad_hex_ascii by (force simp: field_safe_def)

lemma utf8_head_multi:
  assumes "utf8_head s = Some (c, rest)"
  shows "(\<exists>b. c = [b]) \<or> (\<forall>b \<in> set c. 128 \<le> b)"
proof -
  have *: "144 \<le> b \<Longrightarrow> 128 \<le> b" "160 \<le> b \<Longrightarrow> 128 \<le> b" for b :: byte
    by (rule order_trans; simp)+
  show ?thesis
    using assms by (cases s) (auto simp: cont_byte_def not_less split: if_splits list.splits intro: *)
qed

lemma utf8_head_single:
  assumes "utf8_head s = Some (c, rest)" "b \<in> set c" "b < 128"
  shows "c = [b]"
  using utf8_head_multi [OF assms(1)] assms(2,3) by (auto simp: not_le [symmetric])

lemma utf8_chars_single:
  "utf8_chars s = Some cs \<Longrightarrow> c \<in> set cs \<Longrightarrow> b \<in> set c \<Longrightarrow> b < 128 \<Longrightarrow> c = [b]"
proof (induction s arbitrary: cs rule: utf8_chars.induct)
  case (1 s)
  from "1.prems" show ?case
    using "1.IH" by (subst (asm) utf8_chars.simps) (auto split: if_splits option.splits dest: utf8_head_single)
qed

lemma field_safe_sanitize [simp]: "field_safe (sanitize s)"
proof (cases "utf8_chars s")
  case None
  then show ?thesis by (simp add: sanitize_def)
next
  case (Some cs)
  have "field_safe (if is_control_char c \<or> c = [SP] then [95] else c)" if c: "c \<in> set cs" for c
  proof -
    have "c = [b]" if "b \<in> set c" "b = SP \<or> b = LF" for b
      using utf8_chars_single [OF Some c that(1)] that(2) by auto
    then have "c = [SP] \<or> c = [LF] \<or> field_safe c"
      by (auto simp: field_safe_def)
    then show ?thesis
      by (auto simp: is_control_char_def)
  qed
  then have "field_safe (concat (map (\<lambda>c. if is_control_char c \<or> c = [SP] then [95] else c) (take SANITIZE_CAP cs)))"
    using set_take_subset [of SANITIZE_CAP cs] unfolding field_safe_concat set_map by blast
  then show ?thesis
    unfolding sanitize_def Some option.case field_safe_append by (rule conjI) simp
qed

lemma field_safe_DASH [simp]: "field_safe DASH"
  by (simp add: DASH_def)

lemma field_safe_req_line [simp]:
  "field_safe (req_method (req_line_parse req))" "field_safe (req_path (req_line_parse req))"
  by (simp_all add: req_line_parse_def Let_def)

lemma field_safe_status_of [simp]: "field_safe (status_of resp)"
  by (auto simp: status_of_def Let_def list_all_iff intro!: field_safe_digits split: option.splits)

lemma field_safe_iso8601 [simp]: "field_safe (iso8601 secs micros)"
  by (simp add: iso8601_def Let_def split: prod.split)

lemma field_safe_tls [simp]:
  "field_safe (suite_name i)" "field_safe (group_name i)" "field_safe (show_bool b)" "field_safe (dash s)"
  by (simp_all add: suite_name_def group_name_def code_point_def show_bool_def dash_def)

section \<open>A log is read back\<close>

text \<open>A served request as the reactors report it, and the line each report appends.\<close>

datatype served =
  PlainReq "nat \<times> nat" bytes bytes bytes "bytes option" nat
| StreamedReq "nat \<times> nat" bytes bytes bytes u64 "bytes option" nat
| TlsReq "nat \<times> nat" bytes bytes bytes nat tls_info

primrec log_served :: "log_sink option \<Rightarrow> served \<Rightarrow> (log_sink \<times> bytes) option" where
  "log_served sink (PlainReq now client req resp backend dur_us) =
     log_response sink now client (req_line_parse req) resp backend dur_us"
| "log_served sink (StreamedReq now client req start count backend dur_us) =
     log_streamed sink now client (req_line_parse req) start count backend dur_us"
| "log_served sink (TlsReq now client req resp dur_us i) =
     log_tls sink now client (req_line_parse req) resp dur_us i"

definition log_file :: "served list \<Rightarrow> bytes" where
  "log_file es = concat (map (\<lambda>e. case log_served (Some LogFile) e of None \<Rightarrow> [] | Some (k, l) \<Rightarrow> l) es)"

text \<open>The fields of the documented format.\<close>

definition base_fields :: "nat \<times> nat \<Rightarrow> bytes \<Rightarrow> bytes \<Rightarrow> bytes \<Rightarrow> bytes option \<Rightarrow> u64 \<Rightarrow> nat \<Rightarrow> bytes list" where
  "base_fields now client req resp backend count dur_us =
     [ascii ''ts='' @ iso8601 (fst now) (snd now), ascii ''client='' @ client,
      ascii ''method='' @ req_method (req_line_parse req), ascii ''path='' @ req_path (req_line_parse req),
      ascii ''status='' @ status_of resp, ascii ''backend='' @ (case backend of None \<Rightarrow> DASH | Some b \<Rightarrow> b),
      ascii ''bytes='' @ dec_digits (unat count), ascii ''dur_us='' @ dec_digits dur_us]"

primrec served_fields :: "served \<Rightarrow> bytes list" where
  "served_fields (PlainReq now client req resp backend dur_us) =
     base_fields now client req resp backend (of_nat (length resp)) dur_us"
| "served_fields (StreamedReq now client req start count backend dur_us) =
     base_fields now client req start backend count dur_us"
| "served_fields (TlsReq now client req resp dur_us i) =
     base_fields now client req resp None (of_nat (length resp)) dur_us @
     [ascii ''tls_version=TLSv1.3'', ascii ''tls_cipher='' @ suite_name i, ascii ''tls_group='' @ group_name i,
      ascii ''tls_pq='' @ show_bool (pq_hybrid i), ascii ''tls_sni='' @ dash (sni i), ascii ''tls_alpn='' @ dash (alpn i)]"

text \<open>A reader of the file: lines, and the parts of each line.\<close>

definition read_log :: "bytes \<Rightarrow> bytes list list" where
  "read_log file = map (split_on (\<lambda>b. b = SP)) (butlast (split_on (\<lambda>b. b = LF) file))"

text \<open>The address of a client and of a backend are printed without spaces and line ends.\<close>

primrec addresses_safe :: "served \<Rightarrow> bool" where
  "addresses_safe (PlainReq now client req resp backend dur_us) \<longleftrightarrow>
     field_safe client \<and> (\<forall>b \<in> set_option backend. field_safe b)"
| "addresses_safe (StreamedReq now client req start count backend dur_us) \<longleftrightarrow>
     field_safe client \<and> (\<forall>b \<in> set_option backend. field_safe b)"
| "addresses_safe (TlsReq now client req resp dur_us i) \<longleftrightarrow> field_safe client"

lemma served_fields_safe: "addresses_safe e \<Longrightarrow> \<forall>f \<in> set (served_fields e). field_safe f"
  by (cases e) (auto simp: base_fields_def split: option.splits)

lemma log_served_line:
  "log_served (Some k) e = Some (k, join_with [SP] (served_fields e) @ [LF])"
  by (cases e)
    (simp_all add: log_response_def log_streamed_def log_tls_def base_line_def tls_fields_def base_fields_def)

lemma read_log_line:
  assumes "fs \<noteq> []" "\<forall>f \<in> set fs. field_safe f"
  shows "read_log (join_with [SP] fs @ [LF] @ rest) = fs # read_log rest"
proof -
  have "\<forall>b \<in> set (join_with [SP] fs). b \<noteq> LF"
    using set_join_with [of "[SP]" fs] assms(2) unfolding field_safe_def by fastforce
  moreover have "split_on (\<lambda>b. b = SP) (join_with [SP] fs) = fs"
    using assms by (intro split_on_join_with) (auto simp: field_safe_def)
  ultimately show ?thesis
    by (simp add: read_log_def split_on_sep)
qed


definition demo_served :: served where
  "demo_served = PlainReq (86400, 5) (ascii ''10.0.0.1'') (ascii ''GET /a'' @ [9] @ ascii ''b HTTP/1.1'' @ CRLF)
     (ascii ''HTTP/1.1 200 OK'' @ CRLF) None 7"


section \<open>Unsanitised fields\<close>

text \<open>
  The report of an HTTP/2 request carries the method and the path as the engine gave them, without
  \<open>sanitize\<close>. A path with a line end in it gives a second record, of the client's choosing.
\<close>

lemma h2_log_record_is_forged:
  assumes "log_tls_h2 (Some k) now client \<lparr> req_method = m, req_path = p @ [LF] @ q \<rparr> status count dur_us i = Some (k', out)"
    and safe: "field_safe client" "field_safe m" "field_safe p" "field_safe status" "\<forall>b \<in> set q. b \<noteq> LF"
  shows "\<exists>rest. split_on (\<lambda>b. b = LF) out =
    [ascii ''ts='' @ iso8601 (fst now) (snd now) @ ascii '' client='' @ client @ ascii '' method='' @ m @ ascii '' path='' @ p,
     q @ rest, []]"
proof -
  let ?a = "ascii ''ts='' @ iso8601 (fst now) (snd now) @ ascii '' client='' @ client @ ascii '' method='' @ m @ ascii '' path='' @ p"
  let ?r = "ascii '' status='' @ status @ ascii '' backend='' @ DASH @ ascii '' bytes='' @ dec_digits (unat count)
     @ ascii '' dur_us='' @ dec_digits dur_us @ tls_fields i"
  have lf: "LF \<notin> set s" if "field_safe s" for s
    using that by (auto simp: field_safe_def)
  have out: "out = ?a @ LF # (q @ ?r) @ LF # []"
    using assms(1) by (simp add: log_tls_h2_def base_line_def)
  have a: "\<forall>b \<in> set ?a. b \<noteq> LF"
    using safe lf [of client] lf [of m] lf [of p] lf [OF field_safe_iso8601 [of "fst now" "snd now"]] by auto
  have r: "\<forall>b \<in> set (q @ ?r). b \<noteq> LF"
    using safe lf [of status] lf [of DASH] lf [of "dec_digits (unat count)"] lf [of "dec_digits dur_us"]
      lf [of "suite_name i"] lf [of "group_name i"] lf [of "show_bool (pq_hybrid i)"] lf [of "dash (sni i)"] lf [of "dash (alpn i)"]
    by (auto simp: tls_fields_def)
  show ?thesis
    unfolding out split_on_sep [of ?a "\<lambda>b. b = LF", OF a refl] split_on_sep [of "q @ ?r" "\<lambda>b. b = LF", OF r refl]
    by auto
qed

end
