(* ===== verification/Metrics.thy ===== *)
theory Metrics
  imports Formatting "HOL-Library.List_Lexorder"
begin

text \<open>
  The operational counters and their Prometheus page (\<^verbatim>\<open>metrics.rs\<close>). A counter is a 64-bit word and
  wraps, as \<open>fetch_add\<close> does; a \<open>BTreeMap\<close> is the list of its entries in the order of the keys. Values that
  other modules own (open connections, configuration generation, reload counts, draining, pool statistics) are
  arguments of the page.
\<close>

section \<open>Counters\<close>

record metrics =
  n_requests :: u64
  r2xx :: u64
  r3xx :: u64
  r4xx :: u64
  r5xx :: u64
  rother :: u64
  bytes_out :: u64
  backends :: "(bytes \<times> u64) list"
  refused_conn_limit :: u64
  refused_rate_limit :: u64
  request_timeouts :: u64
  refused_body_limit :: u64
  latency_buckets :: "u64 list"
  latency_sum_us :: u64
  tls_requests :: u64
  tls_pq_requests :: u64
  tls_conns :: "(bytes \<times> u64) list"

definition metrics_zero :: metrics where
  "metrics_zero =
     \<lparr> n_requests = 0, r2xx = 0, r3xx = 0, r4xx = 0, r5xx = 0, rother = 0, bytes_out = 0, backends = [],
       refused_conn_limit = 0, refused_rate_limit = 0, request_timeouts = 0, refused_body_limit = 0,
       latency_buckets = replicate 13 0, latency_sum_us = 0, tls_requests = 0, tls_pq_requests = 0, tls_conns = [] \<rparr>"

text \<open>\<open>*map.entry(key).or_insert(0) += 1\<close>.\<close>

fun btree_incr :: "bytes \<Rightarrow> (bytes \<times> u64) list \<Rightarrow> (bytes \<times> u64) list" where
  "btree_incr k [] = [(k, 1)]"
| "btree_incr k ((k', n) # m) =
     (if k = k' then (k', n + 1) # m
      else if k < k' then (k, 1) # (k', n) # m
      else (k', n) # btree_incr k m)"

definition LATENCY_BOUNDS_US :: "u64 list" where
  "LATENCY_BOUNDS_US = [100, 250, 500, 1000, 2500, 5000, 10000, 25000, 50000, 100000, 500000, 1000000]"

definition status_class :: "bytes \<Rightarrow> nat option" where
  "status_class resp =
     (let start = hd (split_on (\<lambda>b. b = CR) resp) in
      case position (\<lambda>b. b = SP) start of
        None \<Rightarrow> None
      | Some sp \<Rightarrow>
          (let code = hd (split_on (\<lambda>b. b = SP) (drop (Suc sp) start)) in
           if length code = 3 \<and> list_all is_ascii_digit code then Some (unat (hd code - 48)) else None))"

section \<open>Recording\<close>

definition note_tls_connection :: "bytes \<Rightarrow> metrics \<Rightarrow> metrics" where
  "note_tls_connection alpn m =
     m\<lparr> tls_conns := btree_incr (if alpn = [] then ascii ''none'' else alpn) (tls_conns m) \<rparr>"

definition note_tls_request :: "bool \<Rightarrow> metrics \<Rightarrow> metrics" where
  "note_tls_request pq m =
     (let m = m\<lparr> tls_requests := tls_requests m + 1 \<rparr> in
      if pq then m\<lparr> tls_pq_requests := tls_pq_requests m + 1 \<rparr> else m)"

definition bump_class :: "nat option \<Rightarrow> metrics \<Rightarrow> metrics" where
  "bump_class c m =
     (if c = Some 2 then m\<lparr> r2xx := r2xx m + 1 \<rparr>
      else if c = Some 3 then m\<lparr> r3xx := r3xx m + 1 \<rparr>
      else if c = Some 4 then m\<lparr> r4xx := r4xx m + 1 \<rparr>
      else if c = Some 5 then m\<lparr> r5xx := r5xx m + 1 \<rparr>
      else m\<lparr> rother := rother m + 1 \<rparr>)"

definition record_streamed :: "bytes \<Rightarrow> u64 \<Rightarrow> bytes option \<Rightarrow> metrics \<Rightarrow> metrics" where
  "record_streamed start count backend m =
     (let m = m\<lparr> n_requests := n_requests m + 1 \<rparr>;
          m = m\<lparr> bytes_out := bytes_out m + count \<rparr>;
          m = bump_class (status_class start) m
      in case backend of
           None \<Rightarrow> m
         | Some b \<Rightarrow> m\<lparr> backends := btree_incr b (backends m) \<rparr>)"

definition record_response :: "bytes \<Rightarrow> bytes option \<Rightarrow> metrics \<Rightarrow> metrics" where
  "record_response resp backend m = record_streamed resp (of_nat (length resp)) backend m"

definition note_conn_limit_refused :: "metrics \<Rightarrow> metrics" where
  "note_conn_limit_refused m = m\<lparr> refused_conn_limit := refused_conn_limit m + 1 \<rparr>"

definition note_rate_limit_refused :: "metrics \<Rightarrow> metrics" where
  "note_rate_limit_refused m = m\<lparr> refused_rate_limit := refused_rate_limit m + 1 \<rparr>"

definition note_request_timeout :: "metrics \<Rightarrow> metrics" where
  "note_request_timeout m = m\<lparr> request_timeouts := request_timeouts m + 1 \<rparr>"

definition note_body_limit_refused :: "metrics \<Rightarrow> metrics" where
  "note_body_limit_refused m = m\<lparr> refused_body_limit := refused_body_limit m + 1 \<rparr>"

text \<open>The elapsed time in microseconds, a 128-bit value in the source, is cut at the largest 64-bit word.\<close>

definition observe_latency :: "nat \<Rightarrow> metrics \<Rightarrow> metrics" where
  "observe_latency micros m =
     (let us = (of_nat (min micros (2 ^ 64 - 1)) :: u64);
          idx = length (takeWhile (\<lambda>b. b < us) LATENCY_BOUNDS_US);
          m = m\<lparr> latency_buckets := (latency_buckets m)[idx := latency_buckets m ! idx + 1] \<rparr>
      in m\<lparr> latency_sum_us := latency_sum_us m + us \<rparr>)"

section \<open>The page\<close>

record gauges =
  total_active :: u64
  generation :: u64
  reloads_applied :: u64
  reloads_rejected :: u64
  draining :: bool
  pool_stats :: "(u64 \<times> u64) option"

definition show64 :: "u64 \<Rightarrow> bytes" where
  "show64 n = dec_digits (unat n)"

text \<open>
  A metric family: the two comment lines and the samples, each a name with its labels and a value.
\<close>

definition sample_line :: "bytes \<times> u64 \<Rightarrow> bytes" where
  "sample_line nv = fst nv @ ascii '' '' @ show64 (snd nv) @ [LF]"

definition family :: "string \<Rightarrow> string \<Rightarrow> string \<Rightarrow> (bytes \<times> u64) list \<Rightarrow> bytes" where
  "family name help kind samples =
     ascii ''# HELP '' @ ascii name @ ascii '' '' @ ascii help @ [LF]
     @ ascii ''# TYPE '' @ ascii name @ ascii '' '' @ ascii kind @ [LF]
     @ concat (map sample_line samples)"

definition labelled :: "string \<Rightarrow> string \<Rightarrow> bytes \<Rightarrow> bytes" where
  "labelled name label v = ascii name @ [123] @ ascii label @ [61, 34] @ v @ [34, 125]"

text \<open>The running totals of the buckets.\<close>

fun running :: "u64 \<Rightarrow> u64 list \<Rightarrow> u64 list" where
  "running acc [] = []"
| "running acc (n # ns) = (acc + n) # running (acc + n) ns"

definition DURATION :: string where "DURATION = ''drorb_request_duration_microseconds''"

definition latency_samples :: "metrics \<Rightarrow> (bytes \<times> u64) list" where
  "latency_samples m =
     (let cumulative = running 0 (latency_buckets m) in
      zip (map (\<lambda>b. labelled (DURATION @ ''_bucket'') ''le'' (show64 b)) LATENCY_BOUNDS_US
           @ [labelled (DURATION @ ''_bucket'') ''le'' (ascii ''+Inf'')]) cumulative
      @ [(ascii (DURATION @ ''_sum''), latency_sum_us m), (ascii (DURATION @ ''_count''), last cumulative)])"

definition traffic_page :: "metrics \<Rightarrow> bytes" where
  "traffic_page m =
     family ''drorb_requests_total'' ''Requests served through the host loop.'' ''counter''
       [(ascii ''drorb_requests_total'', n_requests m)]
     @ family ''drorb_tls_requests_total'' ''Requests served over the HTTPS front door (subset of drorb_requests_total).'' ''counter''
       [(ascii ''drorb_tls_requests_total'', tls_requests m)]
     @ family ''drorb_tls_pq_requests_total''
       ''HTTPS requests whose connection negotiated the X25519MLKEM768 post-quantum hybrid key exchange.'' ''counter''
       [(ascii ''drorb_tls_pq_requests_total'', tls_pq_requests m)]
     @ (if tls_conns m = [] then []
        else family ''drorb_tls_connections_total''
          ''HTTPS connections by negotiated ALPN protocol. Requests on an h2 connection ARE now itemised (the proven H2 engine reports each via drorb_h2_obs_req).''
          ''counter'' (map (\<lambda>(alpn, n). (labelled ''drorb_tls_connections_total'' ''alpn'' alpn, n)) (tls_conns m)))
     @ family ''drorb_responses_total'' ''Responses by status class.'' ''counter''
       (map (\<lambda>(c, n). (labelled ''drorb_responses_total'' ''class'' (ascii c), n))
          [(''2xx'', r2xx m), (''3xx'', r3xx m), (''4xx'', r4xx m), (''5xx'', r5xx m), (''other'', rother m)])
     @ family ''drorb_response_bytes_total'' ''Total response bytes written.'' ''counter''
       [(ascii ''drorb_response_bytes_total'', bytes_out m)]"

definition gate_page :: "metrics \<Rightarrow> gauges \<Rightarrow> bytes" where
  "gate_page m g =
     family ''drorb_active_connections'' ''Connection handlers in flight.'' ''gauge''
       [(ascii ''drorb_active_connections'', total_active g)]
     @ family ''drorb_backend_requests_total'' ''Proxied requests per backend.'' ''counter''
       (map (\<lambda>(b, n). (labelled ''drorb_backend_requests_total'' ''backend'' b, n)) (backends m))
     @ family ''drorb_requests_refused_total'' ''Requests refused at the reactor DoS gate, by reason.'' ''counter''
       (map (\<lambda>(r, n). (labelled ''drorb_requests_refused_total'' ''reason'' (ascii r), n))
          [(''conn_limit'', refused_conn_limit m), (''rate_limit'', refused_rate_limit m),
           (''timeout'', request_timeouts m), (''body_limit'', refused_body_limit m)])
     @ family DURATION ''Request handling latency in microseconds.'' ''histogram'' (latency_samples m)"

definition state_page :: "gauges \<Rightarrow> bytes" where
  "state_page g =
     family ''drorb_config_generation'' ''Active operator-config generation.'' ''gauge''
       [(ascii ''drorb_config_generation'', generation g)]
     @ family ''drorb_reloads_applied_total'' ''SIGHUP reconfigs applied.'' ''counter''
       [(ascii ''drorb_reloads_applied_total'', reloads_applied g)]
     @ family ''drorb_reloads_rejected_total'' ''SIGHUP reconfigs rejected (fail-safe).'' ''counter''
       [(ascii ''drorb_reloads_rejected_total'', reloads_rejected g)]
     @ family ''drorb_draining'' ''1 while a reconfig swap is in progress or an operator drain is active.'' ''gauge''
       [(ascii ''drorb_draining'', if draining g then 1 else 0)]
     @ (case pool_stats g of
          None \<Rightarrow> []
        | Some (reused, dialed) \<Rightarrow>
            family ''drorb_upstream_conn_reused_total''
              ''Upstream forwards served on a pooled keep-alive socket (dial skipped).'' ''counter''
              [(ascii ''drorb_upstream_conn_reused_total'', reused)]
            @ family ''drorb_upstream_conn_dialed_total''
              ''Upstream forwards that opened a fresh connection (pool miss or stale entry).'' ''counter''
              [(ascii ''drorb_upstream_conn_dialed_total'', dialed)])"

definition render :: "metrics \<Rightarrow> gauges \<Rightarrow> bytes" where
  "render m g = traffic_page m @ gate_page m g @ state_page g"

section \<open>What the counters count\<close>

datatype metric_event =
  Served bytes u64 "bytes option"
| Latency nat
| TlsConn bytes
| TlsServed bool
| ConnRefused
| RateRefused
| TimedOut
| BodyRefused

primrec metric_step :: "metric_event \<Rightarrow> metrics \<Rightarrow> metrics" where
  "metric_step (Served start count backend) m = record_streamed start count backend m"
| "metric_step (Latency us) m = observe_latency us m"
| "metric_step (TlsConn alpn) m = note_tls_connection alpn m"
| "metric_step (TlsServed pq) m = note_tls_request pq m"
| "metric_step ConnRefused m = note_conn_limit_refused m"
| "metric_step RateRefused m = note_rate_limit_refused m"
| "metric_step TimedOut m = note_request_timeout m"
| "metric_step BodyRefused m = note_body_limit_refused m"

definition metrics_run :: "metric_event list \<Rightarrow> metrics" where
  "metrics_run es = fold metric_step es metrics_zero"

definition tally :: "('a \<Rightarrow> bool) \<Rightarrow> 'a list \<Rightarrow> u64" where
  "tally p xs = of_nat (length (filter p xs))"

lemma tally_simps [simp]:
  "tally p [] = 0" "tally p (xs @ [x]) = (if p x then tally p xs + 1 else tally p xs)"
  by (simp_all add: tally_def)

primrec served_class :: "metric_event \<Rightarrow> nat option option" where
  "served_class (Served start count backend) = Some (status_class start)"
| "served_class (Latency us) = None"
| "served_class (TlsConn alpn) = None"
| "served_class (TlsServed pq) = None"
| "served_class ConnRefused = None"
| "served_class RateRefused = None"
| "served_class TimedOut = None"
| "served_class BodyRefused = None"

definition classes :: "metric_event list \<Rightarrow> nat option list" where
  "classes es = List.map_filter served_class es"

definition lengths :: "metric_event list \<Rightarrow> u64 list" where
  "lengths es = List.map_filter (\<lambda>e. case e of Served start count backend \<Rightarrow> Some count | _ \<Rightarrow> None) es"

definition dialled :: "metric_event list \<Rightarrow> bytes list" where
  "dialled es = List.map_filter (\<lambda>e. case e of Served start count backend \<Rightarrow> backend | _ \<Rightarrow> None) es"

definition latencies :: "metric_event list \<Rightarrow> nat list" where
  "latencies es = List.map_filter (\<lambda>e. case e of Latency us \<Rightarrow> Some us | _ \<Rightarrow> None) es"

definition protocols :: "metric_event list \<Rightarrow> bytes list" where
  "protocols es =
     List.map_filter (\<lambda>e. case e of TlsConn alpn \<Rightarrow> Some (if alpn = [] then ascii ''none'' else alpn) | _ \<Rightarrow> None) es"

definition tls_kinds :: "metric_event list \<Rightarrow> bool list" where
  "tls_kinds es = List.map_filter (\<lambda>e. case e of TlsServed pq \<Rightarrow> Some pq | _ \<Rightarrow> None) es"

lemma map_filter_snoc: "List.map_filter f (xs @ [x]) = List.map_filter f xs @ (case f x of None \<Rightarrow> [] | Some y \<Rightarrow> [y])"
  by (auto simp: map_filter_def split: option.split)

lemma map_filter_Nil: "List.map_filter f [] = []"
  by (simp add: map_filter_def)

lemmas projections = classes_def lengths_def dialled_def latencies_def protocols_def tls_kinds_def map_filter_snoc map_filter_Nil

subsection \<open>Ordered maps\<close>

definition counted :: "bytes list \<Rightarrow> (bytes \<times> u64) list" where
  "counted ks = map (\<lambda>k. (k, tally (\<lambda>x. x = k) ks)) (sorted_list_of_set (set ks))"

lemma btree_incr_keys:
  "sorted (map fst m) \<Longrightarrow> distinct (map fst m) \<Longrightarrow>
   map fst (btree_incr k m) = (if k \<in> fst ` set m then map fst m else insort k (map fst m))"
  by (induction k m rule: btree_incr.induct) (force simp: insort_is_Cons)+

lemma btree_incr_map_of:
  "sorted (map fst m) \<Longrightarrow> map_of (btree_incr k m) = (map_of m)(k \<mapsto> (case map_of m k of None \<Rightarrow> 0 | Some n \<Rightarrow> n) + 1)"
proof (induction k m rule: btree_incr.induct)
  case (2 k k' n m)
  have "map_of m k = None" if "k < k'"
    using "2.prems" that by (auto simp: map_of_eq_None_iff)
  with 2 show ?case
    by (auto simp: fun_eq_iff)
qed auto

lemma assoc_list_eqI:
  assumes "map fst xs = map fst ys" "distinct (map fst xs)" "map_of xs = map_of ys"
  shows "xs = ys"
proof (rule nth_equalityI)
  show len: "length xs = length ys"
    using arg_cong [OF assms(1), of length] by simp
  fix i assume i: "i < length xs"
  have fst: "fst (xs ! i) = fst (ys ! i)"
    using arg_cong [OF assms(1), of "\<lambda>l. l ! i"] i len by simp
  have "map_of xs (fst (xs ! i)) = Some (snd (xs ! i))" "map_of ys (fst (ys ! i)) = Some (snd (ys ! i))"
    using i len assms(1,2) by (auto intro!: map_of_is_SomeI simp: nth_mem)
  then show "xs ! i = ys ! i"
    using fst assms(3) by (simp add: prod_eq_iff)
qed

lemma counted_facts:
  "map fst (counted ks) = sorted_list_of_set (set ks)"
  "map_of (counted ks) = (\<lambda>k. if k \<in> set ks then Some (tally (\<lambda>x. x = k) ks) else None)"
  by (auto simp: counted_def o_def map_of_map_restrict restrict_map_def)

lemma btree_incr_counted: "btree_incr k (counted ks) = counted (ks @ [k])"
proof (rule assoc_list_eqI)
  have s: "sorted (map fst (counted ks))" "distinct (map fst (counted ks))"
    by (simp_all add: counted_facts)
  have fs: "fst ` set (counted ks) = set ks"
    using arg_cong [OF counted_facts(1) [of ks], of set] by simp
  have set: "set (ks @ [k]) = (if k \<in> set ks then set ks else insert k (set ks))"
    by auto
  show keys: "map fst (btree_incr k (counted ks)) = map fst (counted (ks @ [k]))"
    unfolding btree_incr_keys [OF s] fs counted_facts set by simp
  show "distinct (map fst (btree_incr k (counted ks)))"
    unfolding keys counted_facts by (rule distinct_sorted_list_of_set)
  show "map_of (btree_incr k (counted ks)) = map_of (counted (ks @ [k]))"
  proof
    fix x
    have "tally (\<lambda>y. y = k) ks = 0" if "k \<notin> set ks"
      using that unfolding tally_def by (induction ks) auto
    then show "map_of (btree_incr k (counted ks)) x = map_of (counted (ks @ [k])) x"
      by (auto simp: btree_incr_map_of [OF s(1)] counted_facts(2))
  qed
qed

subsection \<open>Every field\<close>

lemma bump_class_simps [simp]:
  "n_requests (bump_class c m) = n_requests m" "bytes_out (bump_class c m) = bytes_out m" "backends (bump_class c m) = backends m"
  "refused_conn_limit (bump_class c m) = refused_conn_limit m" "refused_rate_limit (bump_class c m) = refused_rate_limit m"
  "request_timeouts (bump_class c m) = request_timeouts m" "refused_body_limit (bump_class c m) = refused_body_limit m"
  "latency_buckets (bump_class c m) = latency_buckets m" "latency_sum_us (bump_class c m) = latency_sum_us m"
  "tls_requests (bump_class c m) = tls_requests m" "tls_pq_requests (bump_class c m) = tls_pq_requests m"
  "tls_conns (bump_class c m) = tls_conns m"
  by (simp_all add: bump_class_def)

lemmas recorders = record_streamed_def observe_latency_def note_tls_connection_def note_tls_request_def
  note_conn_limit_refused_def note_rate_limit_refused_def note_request_timeout_def note_body_limit_refused_def Let_def

lemma metrics_run_simps:
  "metrics_run [] = metrics_zero" "metrics_run (es @ [e]) = metric_step e (metrics_run es)"
  by (simp_all add: metrics_run_def)

lemma metrics_counts:
  "n_requests (metrics_run es) = of_nat (length (classes es))" (is ?A)
  "r2xx (metrics_run es) = tally (\<lambda>c. c = Some 2) (classes es)" (is ?B)
  "r3xx (metrics_run es) = tally (\<lambda>c. c = Some 3) (classes es)" (is ?C)
  "r4xx (metrics_run es) = tally (\<lambda>c. c = Some 4) (classes es)" (is ?D)
  "r5xx (metrics_run es) = tally (\<lambda>c. c = Some 5) (classes es)" (is ?E)
  "rother (metrics_run es) = tally (\<lambda>c. c \<notin> {Some 2, Some 3, Some 4, Some 5}) (classes es)" (is ?F)
  "bytes_out (metrics_run es) = sum_list (lengths es)" (is ?G)
  "tls_requests (metrics_run es) = of_nat (length (tls_kinds es))" (is ?H)
  "tls_pq_requests (metrics_run es) = tally id (tls_kinds es)" (is ?I)
  "refused_conn_limit (metrics_run es) = tally (\<lambda>e. e = ConnRefused) es" (is ?J)
  "refused_rate_limit (metrics_run es) = tally (\<lambda>e. e = RateRefused) es" (is ?K)
  "request_timeouts (metrics_run es) = tally (\<lambda>e. e = TimedOut) es" (is ?L)
  "refused_body_limit (metrics_run es) = tally (\<lambda>e. e = BodyRefused) es" (is ?M)
  "backends (metrics_run es) = counted (dialled es)" (is ?N)
  "tls_conns (metrics_run es) = counted (protocols es)" (is ?O)
  "latency_sum_us (metrics_run es) = sum_list (map (\<lambda>us. of_nat (min us (2 ^ 64 - 1))) (latencies es))" (is ?P)
proof -
  have "?A \<and> ?B \<and> ?C \<and> ?D \<and> ?E \<and> ?F \<and> ?G \<and> ?H \<and> ?I \<and> ?J \<and> ?K \<and> ?L \<and> ?M \<and> ?N \<and> ?O \<and> ?P"
  proof (induction es rule: rev_induct)
    case Nil
    then show ?case by (simp add: metrics_run_simps metrics_zero_def projections counted_def)
  next
    case (snoc e es)
    then show ?case
      using btree_incr_counted
      by (cases e) (simp_all add: metrics_run_simps projections recorders bump_class_def split: option.split)
  qed
  then show ?A ?B ?C ?D ?E ?F ?G ?H ?I ?J ?K ?L ?M ?N ?O ?P by auto
qed

subsection \<open>The histogram\<close>

definition bucket_of :: "nat \<Rightarrow> nat" where
  "bucket_of us = length (takeWhile (\<lambda>b. b < (of_nat (min us (2 ^ 64 - 1)) :: u64)) LATENCY_BOUNDS_US)"

lemma takeWhile_sorted:
  "sorted xs \<Longrightarrow> i < length xs \<Longrightarrow> length (takeWhile (\<lambda>b. b < u) xs) \<le> i \<longleftrightarrow> u \<le> xs ! i"
proof (induction xs arbitrary: i)
  case (Cons x xs)
  show ?case
  proof (cases i)
    case 0
    then show ?thesis by auto
  next
    case (Suc j)
    then have "x \<le> xs ! j"
      using Cons.prems by simp
    then have "\<not> x < u \<Longrightarrow> u \<le> xs ! j"
      by (simp add: order_trans not_less)
    with Suc Cons show ?thesis
      by auto
  qed
qed simp

lemma bounds_facts: "sorted LATENCY_BOUNDS_US" "length LATENCY_BOUNDS_US = 12"
  by (simp_all add: LATENCY_BOUNDS_US_def)

lemma bucket_of_less [simp]: "bucket_of us < 13"
  using length_takeWhile_le [of "\<lambda>b. b < (of_nat (min us (2 ^ 64 - 1)) :: u64)" LATENCY_BOUNDS_US]
  unfolding bucket_of_def bounds_facts(2) by linarith

lemma bucket_of_le:
  assumes "i < 12"
  shows "bucket_of us \<le> i \<longleftrightarrow> us \<le> unat (LATENCY_BOUNDS_US ! i)"
proof -
  have "bucket_of us \<le> i \<longleftrightarrow> (of_nat (min us (2 ^ 64 - 1)) :: u64) \<le> LATENCY_BOUNDS_US ! i"
    unfolding bucket_of_def using assms bounds_facts by (intro takeWhile_sorted) simp_all
  also have "\<dots> \<longleftrightarrow> min us (2 ^ 64 - 1) \<le> unat (LATENCY_BOUNDS_US ! i)"
    by (simp add: word_le_nat_alt unat_of_nat)
  also have "\<dots> \<longleftrightarrow> us \<le> unat (LATENCY_BOUNDS_US ! i)"
  proof -
    have "\<forall>b \<in> set LATENCY_BOUNDS_US. unat b < 2 ^ 64 - 1"
      by (simp add: LATENCY_BOUNDS_US_def)
    then have "unat (LATENCY_BOUNDS_US ! i) < 2 ^ 64 - 1"
      using assms bounds_facts(2) nth_mem by metis
    then show ?thesis
      by linarith
  qed
  finally show ?thesis .
qed

lemma observe_latency_buckets:
  "latency_buckets (observe_latency us m) = (latency_buckets m)[bucket_of us := latency_buckets m ! bucket_of us + 1]"
  unfolding observe_latency_def bucket_of_def Let_def by simp

lemma metrics_buckets: "latency_buckets (metrics_run es) = map (\<lambda>i. tally (\<lambda>us. bucket_of us = i) (latencies es)) [0..<13]"
proof (induction es rule: rev_induct)
  case Nil
  then show ?case by (simp add: metrics_run_simps metrics_zero_def projections map_replicate_const)
next
  case (snoc e es)
  show ?case
  proof (cases e)
    case (Latency us)
    let ?b = "map (\<lambda>i. tally (\<lambda>us. bucket_of us = i) (latencies es)) [0..<13]"
    have l: "latencies (es @ [e]) = latencies es @ [us]"
      by (simp add: Latency projections)
    have "latency_buckets (metrics_run (es @ [e])) = ?b[bucket_of us := ?b ! bucket_of us + 1]"
      using snoc by (simp add: Latency metrics_run_simps observe_latency_buckets)
    also have "\<dots> = map (\<lambda>i. tally (\<lambda>us. bucket_of us = i) (latencies (es @ [e]))) [0..<13]"
      unfolding l by (rule nth_equalityI) (auto simp: nth_list_update)
    finally show ?thesis .
  qed (use snoc in \<open>simp_all add: metrics_run_simps projections recorders split: option.split\<close>)
qed

lemma running_nth: "i < length ns \<Longrightarrow> running acc ns ! i = acc + sum_list (take (Suc i) ns)"
proof (induction ns arbitrary: acc i)
  case (Cons n ns)
  then show ?case by (cases i) (simp_all add: add.assoc)
qed simp

lemma length_running [simp]: "length (running acc ns) = length ns"
  by (induction ns arbitrary: acc) simp_all

lemma tally_upto: "sum_list (map (\<lambda>i. tally (\<lambda>x. f x = i) xs) [0..<n]) = tally (\<lambda>x. f x < n) xs"
proof (induction n)
  case (Suc n)
  have "tally (\<lambda>x. f x < n) xs + tally (\<lambda>x. f x = n) xs = tally (\<lambda>x. f x < Suc n) xs"
    unfolding tally_def by (induction xs) (auto simp: less_Suc_eq)
  with Suc show ?case by simp
qed (simp add: tally_def)

lemma cumulative_counts:
  assumes "i < 13"
  shows "running 0 (latency_buckets (metrics_run es)) ! i = tally (\<lambda>us. bucket_of us \<le> i) (latencies es)"
  using assms by (simp add: metrics_buckets running_nth take_map tally_upto less_Suc_eq_le del: upt_Suc)

text \<open>How many of the observed latencies do not exceed each bound.\<close>

lemma latency_samples_counts:
  "latency_samples (metrics_run es) =
     map (\<lambda>b. (labelled (DURATION @ ''_bucket'') ''le'' (show64 b), tally (\<lambda>us. us \<le> unat b) (latencies es))) LATENCY_BOUNDS_US
     @ [(labelled (DURATION @ ''_bucket'') ''le'' (ascii ''+Inf''), of_nat (length (latencies es))),
        (ascii (DURATION @ ''_sum''), sum_list (map (\<lambda>us. of_nat (min us (2 ^ 64 - 1))) (latencies es))),
        (ascii (DURATION @ ''_count''), of_nat (length (latencies es)))]"
proof -
  let ?c = "running 0 (latency_buckets (metrics_run es))"
  have len: "length ?c = 13"
    by (simp add: metrics_buckets)
  have all: "?c ! 12 = of_nat (length (latencies es))"
  proof -
    have "filter (\<lambda>us. bucket_of us \<le> 12) (latencies es) = latencies es"
      using bucket_of_less by (auto simp: filter_id_conv less_Suc_eq_le [symmetric])
    then show ?thesis
      by (simp add: cumulative_counts tally_def)
  qed
  have "0 < length ?c"
    using len by linarith
  then have last: "last ?c = of_nat (length (latencies es))"
    unfolding length_greater_0_conv using all len by (simp add: last_conv_nth)
  have c: "?c = map (\<lambda>b. tally (\<lambda>us. us \<le> unat b) (latencies es)) LATENCY_BOUNDS_US @ [of_nat (length (latencies es))]"
  proof (rule nth_equalityI)
    fix i assume "i < length ?c"
    then have "i < 12 \<or> i = 12"
      using len by auto
    then show "?c ! i = (map (\<lambda>b. tally (\<lambda>us. us \<le> unat b) (latencies es)) LATENCY_BOUNDS_US @ [of_nat (length (latencies es))]) ! i"
      using all by (auto simp: cumulative_counts bucket_of_le nth_append bounds_facts)
  qed (use len in \<open>simp add: bounds_facts\<close>)
  show ?thesis
    unfolding latency_samples_def Let_def last metrics_counts
    unfolding c by (simp add: zip_append zip_map_map zip_same_conv_map)
qed

section \<open>Reading the page\<close>

text \<open>
  A scraper: the lines that are not comments, each split at its space. A name with its labels must have neither
  a space nor a line end, which holds of everything but the labels taken from addresses and protocol names.
\<close>

definition scrape :: "bytes \<Rightarrow> bytes list list" where
  "scrape page = map (split_on (\<lambda>b. b = SP)) (filter (\<lambda>l. l \<noteq> [] \<and> hd l \<noteq> 35) (split_on (\<lambda>b. b = LF) page))"

definition name_ok :: "bytes \<Rightarrow> bool" where
  "name_ok n \<longleftrightarrow> n \<noteq> [] \<and> hd n \<noteq> 35 \<and> SP \<notin> set n \<and> LF \<notin> set n"

definition shown :: "bytes \<times> u64 \<Rightarrow> bytes list" where
  "shown nv = [fst nv, show64 (snd nv)]"

lemma show64_plain: "SP \<notin> set (show64 n)" "LF \<notin> set (show64 n)"
  using dec_digits_are_digits [of SP "unat n"] dec_digits_are_digits [of LF "unat n"]
  by (auto simp: show64_def is_ascii_digit_def)

lemma scrape_Nil [simp]: "scrape [] = []"
  by (simp add: scrape_def)

lemma page_split_line:
  "LF \<notin> set l \<Longrightarrow> split_on (\<lambda>b. b = LF) (l @ LF # rest) = l # split_on (\<lambda>b. b = LF) rest"
  by (rule split_on_sep) auto

lemma scrape_comment: "LF \<notin> set l \<Longrightarrow> scrape (35 # l @ LF # rest) = scrape rest"
  using page_split_line [of "35 # l" rest] by (simp add: scrape_def)

lemma scrape_sample:
  assumes "name_ok (fst nv)"
  shows "scrape (sample_line nv @ rest) = shown nv # scrape rest"
proof -
  let ?l = "fst nv @ SP # show64 (snd nv)"
  have "LF \<notin> set ?l" and h: "?l \<noteq> []" "hd ?l \<noteq> 35"
    using assms show64_plain by (auto simp: name_ok_def hd_append)
  then have "split_on (\<lambda>b. b = LF) (?l @ LF # rest) = ?l # split_on (\<lambda>b. b = LF) rest"
    by (intro page_split_line)
  moreover have "split_on (\<lambda>b. b = SP) ?l = shown nv"
    unfolding shown_def using assms show64_plain(1) [of "snd nv"] split_on_nosep [of "show64 (snd nv)" "\<lambda>b. b = SP"]
    by (subst split_on_sep) (auto simp: name_ok_def)
  ultimately show ?thesis
    using h by (simp add: scrape_def sample_line_def)
qed

lemma scrape_samples:
  "\<forall>nv \<in> set samples. name_ok (fst nv) \<Longrightarrow> scrape (concat (map sample_line samples) @ rest) = map shown samples @ scrape rest"
  by (induction samples) (simp_all add: scrape_sample)

lemma scrape_family:
  assumes "LF \<notin> set (ascii name)" "LF \<notin> set (ascii help)" "LF \<notin> set (ascii kind)" "\<forall>nv \<in> set samples. name_ok (fst nv)"
  shows "scrape (family name help kind samples @ rest) = map shown samples @ scrape rest"
proof -
  have "family name help kind samples @ rest =
      35 # (ascii '' HELP '' @ ascii name @ ascii '' '' @ ascii help) @ LF #
      35 # (ascii '' TYPE '' @ ascii name @ ascii '' '' @ ascii kind) @ LF # concat (map sample_line samples) @ rest"
    by (simp add: family_def)
  moreover have "LF \<notin> set (ascii '' HELP '' @ ascii name @ ascii '' '' @ ascii help)"
    "LF \<notin> set (ascii '' TYPE '' @ ascii name @ ascii '' '' @ ascii kind)"
    using assms by auto
  ultimately show ?thesis
    by (simp only: scrape_comment scrape_samples [OF assms(4)] not_False_eq_True)
qed

definition label_ok :: "bytes \<Rightarrow> bool" where
  "label_ok v \<longleftrightarrow> SP \<notin> set v \<and> LF \<notin> set v"

lemma name_ok_labelled:
  "name_ok (ascii name) \<Longrightarrow> label_ok (ascii label) \<Longrightarrow> label_ok v \<Longrightarrow> name_ok (labelled name label v)"
  by (auto simp: name_ok_def label_ok_def labelled_def hd_append)

lemma label_ok_show64 [simp]: "label_ok (show64 n)"
  using show64_plain by (simp add: label_ok_def)

text \<open>The samples of the whole page, computed from the events.\<close>

definition expected_samples :: "metric_event list \<Rightarrow> gauges \<Rightarrow> (bytes \<times> u64) list" where
  "expected_samples es g =
     [(ascii ''drorb_requests_total'', of_nat (length (classes es))),
      (ascii ''drorb_tls_requests_total'', of_nat (length (tls_kinds es))),
      (ascii ''drorb_tls_pq_requests_total'', tally id (tls_kinds es))]
     @ map (\<lambda>(a, n). (labelled ''drorb_tls_connections_total'' ''alpn'' a, n)) (counted (protocols es))
     @ map (\<lambda>(c, n). (labelled ''drorb_responses_total'' ''class'' (ascii c), n))
         [(''2xx'', tally (\<lambda>c. c = Some 2) (classes es)), (''3xx'', tally (\<lambda>c. c = Some 3) (classes es)),
          (''4xx'', tally (\<lambda>c. c = Some 4) (classes es)), (''5xx'', tally (\<lambda>c. c = Some 5) (classes es)),
          (''other'', tally (\<lambda>c. c \<notin> {Some 2, Some 3, Some 4, Some 5}) (classes es))]
     @ [(ascii ''drorb_response_bytes_total'', sum_list (lengths es)),
        (ascii ''drorb_active_connections'', total_active g)]
     @ map (\<lambda>(b, n). (labelled ''drorb_backend_requests_total'' ''backend'' b, n)) (counted (dialled es))
     @ map (\<lambda>(r, e). (labelled ''drorb_requests_refused_total'' ''reason'' (ascii r), tally (\<lambda>x. x = e) es))
         [(''conn_limit'', ConnRefused), (''rate_limit'', RateRefused), (''timeout'', TimedOut), (''body_limit'', BodyRefused)]
     @ map (\<lambda>b. (labelled (DURATION @ ''_bucket'') ''le'' (show64 b), tally (\<lambda>us. us \<le> unat b) (latencies es))) LATENCY_BOUNDS_US
     @ [(labelled (DURATION @ ''_bucket'') ''le'' (ascii ''+Inf''), of_nat (length (latencies es))),
        (ascii (DURATION @ ''_sum''), sum_list (map (\<lambda>us. of_nat (min us (2 ^ 64 - 1))) (latencies es))),
        (ascii (DURATION @ ''_count''), of_nat (length (latencies es))),
        (ascii ''drorb_config_generation'', generation g), (ascii ''drorb_reloads_applied_total'', reloads_applied g),
        (ascii ''drorb_reloads_rejected_total'', reloads_rejected g), (ascii ''drorb_draining'', if draining g then 1 else 0)]
     @ (case pool_stats g of
          None \<Rightarrow> []
        | Some (reused, dialed) \<Rightarrow>
            [(ascii ''drorb_upstream_conn_reused_total'', reused), (ascii ''drorb_upstream_conn_dialed_total'', dialed)])"

lemma counted_labels: "(k, n) \<in> set (counted ks) \<Longrightarrow> k \<in> set ks"
  by (auto simp: counted_def)

lemma metric_names:
  "name_ok (ascii ''drorb_requests_total'')" "name_ok (ascii ''drorb_tls_requests_total'')"
  "name_ok (ascii ''drorb_tls_pq_requests_total'')" "name_ok (ascii ''drorb_tls_connections_total'')"
  "name_ok (ascii ''drorb_responses_total'')" "name_ok (ascii ''drorb_response_bytes_total'')"
  "name_ok (ascii ''drorb_active_connections'')" "name_ok (ascii ''drorb_backend_requests_total'')"
  "name_ok (ascii ''drorb_requests_refused_total'')" "name_ok (ascii (DURATION @ ''_bucket''))"
  "name_ok (ascii (DURATION @ ''_sum''))" "name_ok (ascii (DURATION @ ''_count''))"
  "name_ok (ascii ''drorb_config_generation'')" "name_ok (ascii ''drorb_reloads_applied_total'')"
  "name_ok (ascii ''drorb_reloads_rejected_total'')" "name_ok (ascii ''drorb_draining'')"
  "name_ok (ascii ''drorb_upstream_conn_reused_total'')" "name_ok (ascii ''drorb_upstream_conn_dialed_total'')"
  by (simp_all add: name_ok_def DURATION_def)

lemma metric_labels:
  "label_ok (ascii ''alpn'')" "label_ok (ascii ''class'')" "label_ok (ascii ''backend'')" "label_ok (ascii ''reason'')"
  "label_ok (ascii ''le'')" "label_ok (ascii ''+Inf'')" "label_ok (ascii ''2xx'')" "label_ok (ascii ''3xx'')"
  "label_ok (ascii ''4xx'')" "label_ok (ascii ''5xx'')" "label_ok (ascii ''other'')" "label_ok (ascii ''conn_limit'')"
  "label_ok (ascii ''rate_limit'')" "label_ok (ascii ''timeout'')" "label_ok (ascii ''body_limit'')"
  by (simp_all add: label_ok_def)

lemma name_ok_counted:
  assumes "name_ok (ascii name)" "label_ok (ascii label)" "\<forall>k \<in> set ks. label_ok k"
    "nv \<in> set (map (\<lambda>(k, n). (labelled name label k, n)) (counted ks))"
  shows "name_ok (fst nv)"
  using assms by (auto dest!: counted_labels intro!: name_ok_labelled)



text \<open>The help texts have no line end.\<close>

definition one_liner :: "string \<Rightarrow> bool" where
  "one_liner s \<longleftrightarrow> LF \<notin> set (ascii s)"

lemma metric_helps:
  "one_liner ''counter''" "one_liner ''gauge''" "one_liner ''histogram''"
  "one_liner ''Requests served through the host loop.''"
  "one_liner ''Requests served over the HTTPS front door (subset of drorb_requests_total).''"
  "one_liner ''HTTPS requests whose connection negotiated the X25519MLKEM768 post-quantum hybrid key exchange.''"
  "one_liner ''HTTPS connections by negotiated ALPN protocol. Requests on an h2 connection ARE now itemised (the proven H2 engine reports each via drorb_h2_obs_req).''"
  "one_liner ''Responses by status class.''"
  "one_liner ''Total response bytes written.''"
  "one_liner ''Connection handlers in flight.''"
  "one_liner ''Proxied requests per backend.''"
  "one_liner ''Requests refused at the reactor DoS gate, by reason.''"
  "one_liner ''Request handling latency in microseconds.''"
  "one_liner ''Active operator-config generation.''"
  "one_liner ''SIGHUP reconfigs applied.''"
  "one_liner ''SIGHUP reconfigs rejected (fail-safe).''"
  "one_liner ''1 while a reconfig swap is in progress or an operator drain is active.''"
  "one_liner ''Upstream forwards served on a pooled keep-alive socket (dial skipped).''"
  "one_liner ''Upstream forwards that opened a fresh connection (pool miss or stale entry).''"
  by (simp_all add: one_liner_def)

lemma scrape_several:
  assumes "name_ok (ascii name)" "one_liner help" "one_liner kind" "\<forall>nv \<in> set samples. name_ok (fst nv)"
  shows "scrape (family name help kind samples @ rest) = map shown samples @ scrape rest"
  using assms by (intro scrape_family) (simp_all add: name_ok_def one_liner_def)

lemma scrape_one:
  assumes "name_ok (ascii name)" "one_liner help" "one_liner kind"
  shows "scrape (family name help kind [(ascii name, v)] @ rest) = shown (ascii name, v) # scrape rest"
  using scrape_several [OF assms, of "[(ascii name, v)]"] assms(1) by simp

lemma scrape_counted:
  assumes "name_ok (ascii name)" "one_liner help" "one_liner kind" "label_ok (ascii label)" "\<forall>k \<in> set ks. label_ok k"
  shows "scrape (family name help kind (map (\<lambda>(k, n). (labelled name label k, n)) (counted ks)) @ rest)
    = map shown (map (\<lambda>(k, n). (labelled name label k, n)) (counted ks)) @ scrape rest"
  using assms name_ok_counted [OF assms(1,4,5)] by (intro scrape_several ballI)

lemma scrape_if:
  "c = [] \<or> scrape (page @ rest) = map shown (map f c) @ scrape rest \<Longrightarrow>
   scrape ((if c = [] then [] else page) @ rest) = map shown (map f c) @ scrape rest"
  by auto

lemmas page_facts = metric_names metric_labels metric_helps name_ok_labelled

lemma scrape_traffic:
  assumes "\<forall>a \<in> set (protocols es). label_ok a"
  shows "scrape (traffic_page (metrics_run es) @ rest) =
    map shown ([(ascii ''drorb_requests_total'', of_nat (length (classes es))),
      (ascii ''drorb_tls_requests_total'', of_nat (length (tls_kinds es))),
      (ascii ''drorb_tls_pq_requests_total'', tally id (tls_kinds es))]
     @ map (\<lambda>(a, n). (labelled ''drorb_tls_connections_total'' ''alpn'' a, n)) (counted (protocols es))
     @ map (\<lambda>(c, n). (labelled ''drorb_responses_total'' ''class'' (ascii c), n))
         [(''2xx'', tally (\<lambda>c. c = Some 2) (classes es)), (''3xx'', tally (\<lambda>c. c = Some 3) (classes es)),
          (''4xx'', tally (\<lambda>c. c = Some 4) (classes es)), (''5xx'', tally (\<lambda>c. c = Some 5) (classes es)),
          (''other'', tally (\<lambda>c. c \<notin> {Some 2, Some 3, Some 4, Some 5}) (classes es))]
     @ [(ascii ''drorb_response_bytes_total'', sum_list (lengths es))]) @ scrape rest"
  unfolding traffic_page_def append_assoc metrics_counts
  by (simp add: scrape_one scrape_if scrape_counted scrape_several page_facts assms del: ascii_simps)

lemma scrape_gate:
  assumes "\<forall>b \<in> set (dialled es). label_ok b"
  shows "scrape (gate_page (metrics_run es) g @ rest) =
    map shown ([(ascii ''drorb_active_connections'', total_active g)]
     @ map (\<lambda>(b, n). (labelled ''drorb_backend_requests_total'' ''backend'' b, n)) (counted (dialled es))
     @ map (\<lambda>(r, e). (labelled ''drorb_requests_refused_total'' ''reason'' (ascii r), tally (\<lambda>x. x = e) es))
         [(''conn_limit'', ConnRefused), (''rate_limit'', RateRefused), (''timeout'', TimedOut), (''body_limit'', BodyRefused)]
     @ latency_samples (metrics_run es)) @ scrape rest"
proof -
  have lat: "\<forall>nv \<in> set (latency_samples (metrics_run es)). name_ok (fst nv)"
    unfolding latency_samples_counts by (auto simp: page_facts simp del: ascii_simps ascii_append)
  have name: "name_ok (ascii DURATION)"
    by (simp add: name_ok_def DURATION_def)
  show ?thesis
    unfolding gate_page_def append_assoc metrics_counts
    by (simp add: scrape_one scrape_counted scrape_several page_facts name lat assms del: ascii_simps ascii_append)
qed

lemma scrape_state:
  "scrape (state_page g) =
    map shown ([(ascii ''drorb_config_generation'', generation g), (ascii ''drorb_reloads_applied_total'', reloads_applied g),
        (ascii ''drorb_reloads_rejected_total'', reloads_rejected g), (ascii ''drorb_draining'', if draining g then 1 else 0)]
     @ (case pool_stats g of
          None \<Rightarrow> []
        | Some (reused, dialed) \<Rightarrow>
            [(ascii ''drorb_upstream_conn_reused_total'', reused), (ascii ''drorb_upstream_conn_dialed_total'', dialed)]))"
proof -
  have last: "scrape (family n h k [(ascii n, v)]) = [shown (ascii n, v)]"
    if "name_ok (ascii n)" "one_liner h" "one_liner k" for n h k v
    using scrape_one [OF that, of v "[]"] by simp
  show ?thesis
  proof (cases "pool_stats g")
    case None
    then show ?thesis
      unfolding state_page_def append_assoc
      by (simp add: scrape_one last page_facts del: ascii_simps)
  next
    case (Some p)
    then show ?thesis
      unfolding state_page_def append_assoc
      by (cases p) (simp add: scrape_one last page_facts del: ascii_simps)
  qed
qed

text \<open>
  C37: The metrics page reports the events. Whatever sequence of requests, latencies, TLS connections and refusals
  the host counted, a scraper of the page reads, in order and with the documented names, exactly the numbers of
  those events modulo \<open>2 ^ 64\<close>: requests in total and by status class, bytes, requests by backend, connections by
  protocol, refusals by reason; and the histogram gives for each bound the number of latencies that do not exceed it.
\<close>

theorem metrics_page_reports_events:
  assumes "\<forall>a \<in> set (protocols es). label_ok a" "\<forall>b \<in> set (dialled es). label_ok b"
  shows "scrape (render (metrics_run es) g) = map shown (expected_samples es g)"
  unfolding render_def scrape_traffic [OF assms(1)] scrape_gate [OF assms(2)] scrape_state expected_samples_def
    latency_samples_counts
  by (simp del: ascii_simps ascii_append)

definition demo_events :: "metric_event list" where
  "demo_events = [Served (ascii ''HTTP/1.1 200 OK'' @ CRLF) 40 (Some (ascii ''10.0.0.2:80'')), Latency 300, ConnRefused,
     Served (ascii ''HTTP/1.1 404 Not Found'' @ CRLF) 2 None, Latency 90]"

definition demo_gauges :: gauges where
  "demo_gauges = \<lparr> total_active = 1, generation = 0, reloads_applied = 0, reloads_rejected = 0, draining = False, pool_stats = None \<rparr>"

theorem metrics_page_reports_events_witness:
  "list_all label_ok (dialled demo_events) \<and>
   scrape (render (metrics_run demo_events) demo_gauges) = map shown (expected_samples demo_events demo_gauges) \<and>
   shown (ascii ''drorb_requests_total'', 2) \<in> set (map shown (expected_samples demo_events demo_gauges))"
proof (intro conjI)
  show "list_all label_ok (dialled demo_events)"
    by (simp add: demo_events_def dialled_def map_filter_def label_ok_def)
  then show "scrape (render (metrics_run demo_events) demo_gauges) = map shown (expected_samples demo_events demo_gauges)"
    by (intro metrics_page_reports_events) (simp_all add: list_all_iff demo_events_def protocols_def map_filter_def)
  show "shown (ascii ''drorb_requests_total'', 2) \<in> set (map shown (expected_samples demo_events demo_gauges))"
    by (simp add: expected_samples_def demo_events_def classes_def map_filter_def del: ascii_simps)
qed

end
