(* ===== verification/Renewal.thy ===== *)
theory Renewal
  imports Calendar Formatting
begin

unbundle bit_operations_syntax

text \<open>
  The certificate renewal scheduler (\<^verbatim>\<open>renewal.rs\<close>): the DER walk to the validity of a leaf, its two
  times, the decision that a leaf is due, the sweep of the on-demand cache with its per-name rate limit, and the
  ticks of the scheduler. The issuing subprocess, the directory and the files are arguments; so is the floating-point
  product of a lifetime with the configured fraction. Offsets and times are far below the machine's word.
\<close>

section \<open>DER\<close>

record tlv =
  tlv_tag :: byte
  tlv_content :: bytes
  tlv_end :: nat

definition be_nat :: "bytes \<Rightarrow> nat" where
  "be_nat = foldl (\<lambda>l b. 256 * l + unat b) 0"

text \<open>The header at \<open>off\<close>: the length of the content and of the header itself.\<close>

definition tlv_header :: "bytes \<Rightarrow> nat \<Rightarrow> (nat \<times> nat) option" where
  "tlv_header buf off =
     (let len_byte = buf ! (off + 1) in
      if len_byte < 0x80 then Some (unat len_byte, 2)
      else (let n = unat (len_byte AND 0x7f) in
            if n = 0 \<or> 4 < n then None
            else if off + 2 + n \<le> length buf then Some (be_nat (take n (drop (off + 2) buf)), 2 + n)
            else None))"

definition read_tlv :: "bytes \<Rightarrow> nat \<Rightarrow> tlv option" where
  "read_tlv buf off =
     (if off + 1 < length buf then
        case tlv_header buf off of
          None \<Rightarrow> None
        | Some (len, hdr) \<Rightarrow>
            (if length buf < off + hdr + len then None
             else Some \<lparr> tlv_tag = buf ! off, tlv_content = take len (drop (off + hdr) buf), tlv_end = off + hdr + len \<rparr>)
      else None)"

section \<open>Times\<close>

text \<open>\<open>str::get\<close> of a range: in range and on character boundaries.\<close>

definition char_boundary :: "bytes \<Rightarrow> nat \<Rightarrow> bool" where
  "char_boundary s i \<longleftrightarrow> i = 0 \<or> i = length s \<or> i < length s \<and> \<not> cont_byte (s ! i)"

definition str_get :: "bytes \<Rightarrow> nat \<Rightarrow> nat \<Rightarrow> bytes option" where
  "str_get s a b =
     (if a \<le> b \<and> b \<le> length s \<and> char_boundary s a \<and> char_boundary s b then Some (take (b - a) (drop a s)) else None)"

text \<open>\<open>str::parse\<close> for \<open>i64\<close>.\<close>

definition parse_i64 :: "bytes \<Rightarrow> int option" where
  "parse_i64 s =
     (let neg = (case s of b # rest \<Rightarrow> b = 45 | [] \<Rightarrow> False);
          digits = (case s of b # rest \<Rightarrow> if b = 45 \<or> b = 43 then rest else s | [] \<Rightarrow> s) in
      if digits = [] then None
      else case dec_value 0 digits of
             None \<Rightarrow> None
           | Some n \<Rightarrow>
               (let v = (if neg then - int n else int n) in
                if - (2 ^ 63) \<le> v \<and> v < 2 ^ 63 then Some v else None))"

definition get_int :: "bytes \<Rightarrow> nat \<Rightarrow> nat \<Rightarrow> int option" where
  "get_int s a b = Option.bind (str_get s a b) parse_i64"

definition asn1_year :: "byte \<Rightarrow> bytes \<Rightarrow> (int \<times> bytes) option" where
  "asn1_year tag s =
     (if tag = 0x17 then
        map_option (\<lambda>yy. (if yy < 50 then 2000 + yy else 1900 + yy, drop 2 s)) (get_int s 0 2)
      else if tag = 0x18 then map_option (\<lambda>yyyy. (yyyy, drop 4 s)) (get_int s 0 4)
      else None)"

definition parse_asn1_time :: "byte \<Rightarrow> bytes \<Rightarrow> int option" where
  "parse_asn1_time tag content =
     (if utf8_valid content \<and> ends_with content [90] then
        case asn1_year tag (butlast content) of
          None \<Rightarrow> None
        | Some (year, rest) \<Rightarrow>
            (case (get_int rest 0 2, get_int rest 2 4, get_int rest 4 6, get_int rest 6 8) of
               (Some mon, Some day, Some hour, Some mins) \<Rightarrow>
                 (let sec = (case get_int rest 8 10 of None \<Rightarrow> 0 | Some x \<Rightarrow> x) in
                  if \<not> (1 \<le> mon \<and> mon \<le> 12) \<or> \<not> (1 \<le> day \<and> day \<le> 31) then None
                  else Some (days_from_civil year mon day * 86400 + hour * 3600 + mins * 60 + sec))
             | _ \<Rightarrow> None)
      else None)"

section \<open>The validity of a leaf\<close>

text \<open>\<open>read_tlv(body, off)?.end\<close>.\<close>

definition skip_tlv :: "bytes \<Rightarrow> nat option \<Rightarrow> nat option" where
  "skip_tlv body off = Option.bind off (\<lambda>o'. map_option tlv_end (read_tlv body o'))"

definition read_validity :: "bytes \<Rightarrow> (int \<times> int) option" where
  "read_validity content =
     (case read_tlv content 0 of
        None \<Rightarrow> None
      | Some nb \<Rightarrow>
          (case parse_asn1_time (tlv_tag nb) (tlv_content nb) of
             None \<Rightarrow> None
           | Some not_before \<Rightarrow>
               (case read_tlv content (tlv_end nb) of
                  None \<Rightarrow> None
                | Some na \<Rightarrow> map_option (\<lambda>not_after. (not_before, not_after)) (parse_asn1_time (tlv_tag na) (tlv_content na)))))"

definition tbs_validity :: "bytes \<Rightarrow> (int \<times> int) option" where
  "tbs_validity body =
     (case read_tlv body 0 of
        None \<Rightarrow> None
      | Some first \<Rightarrow>
          (let off = Some (if tlv_tag first = 0xA0 then tlv_end first else 0);
               off = skip_tlv body off;
               off = skip_tlv body off;
               off = skip_tlv body off
           in case Option.bind off (read_tlv body) of
                None \<Rightarrow> None
              | Some validity \<Rightarrow> if tlv_tag validity = 0x30 then read_validity (tlv_content validity) else None))"

definition parse_validity :: "bytes \<Rightarrow> (int \<times> int) option" where
  "parse_validity der =
     (case read_tlv der 0 of
        None \<Rightarrow> None
      | Some cert \<Rightarrow>
          if tlv_tag cert \<noteq> 0x30 then None
          else (case read_tlv (tlv_content cert) 0 of
                  None \<Rightarrow> None
                | Some tbs \<Rightarrow> if tlv_tag tbs \<noteq> 0x30 then None else tbs_validity (tlv_content tbs)))"

section \<open>The decision\<close>

text \<open>\<open>scaled l\<close> is \<open>(l as f64 * fraction) as i64\<close>.\<close>

definition due :: "int \<Rightarrow> int \<Rightarrow> int \<Rightarrow> (int \<Rightarrow> int) \<Rightarrow> bool" where
  "due now not_before not_after scaled \<longleftrightarrow> not_after - now \<le> scaled (max (not_after - not_before) 1)"

definition is_ascii_alphanumeric :: "byte \<Rightarrow> bool" where
  "is_ascii_alphanumeric b \<longleftrightarrow> 48 \<le> b \<and> b \<le> 57 \<or> 65 \<le> b \<and> b \<le> 90 \<or> 97 \<le> b \<and> b \<le> 122"

definition plausible_sni :: "bytes \<Rightarrow> bool" where
  "plausible_sni h \<longleftrightarrow>
     h \<noteq> [] \<and> length h \<le> 253 \<and> find_sub h [46, 46] = None \<and>
     list_all (\<lambda>b. is_ascii_alphanumeric b \<or> b \<in> {45, 46, 42, 95}) h"

definition dirname :: "bytes \<Rightarrow> bytes" where
  "dirname path =
     (case position (\<lambda>b. b = 47) (rev path) of
        None \<Rightarrow> [46]
      | Some k \<Rightarrow> (let i = length path - 1 - k in if i = 0 then [47] else take i path))"

section \<open>The sweep\<close>

record sweep_cfg =
  scaled_fraction :: "int \<Rightarrow> int"
  min_reattempt :: u64

text \<open>A directory entry: its name as text, whether it is a directory, and the leaf file below it.\<close>

record cache_dir_entry =
  entry_name :: bytes
  entry_is_dir :: bool
  entry_leaf :: "bytes option"

datatype renew_action = Issue | Remint bytes | ReloadSni bytes

record sweep_state =
  last_attempt :: "bytes \<Rightarrow> int option"
  actions :: "(int \<times> renew_action) list"

definition sweep_entry :: "sweep_cfg \<Rightarrow> int \<Rightarrow> bool \<Rightarrow> (bytes \<Rightarrow> bool) \<Rightarrow> cache_dir_entry \<Rightarrow> sweep_state \<Rightarrow> sweep_state" where
  "sweep_entry cfg now force mints e s =
     (if \<not> entry_is_dir e then s
      else let name = utf8_lossy (entry_name e) in
        if \<not> plausible_sni name then s
        else case entry_leaf e of
          None \<Rightarrow> s
        | Some der \<Rightarrow>
            (case parse_validity der of
               None \<Rightarrow> s
             | Some (nb, na) \<Rightarrow>
                 if \<not> (due now nb na (scaled_fraction cfg) \<or> force) then s
                 else if (case last_attempt s name of None \<Rightarrow> False | Some prev \<Rightarrow> now - prev < sint (min_reattempt cfg)) then s
                 else (let s = s\<lparr> last_attempt := (last_attempt s)(name \<mapsto> now), actions := actions s @ [(now, Remint name)] \<rparr>
                       in if mints name then s\<lparr> actions := actions s @ [(now, ReloadSni name)] \<rparr> else s)))"

text \<open>An unreadable cache directory gives no entries.\<close>

definition sweep :: "sweep_cfg \<Rightarrow> int \<Rightarrow> bool \<Rightarrow> (bytes \<Rightarrow> bool) \<Rightarrow> cache_dir_entry list option \<Rightarrow> sweep_state \<Rightarrow> sweep_state" where
  "sweep cfg now force mints rd s =
     (case rd of None \<Rightarrow> s | Some es \<Rightarrow> fold (sweep_entry cfg now force mints) es s)"

section \<open>The configured leaf and the scheduler\<close>

definition tick_leaf :: "(int \<Rightarrow> int) \<Rightarrow> int \<Rightarrow> bool \<Rightarrow> bytes option \<Rightarrow> bool" where
  "tick_leaf scaled now force leaf =
     (let should = (case Option.bind leaf parse_validity of
                      Some (nb, na) \<Rightarrow> due now nb na scaled
                    | None \<Rightarrow> True)
      in should \<or> force)"

record tick =
  tick_now :: int
  tick_leaf_file :: "bytes option"
  tick_dir :: "cache_dir_entry list option"
  tick_mints :: "bytes \<Rightarrow> bool"

record scheduler =
  leaf_forced :: bool
  sweep_forced :: bool
  sweeping :: sweep_state

definition scheduler_tick :: "(int \<Rightarrow> int) option \<Rightarrow> sweep_cfg option \<Rightarrow> tick \<Rightarrow> scheduler \<Rightarrow> scheduler" where
  "scheduler_tick leaf sweep_c t s =
     (let s = (case leaf of
                 None \<Rightarrow> s
               | Some scaled \<Rightarrow>
                   (let s = (if tick_leaf scaled (tick_now t) (leaf_forced s) (tick_leaf_file t)
                             then s\<lparr> sweeping := (sweeping s)\<lparr> actions := actions (sweeping s) @ [(tick_now t, Issue)] \<rparr> \<rparr>
                             else s)
                    in s\<lparr> leaf_forced := False \<rparr>))
      in case sweep_c of
           None \<Rightarrow> s
         | Some c \<Rightarrow>
             s\<lparr> sweeping := sweep c (tick_now t) (sweep_forced s) (tick_mints t) (tick_dir t) (sweeping s), sweep_forced := False \<rparr>)"

definition scheduler_start :: "bool \<Rightarrow> bool \<Rightarrow> scheduler" where
  "scheduler_start force_now sweep_now =
     \<lparr> leaf_forced = force_now, sweep_forced = force_now \<or> sweep_now,
       sweeping = \<lparr> last_attempt = (\<lambda>_. None), actions = [] \<rparr> \<rparr>"

text \<open>The ticks until the process shuts down.\<close>

definition scheduler_run :: "(int \<Rightarrow> int) option \<Rightarrow> sweep_cfg option \<Rightarrow> bool \<Rightarrow> bool \<Rightarrow> tick list \<Rightarrow> (int \<times> renew_action) list" where
  "scheduler_run leaf sweep_c force_now sweep_now ts =
     actions (sweeping (fold (scheduler_tick leaf sweep_c) ts (scheduler_start force_now sweep_now)))"

section \<open>Renewals are rate limited\<close>

text \<open>The attempts for one name, with their times.\<close>

definition attempts :: "bytes \<Rightarrow> (int \<times> renew_action) list \<Rightarrow> int list" where
  "attempts name acts = map fst (filter (\<lambda>(t, a). a = Remint name) acts)"

definition spaced :: "int \<Rightarrow> int list \<Rightarrow> bool" where
  "spaced gap = sorted_wrt (\<lambda>a b. a + gap \<le> b)"

definition limit_inv :: "int \<Rightarrow> sweep_state \<Rightarrow> bool" where
  "limit_inv gap s \<longleftrightarrow>
     (\<forall>name. spaced gap (attempts name (actions s)) \<and>
             last_attempt s name = (if attempts name (actions s) = [] then None else Some (last (attempts name (actions s)))))"

lemma attempts_simps [simp]:
  "attempts name [] = []"
  "attempts name (acts @ [(t, a)]) = (if a = Remint name then attempts name acts @ [t] else attempts name acts)"
  by (simp_all add: attempts_def)

lemma spaced_Nil [simp]: "spaced gap []"
  by (simp add: spaced_def)

lemma spaced_snoc:
  assumes "spaced gap ts" "0 \<le> gap" "ts \<noteq> [] \<Longrightarrow> last ts + gap \<le> t"
  shows "spaced gap (ts @ [t])"
proof (cases ts rule: rev_cases)
  case (snoc us u)
  then have "a + gap \<le> u" if "a \<in> set us" for a
    using assms(1) that by (simp add: spaced_def sorted_wrt_append)
  then show ?thesis
    using assms snoc by (fastforce simp: spaced_def sorted_wrt_append)
qed (simp add: spaced_def)

lemma limit_inv_other:
  assumes "limit_inv gap s" "\<And>name. a \<noteq> Remint name"
  shows "limit_inv gap (s\<lparr> actions := actions s @ [(t, a)] \<rparr>)"
  using assms by (simp add: limit_inv_def)

lemma limit_inv_attempt:
  assumes "limit_inv gap s" "0 \<le> gap" "\<not> (case last_attempt s name of None \<Rightarrow> False | Some prev \<Rightarrow> now - prev < gap)"
  shows "limit_inv gap (s\<lparr> last_attempt := (last_attempt s)(name \<mapsto> now), actions := actions s @ [(now, Remint name)] \<rparr>)"
proof -
  have "spaced gap (attempts name (actions s) @ [now])"
    using assms by (intro spaced_snoc) (auto simp: limit_inv_def)
  then show ?thesis
    using assms(1) by (auto simp: limit_inv_def)
qed

lemma limit_inv_sweep_entry:
  assumes "limit_inv (sint (min_reattempt cfg)) s" "0 \<le> sint (min_reattempt cfg)"
  shows "limit_inv (sint (min_reattempt cfg)) (sweep_entry cfg now force mints e s)"
  using assms limit_inv_attempt [OF assms] limit_inv_other [OF limit_inv_attempt [OF assms]]
  by (simp add: sweep_entry_def Let_def split: option.split)

lemma limit_inv_sweep:
  assumes "limit_inv (sint (min_reattempt cfg)) s" "0 \<le> sint (min_reattempt cfg)"
  shows "limit_inv (sint (min_reattempt cfg)) (sweep cfg now force mints rd s)"
proof -
  have "limit_inv (sint (min_reattempt cfg)) (fold (sweep_entry cfg now force mints) es s)" for es
    using assms by (induction es arbitrary: s) (simp_all add: limit_inv_sweep_entry)
  then show ?thesis
    using assms by (simp add: sweep_def split: option.split)
qed

lemma limit_inv_tick:
  assumes "limit_inv (sint (min_reattempt cfg)) (sweeping s)" "0 \<le> sint (min_reattempt cfg)"
  shows "limit_inv (sint (min_reattempt cfg)) (sweeping (scheduler_tick leaf (Some cfg) t s))"
  using assms limit_inv_other [OF assms(1)]
  by (auto simp: scheduler_tick_def Let_def intro!: limit_inv_sweep split: option.split)

lemma limit_inv_run:
  assumes "limit_inv (sint (min_reattempt cfg)) (sweeping s)" "0 \<le> sint (min_reattempt cfg)"
  shows "limit_inv (sint (min_reattempt cfg)) (sweeping (fold (scheduler_tick leaf (Some cfg)) ts s))"
  using assms by (induction ts arbitrary: s) (simp_all add: limit_inv_tick)

text \<open>
  C34: Renewals of one name are rate limited. Whatever leaves the cache holds, whatever the issuer answers, however the
  clock moves and whether or not renewals are forced, two attempts to re-mint the leaf of one name are at least
  \<open>min_reattempt\<close> seconds apart by the clock the scheduler reads.
\<close>

theorem remints_are_rate_limited:
  assumes "sint (min_reattempt cfg) = int gap"
  shows "sorted_wrt (\<lambda>a b. a + int gap \<le> b) (attempts name (scheduler_run leaf (Some cfg) force_now sweep_now ts))"
proof -
  have "limit_inv (int gap) (sweeping (scheduler_start force_now sweep_now))"
    by (simp add: limit_inv_def scheduler_start_def)
  then have "limit_inv (int gap) (sweeping (fold (scheduler_tick leaf (Some cfg)) ts (scheduler_start force_now sweep_now)))"
    using limit_inv_run [of cfg "scheduler_start force_now sweep_now" leaf ts] assms by simp
  then show ?thesis
    by (simp add: limit_inv_def scheduler_run_def spaced_def)
qed

section \<open>A sweep attempts exactly the due names\<close>

definition wants_renewal :: "sweep_cfg \<Rightarrow> int \<Rightarrow> bool \<Rightarrow> sweep_state \<Rightarrow> cache_dir_entry \<Rightarrow> bool" where
  "wants_renewal cfg now force s e \<longleftrightarrow>
     entry_is_dir e \<and> plausible_sni (utf8_lossy (entry_name e)) \<and>
     (\<exists>der nb na. entry_leaf e = Some der \<and> parse_validity der = Some (nb, na) \<and>
        (force \<or> due now nb na (scaled_fraction cfg))) \<and>
     (\<forall>prev. last_attempt s (utf8_lossy (entry_name e)) = Some prev \<longrightarrow> sint (min_reattempt cfg) \<le> now - prev)"

lemma sweep_entry_wants:
  "sweep_entry cfg now force mints e s =
     (if wants_renewal cfg now force s e then
        s\<lparr> last_attempt := (last_attempt s)(utf8_lossy (entry_name e) \<mapsto> now),
           actions := actions s @ [(now, Remint (utf8_lossy (entry_name e)))]
             @ (if mints (utf8_lossy (entry_name e)) then [(now, ReloadSni (utf8_lossy (entry_name e)))] else []) \<rparr>
      else s)"
  by (auto simp: sweep_entry_def wants_renewal_def Let_def split: option.splits)

lemma sweep_attempts_due:
  assumes "distinct (map (\<lambda>e. utf8_lossy (entry_name e)) es)"
  shows "actions (fold (sweep_entry cfg now force mints) es s) = actions s @
    concat (map (\<lambda>e. (now, Remint (utf8_lossy (entry_name e)))
        # (if mints (utf8_lossy (entry_name e)) then [(now, ReloadSni (utf8_lossy (entry_name e)))] else []))
      (filter (wants_renewal cfg now force s) es))"
  using assms
proof (induction es arbitrary: s)
  case (Cons e es)
  let ?s = "sweep_entry cfg now force mints e s"
  have "wants_renewal cfg now force ?s x = wants_renewal cfg now force s x" if "x \<in> set es" for x
  proof -
    have "utf8_lossy (entry_name x) \<noteq> utf8_lossy (entry_name e)"
      using that Cons.prems by (auto simp: image_iff)
    then have "last_attempt ?s (utf8_lossy (entry_name x)) = last_attempt s (utf8_lossy (entry_name x))"
      by (simp add: sweep_entry_wants)
    then show ?thesis
      by (simp only: wants_renewal_def)
  qed
  then have "filter (wants_renewal cfg now force ?s) es = filter (wants_renewal cfg now force s) es"
    by (simp cong: filter_cong)
  then have "actions (fold (sweep_entry cfg now force mints) es ?s) = actions ?s @
      concat (map (\<lambda>e. (now, Remint (utf8_lossy (entry_name e)))
        # (if mints (utf8_lossy (entry_name e)) then [(now, ReloadSni (utf8_lossy (entry_name e)))] else []))
      (filter (wants_renewal cfg now force s) es))"
    using Cons.IH [of ?s] Cons.prems by simp
  moreover have "actions ?s = actions s @ (if wants_renewal cfg now force s e then
      (now, Remint (utf8_lossy (entry_name e)))
        # (if mints (utf8_lossy (entry_name e)) then [(now, ReloadSni (utf8_lossy (entry_name e)))] else []) else [])"
    by (simp add: sweep_entry_wants)
  ultimately show ?case
    by simp
qed simp

section \<open>Reading DER back\<close>

text \<open>A header with a length in \<open>k\<close> octets, or in the short form for \<open>k = 0\<close>.\<close>

fun be_octets :: "nat \<Rightarrow> nat \<Rightarrow> bytes" where
  "be_octets 0 n = []"
| "be_octets (Suc k) n = be_octets k (n div 256) @ [of_nat (n mod 256)]"

definition der_tlv :: "nat \<Rightarrow> byte \<Rightarrow> bytes \<Rightarrow> bytes" where
  "der_tlv k tag content =
     tag # (if k = 0 then [of_nat (length content)] else of_nat (128 + k) # be_octets k (length content)) @ content"

definition der_fits :: "nat \<Rightarrow> bytes \<Rightarrow> bool" where
  "der_fits k content \<longleftrightarrow> (if k = 0 then length content < 128 else k \<le> 4 \<and> length content < 256 ^ k)"

lemma length_be_octets [simp]: "length (be_octets k n) = k"
  by (induction k arbitrary: n) simp_all

lemma be_nat_be_octets: "n < 256 ^ k \<Longrightarrow> be_nat (be_octets k n) = n"
proof (induction k arbitrary: n)
  case (Suc k)
  have "n div 256 < 256 ^ k"
    using Suc.prems by (simp add: div_less_iff_less_mult mult.commute)
  moreover have "unat (of_nat (n mod 256) :: byte) = n mod 256"
    by (simp add: unat_of_nat)
  ultimately show ?case
    using Suc.IH [of "n div 256"] by (simp add: be_nat_def del: of_nat_mod)
qed (simp add: be_nat_def)

lemma short_form:
  assumes "n < 128"
  shows "(of_nat n :: byte) < 0x80 \<and> unat (of_nat n :: byte) = n"
  using assms by (simp add: word_less_nat_alt unat_of_nat)

lemma long_form:
  assumes "0 < k" "k \<le> 4"
  shows "\<not> (of_nat (128 + k) :: byte) < 0x80 \<and> unat ((of_nat (128 + k) :: byte) AND 0x7f) = k"
proof -
  consider "k = 1" | "k = 2" | "k = 3" | "k = 4"
    using assms by linarith
  then show ?thesis
    by cases simp_all
qed

lemma tlv_header_der:
  assumes "der_fits k content"
  shows "tlv_header (pre @ der_tlv k tag content @ post) (length pre) = Some (length content, 2 + k)"
proof (cases "k = 0")
  case True
  then show ?thesis
    using assms short_form [of "length content"] by (simp add: tlv_header_def der_tlv_def der_fits_def nth_append)
next
  case False
  then have k: "0 < k" "k \<le> 4" "length content < 256 ^ k"
    using assms by (auto simp: der_fits_def)
  have "take k (drop (length pre + 2) (pre @ der_tlv k tag content @ post)) = be_octets k (length content)"
    using False by (simp add: der_tlv_def)
  moreover have "(pre @ der_tlv k tag content @ post) ! (length pre + 1) = of_nat (128 + k)"
    using False by (simp add: der_tlv_def nth_append)
  ultimately show ?thesis
    using long_form [OF k(1,2)] be_nat_be_octets [OF k(3)] k
    by (simp add: tlv_header_def Let_def der_tlv_def del: of_nat_add)
qed

lemma read_tlv_der:
  assumes "der_fits k content"
  shows "read_tlv (pre @ der_tlv k tag content @ post) (length pre) =
    Some \<lparr> tlv_tag = tag, tlv_content = content, tlv_end = length pre + length (der_tlv k tag content) \<rparr>"
proof -
  have "length (der_tlv k tag content) = 2 + k + length content"
    by (simp add: der_tlv_def)
  moreover have "drop (length pre + (2 + k)) (pre @ der_tlv k tag content @ post) = content @ post"
    by (simp add: der_tlv_def)
  moreover have "(pre @ der_tlv k tag content @ post) ! length pre = tag"
    by (simp add: der_tlv_def)
  ultimately show ?thesis
    unfolding read_tlv_def tlv_header_der [OF assms] by simp
qed

section \<open>Reading times back\<close>

text \<open>A time as RFC 5280 writes it: \<open>UTCTime\<close> (tag \<open>0x17\<close>) for the years 1950 to 2049, \<open>GeneralizedTime\<close> (tag \<open>0x18\<close>).\<close>

definition two :: "int \<Rightarrow> bytes" where
  "two n = pad_dec 2 (nat n)"

definition asn1_stamp :: "byte \<Rightarrow> int \<Rightarrow> bytes" where
  "asn1_stamp tag t =
     (case civil_from_days (t div 86400) of
        (y, m, d) \<Rightarrow>
          (if tag = 0x17 then two (y mod 100) else pad_dec 4 (nat y)) @ two m @ two d
          @ two (t mod 86400 div 3600) @ two (t mod 3600 div 60) @ two (t mod 60) @ [90])"

definition stamp_ok :: "byte \<Rightarrow> int \<Rightarrow> bool" where
  "stamp_ok tag t \<longleftrightarrow>
     (case civil_from_days (t div 86400) of
        (y, m, d) \<Rightarrow> tag = 0x17 \<and> 1950 \<le> y \<and> y < 2050 \<or> tag = 0x18 \<and> 0 \<le> y \<and> y \<le> 9999)"

lemma digit_ascii: "is_ascii_digit b \<Longrightarrow> b < 128"
  by (rule le_less_trans [of _ 57]) (simp_all add: is_ascii_digit_def)

lemma digits_boundary: "\<forall>b \<in> set s. is_ascii_digit b \<Longrightarrow> i \<le> length s \<Longrightarrow> char_boundary s i"
proof -
  assume s: "\<forall>b \<in> set s. is_ascii_digit b" and i: "i \<le> length s"
  have "\<not> cont_byte (s ! i)" if "i < length s"
  proof -
    have "s ! i < 128"
      using s that by (simp add: digit_ascii)
    then show ?thesis
      by (simp add: cont_byte_def not_le)
  qed
  then show ?thesis
    using i by (auto simp: char_boundary_def)
qed

lemma parse_i64_digits:
  assumes "\<forall>b \<in> set s. is_ascii_digit b" "s \<noteq> []" "dec_value 0 s = Some n" "n < 2 ^ 63"
  shows "parse_i64 s = Some (int n)"
proof -
  obtain b rest where s: "s = b # rest"
    using assms(2) by (cases s) auto
  then have "b \<noteq> 45" "b \<noteq> 43"
    using assms(1) by (auto simp: is_ascii_digit_def)
  note s = s this
  show ?thesis
    using s assms(3,4) by (simp add: parse_i64_def)
qed

lemma get_int_digits:
  assumes "list_all is_ascii_digit (pre @ f @ post)" "f \<noteq> []" "dec_value 0 f = Some n" "n < 2 ^ 63"
  shows "get_int (pre @ f @ post) (length pre) (length pre + length f) = Some (int n)"
proof -
  have digits: "\<forall>b \<in> set (pre @ f @ post). is_ascii_digit b"
    using assms(1) by (simp only: list_all_iff)
  have "str_get (pre @ f @ post) (length pre) (length pre + length f) = Some f"
    using digits_boundary [OF digits, of "length pre"] digits_boundary [OF digits, of "length pre + length f"]
    by (simp add: str_get_def)
  moreover have "parse_i64 f = Some (int n)"
    using assms digits by (intro parse_i64_digits) auto
  ultimately show ?thesis
    by (simp add: get_int_def)
qed

lemma pad_dec_all_digits [simp]: "list_all is_ascii_digit (pad_dec w n)"
  using pad_dec_digits by (auto simp: list_all_iff)

lemma two_digits [simp]: "list_all is_ascii_digit (two n)"
  by (simp add: two_def)

lemma length_two: "0 \<le> n \<Longrightarrow> n < 100 \<Longrightarrow> length (two n) = 2"
  by (simp add: two_def nat_less_iff)

lemma get_two:
  assumes "0 \<le> n" "n < 100" "list_all is_ascii_digit (pre @ post)" "a = length pre" "b = length pre + 2"
  shows "get_int (pre @ two n @ post) a b = Some n"
proof -
  have "get_int (pre @ two n @ post) (length pre) (length pre + length (two n)) = Some (int (nat n))"
  proof (rule get_int_digits)
    show "two n \<noteq> []"
      using length_two [OF assms(1,2)] by auto
    show "nat n < 2 ^ 63"
      using assms(2) by simp
  qed (use assms in \<open>simp_all add: two_def\<close>)
  then show ?thesis
    using assms length_two [of n] by simp
qed

text \<open>The five fields after the year.\<close>

lemma read_fields:
  assumes "0 \<le> mo" "mo < 100" "0 \<le> d" "d < 100" "0 \<le> h" "h < 100" "0 \<le> mi" "mi < 100" "0 \<le> sec" "sec < 100"
    "rest = two mo @ two d @ two h @ two mi @ two sec"
  shows "get_int rest 0 2 = Some mo" "get_int rest 2 4 = Some d" "get_int rest 4 6 = Some h"
    "get_int rest 6 8 = Some mi" "get_int rest 8 10 = Some sec"
proof -
  note len = length_two [OF assms(1,2)] length_two [OF assms(3,4)] length_two [OF assms(5,6)] length_two [OF assms(7,8)]
  show "get_int rest 0 2 = Some mo"
    using get_two [OF assms(1,2), of "[]" "two d @ two h @ two mi @ two sec" 0 2] assms(11) by simp
  show "get_int rest 2 4 = Some d"
    using get_two [OF assms(3,4), of "two mo" "two h @ two mi @ two sec" 2 4] assms(11) len by simp
  show "get_int rest 4 6 = Some h"
    using get_two [OF assms(5,6), of "two mo @ two d" "two mi @ two sec" 4 6] assms(11) len by simp
  show "get_int rest 6 8 = Some mi"
    using get_two [OF assms(7,8), of "two mo @ two d @ two h" "two sec" 6 8] assms(11) len by simp
  show "get_int rest 8 10 = Some sec"
    using get_two [OF assms(9,10), of "two mo @ two d @ two h @ two mi" "[]" 8 10] assms(11) len by simp
qed

lemma read_year:
  assumes "stamp_ok tag t" "civil_from_days (t div 86400) = (y, m, d)" "list_all is_ascii_digit rest"
  shows "asn1_year tag ((if tag = 0x17 then two (y mod 100) else pad_dec 4 (nat y)) @ rest) = Some (y, rest)"
proof (cases "tag = 0x17")
  case True
  then have y: "1950 \<le> y" "y < 2050"
    using assms(1,2) by (auto simp: stamp_ok_def)
  have f: "0 \<le> y mod 100" "y mod 100 < 100"
    by simp_all
  have "get_int (two (y mod 100) @ rest) 0 2 = Some (y mod 100)"
    using get_two [OF f, of "[]" rest 0 2] assms(3) by simp
  moreover have "(if y mod 100 < 50 then 2000 + y mod 100 else 1900 + y mod 100) = y"
  proof (cases "y < 2000")
    case True
    then have "y mod 100 = y - 1900"
      using y by (intro int_mod_pos_eq [of _ _ 19]) auto
    then show ?thesis using y by auto
  next
    case False
    then have "y mod 100 = y - 2000"
      using y by (intro int_mod_pos_eq [of _ _ 20]) auto
    then show ?thesis using y False by auto
  qed
  ultimately show ?thesis
    using True length_two [OF f] by (simp add: asn1_year_def)
next
  case False
  then have y: "0 \<le> y" "y \<le> 9999" "tag = 0x18"
    using assms(1,2) by (auto simp: stamp_ok_def)
  then have len: "length (pad_dec 4 (nat y)) = 4"
    by (simp add: nat_less_iff)
  then have "pad_dec 4 (nat y) \<noteq> []"
    by auto
  then have "get_int (pad_dec 4 (nat y) @ rest) 0 4 = Some y"
    using get_int_digits [of "[]" "pad_dec 4 (nat y)" rest "nat y"] len assms(3) y by simp
  then show ?thesis
    using y len by (simp add: asn1_year_def)
qed

lemma seconds_of_day:
  fixes t :: int
  shows "t div 86400 * 86400 + t mod 86400 div 3600 * 3600 + t mod 3600 div 60 * 60 + t mod 60 = t"
proof -
  have "t mod 86400 mod 3600 = t mod 3600" "t mod 3600 mod 60 = t mod 60"
    by (simp_all add: mod_mod_cancel)
  then have "t mod 86400 = t mod 86400 div 3600 * 3600 + t mod 3600" "t mod 3600 = t mod 3600 div 60 * 60 + t mod 60"
    using div_mult_mod_eq [of "t mod 86400" 3600] div_mult_mod_eq [of "t mod 3600" 60] by simp_all
  then show ?thesis
    using div_mult_mod_eq [of t 86400] by linarith
qed

lemma stamp_round_trip:
  assumes "stamp_ok tag t"
  shows "parse_asn1_time tag (asn1_stamp tag t) = Some t"
proof -
  obtain y m d where c: "civil_from_days (t div 86400) = (y, m, d)"
    by (cases "civil_from_days (t div 86400)") auto
  obtain y' m' d' where v: "valid_date (y', m', d')" "t div 86400 = days_from_civil y' m' d'"
    by (rule days_of_some_date)
  then have "valid_date (y, m, d)" and days: "days_from_civil y m d = t div 86400"
    using c by (auto simp: civil_days_inverse)
  then have md: "1 \<le> m" "m \<le> 12" "1 \<le> d" "d \<le> 31"
    by (auto simp: days_in_month_def split: if_splits)
  let ?h = "t mod 86400 div 3600" and ?mi = "t mod 3600 div 60" and ?s = "t mod 60"
  let ?rest = "two m @ two d @ two ?h @ two ?mi @ two ?s"
  let ?y = "if tag = 0x17 then two (y mod 100) else pad_dec 4 (nat y)"
  have r: "0 \<le> ?h" "?h < 100" "0 \<le> ?mi" "?mi < 100" "0 \<le> ?s" "?s < 100"
    using pos_mod_bound [of 86400 t] pos_mod_bound [of 3600 t] pos_mod_bound [of 60 t]
      pos_mod_sign [of 86400 t] pos_mod_sign [of 3600 t] pos_mod_sign [of 60 t] by linarith+
  have md': "0 \<le> m" "m < 100" "0 \<le> d" "d < 100"
    using md by simp_all
  note f = read_fields [OF md' r refl]
  have digits: "list_all is_ascii_digit ?rest" "list_all is_ascii_digit ?y"
    by simp_all
  have stamp: "asn1_stamp tag t = (?y @ ?rest) @ [90]"
    by (simp add: asn1_stamp_def c)
  have "\<forall>b \<in> set (asn1_stamp tag t). b < 128"
    unfolding stamp using digits digit_ascii by (auto simp: list_all_iff)
  then have "utf8_valid (asn1_stamp tag t)"
    by (simp add: utf8_valid_def utf8_chars_ascii)
  moreover have "ends_with (asn1_stamp tag t) [90]" "butlast (asn1_stamp tag t) = ?y @ ?rest"
    unfolding stamp by (simp add: ends_with_def) (rule butlast_snoc)
  ultimately show ?thesis
    unfolding parse_asn1_time_def using md
    by (simp only: read_year [OF assms c digits(1)] f days seconds_of_day [of t] if_True if_False option.case prod.case Let_def simp_thms)
qed

section \<open>The validity of a certificate\<close>

text \<open>
  The part of an X.509 certificate up to its validity, with any length forms: an optional version, serial number,
  signature algorithm and issuer as arbitrary elements, and arbitrary octets behind the fields that are read.
\<close>

record element =
  el_form :: nat
  el_tag :: byte
  el_content :: bytes

definition der_el :: "element \<Rightarrow> bytes" where
  "der_el e = der_tlv (el_form e) (el_tag e) (el_content e)"

definition el_ok :: "element \<Rightarrow> bool" where
  "el_ok e \<longleftrightarrow> der_fits (el_form e) (el_content e)"

definition validity_el :: "nat \<Rightarrow> byte \<Rightarrow> int \<Rightarrow> byte \<Rightarrow> int \<Rightarrow> bytes \<Rightarrow> element" where
  "validity_el k tag_b nb tag_a na junk =
     \<lparr> el_form = k, el_tag = 0x30,
       el_content = der_tlv 0 tag_b (asn1_stamp tag_b nb) @ der_tlv 0 tag_a (asn1_stamp tag_a na) @ junk \<rparr>"

definition tbs_el :: "nat \<Rightarrow> element option \<Rightarrow> element \<Rightarrow> element \<Rightarrow> element \<Rightarrow> element \<Rightarrow> bytes \<Rightarrow> element" where
  "tbs_el k version serial alg issuer validity rest =
     \<lparr> el_form = k, el_tag = 0x30,
       el_content = (case version of None \<Rightarrow> [] | Some v \<Rightarrow> der_el v)
         @ der_el serial @ der_el alg @ der_el issuer @ der_el validity @ rest \<rparr>"

definition cert_el :: "nat \<Rightarrow> element \<Rightarrow> bytes \<Rightarrow> element" where
  "cert_el k tbs signature = \<lparr> el_form = k, el_tag = 0x30, el_content = der_el tbs @ signature \<rparr>"

lemma read_tlv_el:
  assumes "el_ok e" "off = length pre"
  shows "read_tlv (pre @ der_el e @ post) off =
    Some \<lparr> tlv_tag = el_tag e, tlv_content = el_content e, tlv_end = length pre + length (der_el e) \<rparr>"
  using read_tlv_der [of "el_form e" "el_content e" pre "el_tag e" post] assms by (simp add: der_el_def el_ok_def)

lemma skip_tlv_el:
  "el_ok e \<Longrightarrow> off = length pre \<Longrightarrow> skip_tlv (pre @ der_el e @ post) (Some off) = Some (length pre + length (der_el e))"
  by (simp add: skip_tlv_def read_tlv_el)

lemma length_asn1_stamp: "stamp_ok tag t \<Longrightarrow> length (asn1_stamp tag t) < 128"
proof -
  assume "stamp_ok tag t"
  obtain y m d where c: "civil_from_days (t div 86400) = (y, m, d)"
    by (cases "civil_from_days (t div 86400)") auto
  obtain y' m' d' where v: "valid_date (y', m', d')" "t div 86400 = days_from_civil y' m' d'"
    by (rule days_of_some_date)
  then have "valid_date (y, m, d)"
    using c by (simp add: civil_days_inverse)
  then have md: "0 \<le> m" "m < 100" "0 \<le> d" "d < 100"
    by (auto simp: days_in_month_def split: if_splits)
  have r: "0 \<le> t mod 86400 div 3600" "t mod 86400 div 3600 < 100" "0 \<le> t mod 3600 div 60" "t mod 3600 div 60 < 100"
      "0 \<le> t mod 60" "t mod 60 < 100" "0 \<le> y mod 100" "y mod 100 < 100"
    using pos_mod_bound [of 86400 t] pos_mod_bound [of 3600 t] pos_mod_bound [of 60 t] pos_mod_bound [of 100 y]
      pos_mod_sign [of 86400 t] pos_mod_sign [of 3600 t] pos_mod_sign [of 60 t] pos_mod_sign [of 100 y] by linarith+
  have "tag = 0x17 \<or> nat y < 10 ^ 4"
    using \<open>stamp_ok tag t\<close> c by (auto simp: stamp_ok_def)
  then show ?thesis
    unfolding asn1_stamp_def c using md r by (auto simp: length_two)
qed

lemma read_validity_el:
  assumes "stamp_ok tag_b nb" "stamp_ok tag_a na"
  shows "read_validity (el_content (validity_el k tag_b nb tag_a na junk)) = Some (nb, na)"
proof -
  let ?b = "der_tlv 0 tag_b (asn1_stamp tag_b nb)" and ?a = "der_tlv 0 tag_a (asn1_stamp tag_a na)"
  have fits: "der_fits 0 (asn1_stamp tag_b nb)" "der_fits 0 (asn1_stamp tag_a na)"
    using assms length_asn1_stamp by (simp_all add: der_fits_def)
  have "read_tlv (?b @ ?a @ junk) 0 = Some \<lparr> tlv_tag = tag_b, tlv_content = asn1_stamp tag_b nb, tlv_end = length ?b \<rparr>"
    using read_tlv_der [OF fits(1), of "[]" tag_b "?a @ junk"] by simp
  moreover have "read_tlv (?b @ ?a @ junk) (length ?b) =
      Some \<lparr> tlv_tag = tag_a, tlv_content = asn1_stamp tag_a na, tlv_end = length ?b + length ?a \<rparr>"
    by (rule read_tlv_der [OF fits(2)])
  ultimately show ?thesis
    by (simp add: read_validity_def validity_el_def stamp_round_trip assms)
qed

lemma tbs_validity_el:
  assumes "\<forall>v \<in> set_option version. el_ok v \<and> el_tag v = 0xA0" "el_ok serial" "el_tag serial \<noteq> 0xA0" "el_ok alg" "el_ok issuer"
    "el_ok validity" "el_tag validity = 0x30"
  shows "tbs_validity (el_content (tbs_el k version serial alg issuer validity rest)) = read_validity (el_content validity)"
proof -
  define pre where "pre = (case version of None \<Rightarrow> [] | Some v \<Rightarrow> der_el v)"
  define body where "body = pre @ der_el serial @ der_el alg @ der_el issuer @ der_el validity @ rest"
  have content: "el_content (tbs_el k version serial alg issuer validity rest) = body"
    by (simp add: tbs_el_def body_def pre_def)
  obtain first where first: "read_tlv body 0 = Some first"
    and off: "(if tlv_tag first = 0xA0 then tlv_end first else 0) = length pre"
  proof (cases version)
    case None
    then show ?thesis
      using that read_tlv_el [OF assms(2), of 0 "[]"] assms(3) by (simp add: body_def pre_def)
  next
    case (Some v)
    then show ?thesis
      using that read_tlv_el [of v 0 "[]"] assms(1) by (simp add: body_def pre_def)
  qed
  have s1: "skip_tlv body (Some (length pre)) = Some (length pre + length (der_el serial))"
    unfolding body_def by (rule skip_tlv_el [OF assms(2) refl])
  have s2: "skip_tlv body (Some (length pre + length (der_el serial))) = Some (length pre + length (der_el serial) + length (der_el alg))"
    using skip_tlv_el [OF assms(4), of _ "pre @ der_el serial"] by (simp add: body_def)
  have s3: "skip_tlv body (Some (length pre + length (der_el serial) + length (der_el alg)))
      = Some (length pre + length (der_el serial) + length (der_el alg) + length (der_el issuer))"
    using skip_tlv_el [OF assms(5), of _ "pre @ der_el serial @ der_el alg"] by (simp add: body_def add.assoc)
  have s4: "\<exists>e. read_tlv body (length pre + length (der_el serial) + length (der_el alg) + length (der_el issuer))
      = Some \<lparr> tlv_tag = 0x30, tlv_content = el_content validity, tlv_end = e \<rparr>"
    using read_tlv_el [OF assms(6), of _ "pre @ der_el serial @ der_el alg @ der_el issuer"] assms(7) by (simp add: body_def add.assoc)
  show ?thesis
    unfolding content tbs_validity_def first using s4 by (auto simp: off s1 s2 s3)
qed

text \<open>
  C33: The validity of a certificate is read exactly. From the DER of a certificate whose fields up to the validity are
  well formed, with lengths in the short form or in one to four octets and with or without a version, and whose times
  are written as RFC 5280 prescribes, the parser returns the two times in Unix seconds, whatever the other fields
  contain and whatever follows.
\<close>

theorem certificate_validity_reads_back:
  assumes "\<forall>v \<in> set_option version. el_ok v \<and> el_tag v = 0xA0" "el_ok serial" "el_tag serial \<noteq> 0xA0" "el_ok alg" "el_ok issuer"
    and "stamp_ok tag_b nb" "stamp_ok tag_a na"
    and "validity = validity_el k1 tag_b nb tag_a na junk" "el_ok validity"
    and "tbs = tbs_el k2 version serial alg issuer validity rest" "el_ok tbs"
    and "cert = cert_el k3 tbs signature" "el_ok cert"
  shows "parse_validity (der_el cert @ trailing) = Some (nb, na)"
proof -
  have "el_tag validity = 0x30"
    by (simp add: assms(8) validity_el_def)
  then have "tbs_validity (el_content tbs) = Some (nb, na)"
    using tbs_validity_el [OF assms(1-5) assms(9), of k2 rest] read_validity_el [OF assms(6,7)] assms(8,10) by simp
  moreover have "\<exists>e. read_tlv (der_el cert @ trailing) 0 = Some \<lparr> tlv_tag = 0x30, tlv_content = der_el tbs @ signature, tlv_end = e \<rparr>"
    using read_tlv_el [OF assms(13), of 0 "[]" trailing] by (simp add: assms(12) cert_el_def)
  moreover have "\<exists>e. read_tlv (der_el tbs @ signature) 0 = Some \<lparr> tlv_tag = 0x30, tlv_content = el_content tbs, tlv_end = e \<rparr>"
    using read_tlv_el [OF assms(11), of 0 "[]" signature] by (simp add: assms(10) tbs_el_def)
  ultimately show ?thesis
    by (auto simp: parse_validity_def)
qed

definition demo_element :: "byte \<Rightarrow> element" where
  "demo_element tag = \<lparr> el_form = 1, el_tag = tag, el_content = [7] \<rparr>"

definition demo_validity :: element where
  "demo_validity = validity_el 0 0x17 0 0x18 86400 []"

definition demo_tbs :: element where
  "demo_tbs = tbs_el 2 (Some (demo_element 0xA0)) (demo_element 2) (demo_element 0x30) (demo_element 0x30) demo_validity []"

definition demo_cert :: element where
  "demo_cert = cert_el 3 demo_tbs [1, 2, 3]"

lemma demo_stamps:
  "civil_from_days 0 = (1970, 1, 1)" "civil_from_days 1 = (1970, 1, 2)"
  by code_simp+

lemma demo_cert_ok: "stamp_ok 0x17 0" "stamp_ok 0x18 86400" "el_ok demo_validity" "el_ok demo_tbs" "el_ok demo_cert"
proof -
  show "stamp_ok 0x17 0" "stamp_ok 0x18 86400"
    by (simp_all add: stamp_ok_def demo_stamps)
  have len: "length (asn1_stamp 0x17 0) = 13" "length (asn1_stamp 0x18 86400) = 15"
    by (simp_all add: asn1_stamp_def demo_stamps length_two)
  show "el_ok demo_validity" "el_ok demo_tbs" "el_ok demo_cert"
    by (simp_all add: el_ok_def der_fits_def demo_cert_def cert_el_def demo_tbs_def tbs_el_def demo_validity_def validity_el_def
        der_el_def der_tlv_def demo_element_def len)
qed

theorem certificate_validity_reads_back_witness:
  "el_ok demo_cert \<and> parse_validity (der_el demo_cert @ [0]) = Some (0, 86400)"
proof
  show "el_ok demo_cert"
    by (rule demo_cert_ok)
  have el: "el_ok (demo_element tag)" for tag
    by (simp add: demo_element_def el_ok_def der_fits_def)
  show "parse_validity (der_el demo_cert @ [0]) = Some (0, 86400)"
    by (rule certificate_validity_reads_back
        [OF _ _ _ _ _ demo_cert_ok(1,2) demo_validity_def demo_cert_ok(3) demo_tbs_def demo_cert_ok(4) demo_cert_def demo_cert_ok(5)])
      (simp_all add: el, simp_all add: demo_element_def)
qed

definition demo_sweep :: sweep_cfg where
  "demo_sweep = \<lparr> scaled_fraction = (\<lambda>l. l div 3), min_reattempt = 3600 \<rparr>"

definition demo_tick :: "int \<Rightarrow> tick" where
  "demo_tick t = \<lparr> tick_now = t, tick_leaf_file = None,
     tick_dir = Some [\<lparr> entry_name = [97], entry_is_dir = True, entry_leaf = Some (der_el demo_cert) \<rparr>], tick_mints = (\<lambda>_. True) \<rparr>"

theorem remints_are_rate_limited_witness:
  "sint (min_reattempt demo_sweep) = int 3600 \<and>
   sorted_wrt (\<lambda>a b. a + int 3600 \<le> b)
     (attempts [97] (scheduler_run None (Some demo_sweep) True False [demo_tick 0, demo_tick 60, demo_tick 3600]))"
proof
  show gap: "sint (min_reattempt demo_sweep) = int 3600"
    by (simp add: demo_sweep_def)
  show "sorted_wrt (\<lambda>a b. a + int 3600 \<le> b)
     (attempts [97] (scheduler_run None (Some demo_sweep) True False [demo_tick 0, demo_tick 60, demo_tick 3600]))"
    by (rule remints_are_rate_limited [OF gap])
qed

end
