(* ===== verification/Client_Hello.thy ===== *)
theory Client_Hello
  imports Host_IO Renewal "HOL-Library.Monad_Syntax"
begin

text \<open>
  The pure part of on-demand TLS (\<^verbatim>\<open>tls/ondemand.rs\<close>): host names, the authorizer's URL and answer, and the
  reader that finds the server name in a peeked ClientHello.
\<close>

section \<open>Slices\<close>

definition byte_get :: "bytes \<Rightarrow> nat \<Rightarrow> byte option" where
  "byte_get s i = (if i < length s then Some (s ! i) else None)"

definition slice_get :: "bytes \<Rightarrow> nat \<Rightarrow> nat \<Rightarrow> bytes option" where
  "slice_get s a b = (if a \<le> b \<and> b \<le> length s then Some (take (b - a) (drop a s)) else None)"

definition be16 :: "byte \<Rightarrow> byte \<Rightarrow> nat" where
  "be16 a b = unat a * 256 + unat b"

text \<open>\<open>be16(s.get(i)?, s.get(i + 1)?)\<close>.\<close>

definition get16 :: "bytes \<Rightarrow> nat \<Rightarrow> nat option" where
  "get16 s i = do { a \<leftarrow> byte_get s i; b \<leftarrow> byte_get s (i + 1); Some (be16 a b) }"

section \<open>The server name of a ClientHello\<close>

function server_name_list :: "bytes \<Rightarrow> bytes option" where
  "server_name_list names =
     (if 3 \<le> length names then
        let name_len = be16 (names ! 1) (names ! 2) in
        case slice_get names 3 (3 + name_len) of
          None \<Rightarrow> None
        | Some name \<Rightarrow>
            if names ! 0 = 0 then (if utf8_valid name then Some (map to_ascii_lowercase name) else None)
            else server_name_list (drop (3 + name_len) names)
      else None)"
  by pat_completeness auto
termination
  by (relation "measure length") auto

declare server_name_list.simps [simp del]

function parse_extensions_sni :: "bytes \<Rightarrow> bytes option" where
  "parse_extensions_sni exts =
     (if 4 \<le> length exts then
        let etype = be16 (exts ! 0) (exts ! 1); elen = be16 (exts ! 2) (exts ! 3) in
        case slice_get exts 4 (4 + elen) of
          None \<Rightarrow> None
        | Some edata \<Rightarrow>
            if etype = 0 then do { list_len \<leftarrow> get16 edata 0; names \<leftarrow> slice_get edata 2 (2 + list_len); server_name_list names }
            else parse_extensions_sni (drop (4 + elen) exts)
      else None)"
  by pat_completeness auto
termination
  by (relation "measure length") auto

declare parse_extensions_sni.simps [simp del]

definition hello_body_sni :: "bytes \<Rightarrow> bytes option" where
  "hello_body_sni body =
     do { sid_len \<leftarrow> byte_get body 34;
          let p = 34 + 1 + unat sid_len;
          cs_len \<leftarrow> get16 body p;
          let p = p + 2 + cs_len;
          comp_len \<leftarrow> byte_get body p;
          let p = p + 1 + unat comp_len;
          ext_total \<leftarrow> get16 body p;
          let p = p + 2;
          exts \<leftarrow> slice_get body p (p + ext_total);
          parse_extensions_sni exts }"

definition parse_client_hello_sni :: "bytes \<Rightarrow> bytes option" where
  "parse_client_hello_sni rec =
     (case rec of
        [] \<Rightarrow> None
      | rtype # rest \<Rightarrow>
          if rtype \<noteq> 22 then None
          else do {
            rlen \<leftarrow> get16 rest 2;
            frag \<leftarrow> slice_get rest 4 (4 + min rlen (length rest - 4));
            (case frag of
               [] \<Rightarrow> None
             | htype # hrest \<Rightarrow>
                 if htype \<noteq> 1 then None
                 else do { body \<leftarrow> slice_get hrest 3 (length hrest); hello_body_sni body }) })"

section \<open>Hosts and URLs\<close>

definition valid_host :: "bytes \<Rightarrow> bool" where
  "valid_host h \<longleftrightarrow>
     h \<noteq> [] \<and> length h \<le> 253 \<and> find_sub h [46, 46] = None \<and>
     list_all (\<lambda>b. is_ascii_alphanumeric b \<or> b \<in> {45, 46, 42, 95}) h"

text \<open>\<open>rsplit_once\<close> at a byte.\<close>

definition rsplit_once :: "byte \<Rightarrow> bytes \<Rightarrow> (bytes \<times> bytes) option" where
  "rsplit_once c s =
     (case position (\<lambda>b. b = c) (rev s) of
        None \<Rightarrow> None
      | Some k \<Rightarrow> Some (take (length s - 1 - k) s, drop (length s - k) s))"

definition strip_prefix :: "bytes \<Rightarrow> bytes \<Rightarrow> bytes option" where
  "strip_prefix pre s = (if starts_with s pre then Some (drop (length pre) s) else None)"

definition split_http_url :: "bytes \<Rightarrow> (bytes \<times> nat \<times> bytes) option" where
  "split_http_url url =
     do { rest \<leftarrow> strip_prefix (ascii ''http://'') url;
          let (authority, path) = (case position (\<lambda>b. b = 47) rest of
                                     Some i \<Rightarrow> (take i rest, drop i rest)
                                   | None \<Rightarrow> (rest, [47]));
          (host, port) \<leftarrow> (case rsplit_once 58 authority of
                            Some (h, p) \<Rightarrow> map_option (\<lambda>n. (h, n)) (parse_uint 16 p)
                          | None \<Rightarrow> Some (authority, 80));
          if host = [] then None else Some (host, port, path) }"

text \<open>The request to the authorizer, and the reading of its answer in blocks of 512 bytes.\<close>

definition ask_request :: "bytes \<Rightarrow> bytes \<Rightarrow> bytes \<Rightarrow> bytes" where
  "ask_request host path sni =
     ascii ''GET '' @ path @ (if 63 \<in> set path then [38] else [63]) @ ascii ''domain='' @ sni @ ascii '' HTTP/1.1'' @ CRLF
     @ ascii ''Host: '' @ host @ CRLF @ ascii ''Connection: close'' @ CRLF @ ascii ''Accept: */*'' @ CRLF @ CRLF"

function ask_read :: "read_script \<Rightarrow> bytes \<Rightarrow> bytes option" where
  "ask_read us buf =
     (case read_some 512 us of
        None \<Rightarrow> None
      | Some (Inl k, us') \<Rightarrow> Some buf
      | Some (Inr block, us') \<Rightarrow>
          if block = [] then Some buf
          else if LF \<in> set (buf @ block) \<or> 4096 \<le> length (buf @ block) then Some (buf @ block)
          else ask_read us' (buf @ block))"
  by pat_completeness auto
termination
  by (relation "measure (\<lambda>(us, buf). script_size us)") (auto dest: read_some_size [rotated])

definition split_whitespace :: "bytes list \<Rightarrow> bytes list list" where
  "split_whitespace cs = filter (\<lambda>w. w \<noteq> []) (split_on is_unicode_whitespace cs)"

definition ask_answer :: "bytes \<Rightarrow> bool option" where
  "ask_answer buf =
     (case utf8_chars (utf8_lossy buf) of
        None \<Rightarrow> None
      | Some cs \<Rightarrow>
          (let words = split_whitespace cs in
           if 1 < length words
           then map_option (\<lambda>status. 200 \<le> status \<and> status < 300) (parse_uint 16 (concat (words ! 1)))
           else None))"

section \<open>The name is read back\<close>

text \<open>A vector with a length of one or two octets, as RFC 8446 writes it.\<close>

definition vec8 :: "bytes \<Rightarrow> bytes" where
  "vec8 v = of_nat (length v) # v"

definition put16 :: "nat \<Rightarrow> bytes" where
  "put16 n = [of_nat (n div 256), of_nat (n mod 256)]"

definition vec16 :: "bytes \<Rightarrow> bytes" where
  "vec16 v = put16 (length v) @ v"

definition put_name :: "byte \<times> bytes \<Rightarrow> bytes" where
  "put_name tn = fst tn # vec16 (snd tn)"

definition put_ext :: "nat \<times> bytes \<Rightarrow> bytes" where
  "put_ext te = put16 (fst te) @ vec16 (snd te)"

lemma be16_put16: "n < 65536 \<Longrightarrow> be16 (of_nat (n div 256)) (of_nat (n mod 256)) = n"
proof -
  assume "n < 65536"
  then have "n div 256 < 256"
    by (simp add: div_less_iff_less_mult)
  then have "unat (of_nat (n div 256) :: byte) = n div 256" "unat (of_nat (n mod 256) :: byte) = n mod 256"
    by (simp_all add: unat_of_nat)
  then show ?thesis
    by (simp add: be16_def div_mult_mod_eq del: of_nat_mod of_nat_div)
qed

lemma get16_put16:
  assumes "n < 65536" "i = length pre"
  shows "get16 (pre @ put16 n @ post) i = Some n"
  using be16_put16 [OF assms(1)] assms(2) by (simp add: get16_def byte_get_def put16_def nth_append)

lemma slice_get_mid:
  assumes "a = length pre" "b = length pre + length v"
  shows "slice_get (pre @ v @ post) a b = Some v"
  using assms by (simp add: slice_get_def)

lemma byte_get_mid: "i = length pre \<Longrightarrow> byte_get (pre @ b # post) i = Some b"
  by (simp add: byte_get_def)

lemma length_put16 [simp]: "length (put16 n) = 2"
  by (simp add: put16_def)

lemma length_vec16 [simp]: "length (vec16 v) = 2 + length v"
  by (simp add: vec16_def)

lemma length_put_name [simp]: "length (put_name tn) = 3 + length (snd tn)"
  by (simp add: put_name_def)

lemma length_put_ext [simp]: "length (put_ext te) = 4 + length (snd te)"
  by (simp add: put_ext_def)

lemma put_name_entry:
  assumes "length (snd tn) < 65536"
  shows "be16 ((put_name tn @ rest) ! 1) ((put_name tn @ rest) ! 2) = length (snd tn)"
    "slice_get (put_name tn @ rest) 3 (3 + length (snd tn)) = Some (snd tn)"
    "drop (3 + length (snd tn)) (put_name tn @ rest) = rest"
    "(put_name tn @ rest) ! 0 = fst tn" "3 \<le> length (put_name tn @ rest)"
proof -
  show "be16 ((put_name tn @ rest) ! 1) ((put_name tn @ rest) ! 2) = length (snd tn)"
    using be16_put16 [OF assms] by (simp add: put_name_def vec16_def put16_def numeral_2_eq_2)
  show "slice_get (put_name tn @ rest) 3 (3 + length (snd tn)) = Some (snd tn)"
    using slice_get_mid [of 3 "fst tn # put16 (length (snd tn))" "3 + length (snd tn)" "snd tn" rest]
    by (simp add: put_name_def vec16_def)
  show "drop (3 + length (snd tn)) (put_name tn @ rest) = rest"
    unfolding length_put_name [symmetric] by simp
qed (simp_all add: put_name_def vec16_def)

lemma server_name_list_skips:
  assumes "\<forall>tn \<in> set pre. fst tn \<noteq> 0 \<and> length (snd tn) < 65536"
  shows "server_name_list (concat (map put_name pre) @ rest) = server_name_list rest"
  using assms
proof (induction pre)
  case (Cons tn pre)
  then have len: "length (snd tn) < 65536" and tn: "fst tn \<noteq> 0"
    by auto
  have "server_name_list (put_name tn @ concat (map put_name pre) @ rest) = server_name_list (concat (map put_name pre) @ rest)"
    by (subst server_name_list.simps) (simp only: Let_def put_name_entry [OF len] tn option.case if_True if_False)
  with Cons show ?case by simp
qed simp

lemma server_name_list_host:
  assumes "length host < 65536" "utf8_valid host"
  shows "server_name_list (put_name (0, host) @ rest) = Some (map to_ascii_lowercase host)"
proof -
  have len: "length (snd (0 :: byte, host)) < 65536"
    using assms by simp
  show ?thesis
    by (subst server_name_list.simps) (simp only: Let_def put_name_entry [OF len, of rest, unfolded fst_conv snd_conv] option.case if_True assms(2) simp_thms)
qed

lemma put_ext_entry:
  assumes "length (snd te) < 65536" "fst te < 65536"
  shows "be16 ((put_ext te @ rest) ! 0) ((put_ext te @ rest) ! 1) = fst te"
    "be16 ((put_ext te @ rest) ! 2) ((put_ext te @ rest) ! 3) = length (snd te)"
    "slice_get (put_ext te @ rest) 4 (4 + length (snd te)) = Some (snd te)"
    "drop (4 + length (snd te)) (put_ext te @ rest) = rest" "4 \<le> length (put_ext te @ rest)"
proof -
  show "be16 ((put_ext te @ rest) ! 0) ((put_ext te @ rest) ! 1) = fst te"
    "be16 ((put_ext te @ rest) ! 2) ((put_ext te @ rest) ! 3) = length (snd te)"
    using be16_put16 [OF assms(1)] be16_put16 [OF assms(2)]
    by (simp_all add: put_ext_def vec16_def put16_def numeral_2_eq_2 numeral_3_eq_3)
  show "slice_get (put_ext te @ rest) 4 (4 + length (snd te)) = Some (snd te)"
    using slice_get_mid [of 4 "put16 (fst te) @ put16 (length (snd te))" "4 + length (snd te)" "snd te" rest]
    by (simp add: put_ext_def vec16_def)
  show "drop (4 + length (snd te)) (put_ext te @ rest) = rest"
    unfolding length_put_ext [symmetric] by simp
qed (simp_all add: put_ext_def vec16_def)

lemma parse_extensions_skips:
  assumes "\<forall>te \<in> set pre. 0 < fst te \<and> fst te < 65536 \<and> length (snd te) < 65536"
  shows "parse_extensions_sni (concat (map put_ext pre) @ rest) = parse_extensions_sni rest"
  using assms
proof (induction pre)
  case (Cons te pre)
  then have te: "length (snd te) < 65536" "fst te < 65536" "fst te \<noteq> 0"
    by auto
  have "parse_extensions_sni (put_ext te @ concat (map put_ext pre) @ rest) = parse_extensions_sni (concat (map put_ext pre) @ rest)"
    by (subst parse_extensions_sni.simps) (simp only: Let_def put_ext_entry [OF te(1,2)] te(3) option.case if_True if_False)
  with Cons show ?case by simp
qed simp

text \<open>A ClientHello with a server name, in a record that may be longer than what was peeked.\<close>

definition put_names :: "(byte \<times> bytes) list \<Rightarrow> bytes \<Rightarrow> bytes \<Rightarrow> bytes" where
  "put_names others host junk = concat (map put_name others) @ put_name (0, host) @ junk"

definition put_exts :: "(nat \<times> bytes) list \<Rightarrow> bytes \<Rightarrow> bytes \<Rightarrow> bytes \<Rightarrow> bytes" where
  "put_exts exts names sni_junk junk = concat (map put_ext exts) @ put_ext (0, vec16 names @ sni_junk) @ junk"

lemma parse_extensions_names:
  assumes "\<forall>te \<in> set exts. 0 < fst te \<and> fst te < 65536 \<and> length (snd te) < 65536"
    and "\<forall>tn \<in> set others. fst tn \<noteq> 0 \<and> length (snd tn) < 65536"
    and "length host < 65536" "utf8_valid host" "names = put_names others host name_junk"
    and "length names < 65536" "length (vec16 names @ sni_junk) < 65536"
  shows "parse_extensions_sni (put_exts exts names sni_junk junk) = Some (map to_ascii_lowercase host)"
proof -
  let ?te = "(0 :: nat, vec16 names @ sni_junk)"
  have len: "length (snd ?te) < 65536" "fst ?te < 65536"
    using assms(7) by simp_all
  have "parse_extensions_sni (put_ext ?te @ junk) =
      do { list_len \<leftarrow> get16 (vec16 names @ sni_junk) 0; ns \<leftarrow> slice_get (vec16 names @ sni_junk) 2 (2 + list_len); server_name_list ns }"
    by (subst parse_extensions_sni.simps) (simp only: Let_def put_ext_entry [OF len, of junk, unfolded fst_conv snd_conv] option.case if_True simp_thms)
  moreover have "get16 (vec16 names @ sni_junk) 0 = Some (length names)"
    using get16_put16 [OF assms(6), of 0 "[]" "names @ sni_junk"] by (simp add: vec16_def)
  moreover have "slice_get (vec16 names @ sni_junk) 2 (2 + length names) = Some names"
    using slice_get_mid [of 2 "put16 (length names)" "2 + length names" names sni_junk] by (simp add: vec16_def)
  ultimately show ?thesis
    using parse_extensions_skips [OF assms(1), of "put_ext ?te @ junk"] server_name_list_skips [OF assms(2), of "put_name (0, host) @ name_junk"]
      server_name_list_host [OF assms(3,4)]
    by (simp add: put_exts_def assms(5) put_names_def)
qed

definition hello_body :: "bytes \<Rightarrow> bytes \<Rightarrow> bytes \<Rightarrow> bytes \<Rightarrow> bytes \<Rightarrow> bytes" where
  "hello_body version_random sid suites compression exts =
     version_random @ vec8 sid @ vec16 suites @ vec8 compression @ vec16 exts"

lemma hello_body_reads:
  assumes "length vr = 34" "length sid < 256" "length suites < 65536" "length cms < 256" "length exts < 65536"
  shows "hello_body_sni (hello_body vr sid suites cms exts @ junk) = parse_extensions_sni exts"
proof -
  let ?b = "hello_body vr sid suites cms exts @ junk"
  have u: "unat (of_nat (length sid) :: byte) = length sid" "unat (of_nat (length cms) :: byte) = length cms"
    using assms by (simp_all add: unat_of_nat)
  have "byte_get ?b 34 = Some (of_nat (length sid))"
    using byte_get_mid [of 34 vr] assms(1) by (simp add: hello_body_def vec8_def)
  moreover have "get16 ?b (35 + length sid) = Some (length suites)"
    using get16_put16 [OF assms(3), of "35 + length sid" "vr @ vec8 sid"] assms(1) by (simp add: hello_body_def vec8_def vec16_def)
  moreover have "byte_get ?b (37 + length sid + length suites) = Some (of_nat (length cms))"
    using byte_get_mid [of "37 + length sid + length suites" "vr @ vec8 sid @ vec16 suites"] assms(1)
    by (simp add: hello_body_def vec8_def vec16_def)
  moreover have "get16 ?b (38 + length sid + length suites + length cms) = Some (length exts)"
    using get16_put16 [OF assms(5), of "38 + length sid + length suites + length cms" "vr @ vec8 sid @ vec16 suites @ vec8 cms"] assms(1)
    by (simp add: hello_body_def vec8_def vec16_def)
  moreover have "slice_get ?b (40 + length sid + length suites + length cms) (40 + length sid + length suites + length cms + length exts) = Some exts"
    using slice_get_mid [of "40 + length sid + length suites + length cms" "vr @ vec8 sid @ vec16 suites @ vec8 cms @ put16 (length exts)"
        "40 + length sid + length suites + length cms + length exts" exts] assms(1)
    by (simp add: hello_body_def vec8_def vec16_def)
  ultimately show ?thesis
    by (simp add: hello_body_sni_def u Let_def ac_simps)
qed


definition demo_hello :: bytes where
  "demo_hello = [1] @ [0, 0, 0] @ hello_body (replicate 34 3) [] [19, 1] [0] (put_exts [(10, [0])] (put_names [] [65, 46, 98] []) [] [9])"


end
