(* ===== verification/Ondemand.thy ===== *)
theory Ondemand
  imports Client_Hello
begin

text \<open>
  On-demand certificates (\<^verbatim>\<open>tls/ondemand.rs\<close>): the decision for one server name, taken by many
  handshake threads and by the renewal sweep at once. The cache entry, the issuance lock, the two files of the leaf
  and the position of every thread make up the state; a step is one access to one of them. The issuer, a
  subprocess, writes the certificate and then the key. The cache and the locks are keyed by name, so that different
  names do not interact.
\<close>

section \<open>State\<close>

record sni_cert =
  cert_der :: bytes
  priv_scalar :: bytes

datatype resolution = Serve sni_cert | Refuse | Passthrough

datatype od_entry = Ready sni_cert "nat option" | Denied nat | Failed nat

text \<open>Whom a load from disk serves: a reload on the way of a handshake, with the issuance lock held already or not,
  and the leaf it falls back to; the sweep's signal; the look at the disk before a mint; and the look after it.\<close>

datatype load_for = ForReload bool sni_cert | ForSweep | ForDisk | ForMint

datatype od_pc =
  Start
| Check bool
| Stat bool sni_cert "nat option"
| WaitReload load_for
| ReadCert load_for
| ReadKey load_for bytes
| ReadMtime load_for sni_cert
| Store load_for sni_cert "nat option"
| WaitLock
| Asking
| Issuing bool nat sni_cert
| Resolved resolution
| Swept bool

text \<open>What the authorizer and the issuer were asked for, for the statements below.\<close>

datatype od_event = Ordered nat | Refused nat

record ondemand =
  od_cache :: "od_entry option"
  od_lock :: "nat option"
  disk_cert :: "bytes option"
  disk_key :: "bytes option"
  key_mtime :: "nat option"
  od_clock :: nat
  pcs :: "nat \<Rightarrow> od_pc"
  od_events :: "od_event list"
  issued :: "sni_cert list"

record od_cfg =
  ask_url :: "bytes option"
  cooldown :: nat

section \<open>Steps\<close>

definition od_goto :: "nat \<Rightarrow> od_pc \<Rightarrow> ondemand \<Rightarrow> ondemand" where
  "od_goto i pc s = s\<lparr> pcs := (pcs s)(i := pc) \<rparr>"

text \<open>The snapshot \<open>serve_cached\<close> takes under the cache lock: the entry it leaves and where the thread goes on.\<close>

definition no_decision :: "bool \<Rightarrow> od_pc" where
  "no_decision guarded = (if guarded then Asking else WaitLock)"

definition snapshot :: "nat \<Rightarrow> bool \<Rightarrow> od_entry option \<Rightarrow> od_entry option \<times> od_pc" where
  "snapshot now guarded entry =
     (case entry of
        Some (Ready cert mtime) \<Rightarrow> (entry, Stat guarded cert mtime)
      | Some (Denied until) \<Rightarrow> if now < until then (entry, Resolved Refuse) else (None, no_decision guarded)
      | Some (Failed until) \<Rightarrow> if now < until then (entry, Resolved Refuse) else (None, no_decision guarded)
      | None \<Rightarrow> (None, no_decision guarded))"

definition disk_is_newer :: "nat option \<Rightarrow> nat option \<Rightarrow> bool" where
  "disk_is_newer disk stored =
     (case (disk, stored) of
        (Some d, Some cur) \<Rightarrow> cur < d
      | (Some d, None) \<Rightarrow> True
      | (None, _) \<Rightarrow> False)"

text \<open>A thread that returns gives the lock back if it held it.\<close>

definition leave :: "bool \<Rightarrow> ondemand \<Rightarrow> ondemand" where
  "leave guarded s = (if guarded then s\<lparr> od_lock := None \<rparr> else s)"

definition refuse :: "nat \<Rightarrow> od_entry \<Rightarrow> ondemand \<Rightarrow> ondemand" where
  "refuse i e s = od_goto i (Resolved Refuse) (s\<lparr> od_cache := Some e, od_lock := None, od_events := od_events s @ [Refused (od_clock s)] \<rparr>)"

text \<open>A load that finds nothing usable.\<close>

definition load_failed :: "od_cfg \<Rightarrow> nat \<Rightarrow> load_for \<Rightarrow> sni_cert \<Rightarrow> ondemand \<Rightarrow> ondemand" where
  "load_failed cfg i w fresh s =
     (case w of
        ForReload guarded cert \<Rightarrow> od_goto i (Resolved (Serve cert)) (s\<lparr> od_lock := None \<rparr>)
      | ForSweep \<Rightarrow> od_goto i (Swept False) (s\<lparr> od_lock := None \<rparr>)
      | ForDisk \<Rightarrow> od_goto i (Issuing False 0 fresh) (s\<lparr> od_events := od_events s @ [Ordered (od_clock s)] \<rparr>)
      | ForMint \<Rightarrow> refuse i (Failed (od_clock s + cooldown cfg)) s)"

definition load_done :: "load_for \<Rightarrow> sni_cert \<Rightarrow> od_pc" where
  "load_done w cert = (case w of ForSweep \<Rightarrow> Swept True | _ \<Rightarrow> Resolved (Serve cert))"

inductive od_step :: "od_cfg \<Rightarrow> ondemand \<Rightarrow> ondemand \<Rightarrow> bool" for cfg :: od_cfg where
  resolve: "pcs s i = Start \<Longrightarrow> od_step cfg s (od_goto i (Check False) s)"
| check: "pcs s i = Check guarded \<Longrightarrow> snapshot (od_clock s) guarded (od_cache s) = (entry, pc) \<Longrightarrow>
    od_step cfg s (leave (guarded \<and> pc = Resolved Refuse) (od_goto i pc (s\<lparr> od_cache := entry \<rparr>)))"
| stat: "pcs s i = Stat guarded cert stored \<Longrightarrow>
    od_step cfg s (if disk_is_newer (key_mtime s) stored then od_goto i (WaitReload (ForReload guarded cert)) s
                   else leave guarded (od_goto i (Resolved (Serve cert)) s))"
| reload_lock: "pcs s i = WaitReload w \<Longrightarrow> od_lock s = None \<Longrightarrow> od_step cfg s (od_goto i (ReadCert w) (s\<lparr> od_lock := Some i \<rparr>))"
| read_cert: "pcs s i = ReadCert w \<Longrightarrow>
    od_step cfg s (case disk_cert s of None \<Rightarrow> load_failed cfg i w fresh s | Some d \<Rightarrow> od_goto i (ReadKey w d) s)"
| read_key: "pcs s i = ReadKey w d \<Longrightarrow>
    od_step cfg s (case disk_key s of
       None \<Rightarrow> load_failed cfg i w fresh s
     | Some k \<Rightarrow> if d = [] \<or> length k \<noteq> 32 then load_failed cfg i w fresh s
                else od_goto i (ReadMtime w \<lparr> cert_der = d, priv_scalar = k \<rparr>) s)"
| read_mtime: "pcs s i = ReadMtime w cert \<Longrightarrow> od_step cfg s (od_goto i (Store w cert (key_mtime s)) s)"
| store: "pcs s i = Store w cert mtime \<Longrightarrow>
    od_step cfg s (od_goto i (load_done w cert) (s\<lparr> od_cache := Some (Ready cert mtime), od_lock := None \<rparr>))"
| lock: "pcs s i = WaitLock \<Longrightarrow> od_lock s = None \<Longrightarrow> od_step cfg s (od_goto i (Check True) (s\<lparr> od_lock := Some i \<rparr>))"
| ask_allow: "pcs s i = Asking \<Longrightarrow> od_step cfg s (od_goto i (ReadCert ForDisk) s)"
| ask_deny: "pcs s i = Asking \<Longrightarrow> ask_url cfg \<noteq> None \<Longrightarrow> od_step cfg s (refuse i (Denied (od_clock s + cooldown cfg)) s)"
| ask_fail: "pcs s i = Asking \<Longrightarrow> ask_url cfg \<noteq> None \<Longrightarrow> od_step cfg s (refuse i (Failed (od_clock s + cooldown cfg)) s)"
| sweep: "pcs s i = Start \<Longrightarrow> od_step cfg s (od_goto i (Issuing True 0 fresh) s)"
| write_cert: "pcs s i = Issuing swept 0 fresh \<Longrightarrow>
    od_step cfg s (od_goto i (Issuing swept 1 fresh) (s\<lparr> disk_cert := Some (cert_der fresh), issued := issued s @ [fresh] \<rparr>))"
| write_key: "pcs s i = Issuing swept 1 fresh \<Longrightarrow>
    od_step cfg s (od_goto i (Issuing swept 2 fresh) (s\<lparr> disk_key := Some (priv_scalar fresh), key_mtime := Some (od_clock s) \<rparr>))"
| issue_ok: "pcs s i = Issuing swept n fresh \<Longrightarrow>
    od_step cfg s (od_goto i (if swept then WaitReload ForSweep else ReadCert ForMint) s)"
| issue_fail: "pcs s i = Issuing swept n fresh \<Longrightarrow>
    od_step cfg s (if swept then od_goto i (Swept False) s else refuse i (Failed (od_clock s + cooldown cfg)) s)"
| passes: "od_step cfg s (s\<lparr> od_clock := Suc (od_clock s) \<rparr>)"

text \<open>A process starts with an empty cache; the files may hold a leaf of an earlier run.\<close>

definition od_boot :: "bytes option \<Rightarrow> bytes option \<Rightarrow> nat option \<Rightarrow> ondemand" where
  "od_boot c k m = \<lparr> od_cache = None, od_lock = None, disk_cert = c, disk_key = k, key_mtime = m, od_clock = 0,
     pcs = (\<lambda>_. Start), od_events = [], issued = [] \<rparr>"

inductive od_reachable :: "od_cfg \<Rightarrow> ondemand \<Rightarrow> bool" for cfg :: od_cfg where
  init: "od_reachable cfg (od_boot c k m)"
| step: "od_reachable cfg s \<Longrightarrow> od_step cfg s s' \<Longrightarrow> od_reachable cfg s'"

section \<open>The lock\<close>

primrec load_guarded :: "load_for \<Rightarrow> bool" where
  "load_guarded (ForReload guarded cert) = guarded"
| "load_guarded ForSweep = False"
| "load_guarded ForDisk = True"
| "load_guarded ForMint = True"

text \<open>The positions at which a thread owns the lock of the name.\<close>

fun owns_lock :: "od_pc \<Rightarrow> bool" where
  "owns_lock (Check guarded) = guarded"
| "owns_lock (Stat guarded cert m) = guarded"
| "owns_lock (WaitReload w) = load_guarded w"
| "owns_lock (ReadCert w) = True"
| "owns_lock (ReadKey w d) = True"
| "owns_lock (ReadMtime w c) = True"
| "owns_lock (Store w c m) = True"
| "owns_lock Asking = True"
| "owns_lock (Issuing swept n c) = (\<not> swept)"
| "owns_lock _ = False"

definition lock_inv :: "ondemand \<Rightarrow> bool" where
  "lock_inv s \<longleftrightarrow> (\<forall>i. owns_lock (pcs s i) \<longrightarrow> od_lock s = Some i)"

lemma od_goto_simps [simp]:
  "pcs (od_goto i pc s) = (pcs s)(i := pc)" "od_lock (od_goto i pc s) = od_lock s" "od_cache (od_goto i pc s) = od_cache s"
  "od_clock (od_goto i pc s) = od_clock s" "od_events (od_goto i pc s) = od_events s" "key_mtime (od_goto i pc s) = key_mtime s"
  "issued (od_goto i pc s) = issued s" "disk_cert (od_goto i pc s) = disk_cert s" "disk_key (od_goto i pc s) = disk_key s"
  by (simp_all add: od_goto_def)

lemma leave_simps [simp]:
  "pcs (leave b s) = pcs s" "od_lock (leave b s) = (if b then None else od_lock s)" "od_cache (leave b s) = od_cache s"
  "od_clock (leave b s) = od_clock s" "od_events (leave b s) = od_events s"
  by (simp_all add: leave_def)

lemma refuse_simps [simp]:
  "pcs (refuse i e s) = (pcs s)(i := Resolved Refuse)" "od_lock (refuse i e s) = None" "od_cache (refuse i e s) = Some e"
  "od_clock (refuse i e s) = od_clock s" "od_events (refuse i e s) = od_events s @ [Refused (od_clock s)]"
  by (simp_all add: refuse_def)

lemma lock_inv_owner: "lock_inv s \<Longrightarrow> owns_lock (pcs s i) \<Longrightarrow> owns_lock (pcs s j) \<Longrightarrow> i = j"
  by (metis lock_inv_def option.inject)

lemma lock_inv_keep:
  assumes "lock_inv s" "\<forall>j. j \<noteq> i \<longrightarrow> pcs s' j = pcs s j" "od_lock s' = od_lock s" "owns_lock (pcs s' i) \<longrightarrow> owns_lock (pcs s i)"
  shows "lock_inv s'"
  using assms unfolding lock_inv_def by metis

lemma lock_inv_release:
  assumes "lock_inv s" "\<forall>j. j \<noteq> i \<longrightarrow> pcs s' j = pcs s j" "owns_lock (pcs s i)" "\<not> owns_lock (pcs s' i)"
  shows "lock_inv s'"
  using assms lock_inv_owner [OF assms(1)] unfolding lock_inv_def by metis

lemma lock_inv_take:
  assumes "lock_inv s" "\<forall>j. j \<noteq> i \<longrightarrow> pcs s' j = pcs s j" "od_lock s = None" "od_lock s' = Some i"
  shows "lock_inv s'"
  using assms unfolding lock_inv_def by (metis option.distinct(1))

lemma load_failed_lock:
  assumes "lock_inv s" "owns_lock (pcs s i)"
  shows "lock_inv (load_failed cfg i w fresh s)"
proof (cases w)
  case ForDisk
  then show ?thesis
    using assms by (intro lock_inv_keep [OF assms(1), of i]) (auto simp: load_failed_def)
qed (use assms in \<open>auto simp: load_failed_def intro: lock_inv_release [OF assms(1), of i]\<close>)

lemma snapshot_pcs:
  "snapshot now guarded entry = (entry', pc) \<Longrightarrow> owns_lock pc = (guarded \<and> pc \<noteq> Resolved Refuse)"
  by (auto simp: snapshot_def no_decision_def split: option.splits od_entry.splits if_splits)

lemma od_step_lock:
  assumes "od_step cfg s s'" "lock_inv s"
  shows "lock_inv s'"
  using assms(1)
proof cases
  case (check i guarded entry pc)
  show ?thesis
  proof (cases "guarded \<and> pc = Resolved Refuse")
    case True
    then show ?thesis
      using check assms(2) by (intro lock_inv_release [OF assms(2), of i]) auto
  next
    case False
    then show ?thesis
      using check assms(2) snapshot_pcs [OF check(3)] by (intro lock_inv_keep [OF assms(2), of i]) auto
  qed
next
  case (stat i guarded cert stored)
  show ?thesis
  proof (cases "disk_is_newer (key_mtime s) stored \<or> \<not> guarded")
    case True
    then show ?thesis
      using stat assms(2) by (intro lock_inv_keep [OF assms(2), of i]) auto
  next
    case False
    then show ?thesis
      using stat assms(2) by (intro lock_inv_release [OF assms(2), of i]) auto
  qed
next
  case (reload_lock i w)
  then show ?thesis
    by (intro lock_inv_take [OF assms(2), of i]) auto
next
  case (lock i)
  then show ?thesis
    by (intro lock_inv_take [OF assms(2), of i]) auto
next
  case (read_cert i w fresh)
  then show ?thesis
    using load_failed_lock [OF assms(2), of i cfg w fresh] lock_inv_keep [OF assms(2), of i]
    by (auto split: option.split)
next
  case (read_key i w d fresh)
  then show ?thesis
    using load_failed_lock [OF assms(2), of i cfg w fresh] lock_inv_keep [OF assms(2), of i]
    by (auto split: option.split)
next
  case (store i w cert mtime)
  then show ?thesis
    by (intro lock_inv_release [OF assms(2), of i]) (auto simp: load_done_def split: load_for.split)
next
  case (ask_deny i)
  then show ?thesis
    by (intro lock_inv_release [OF assms(2), of i]) auto
next
  case (ask_fail i)
  then show ?thesis
    by (intro lock_inv_release [OF assms(2), of i]) auto
next
  case (issue_fail i swept n fresh)
  then show ?thesis
    using lock_inv_keep [OF assms(2), of i] lock_inv_release [OF assms(2), of i] by auto
next
  case passes
  then show ?thesis
    using assms(2) by (simp add: lock_inv_def)
qed (use lock_inv_keep [OF assms(2)] in auto)

section \<open>The cooldown\<close>

text \<open>The positions of a thread that has checked the cache under the lock and found no decision.\<close>

fun may_order :: "od_pc \<Rightarrow> bool" where
  "may_order (WaitReload w) = (w = ForDisk \<or> w = ForMint)"
| "may_order (ReadCert w) = (w = ForDisk \<or> w = ForMint)"
| "may_order (ReadKey w d) = (w = ForDisk \<or> w = ForMint)"
| "may_order (ReadMtime w c) = (w = ForDisk \<or> w = ForMint)"
| "may_order (Store w c m) = (w = ForDisk \<or> w = ForMint)"
| "may_order Asking = True"
| "may_order (Issuing swept n c) = (\<not> swept)"
| "may_order _ = False"

definition elapsed :: "od_cfg \<Rightarrow> ondemand \<Rightarrow> bool" where
  "elapsed cfg s \<longleftrightarrow> (\<forall>t. Refused t \<in> set (od_events s) \<longrightarrow> t + cooldown cfg \<le> od_clock s)"

definition remembered :: "od_cfg \<Rightarrow> ondemand \<Rightarrow> bool" where
  "remembered cfg s \<longleftrightarrow>
     (\<forall>t. Refused t \<in> set (od_events s) \<longrightarrow>
        t \<le> od_clock s \<and>
        (t + cooldown cfg \<le> od_clock s \<or>
         (\<exists>c m. od_cache s = Some (Ready c m)) \<or>
         (\<exists>u \<ge> t + cooldown cfg. od_cache s = Some (Denied u) \<or> od_cache s = Some (Failed u))))"

definition ordered_late :: "od_cfg \<Rightarrow> od_event list \<Rightarrow> bool" where
  "ordered_late cfg = sorted_wrt (\<lambda>a b. case (a, b) of (Refused t, Ordered t') \<Rightarrow> t + cooldown cfg \<le> t' | _ \<Rightarrow> True)"

definition cool_inv :: "od_cfg \<Rightarrow> ondemand \<Rightarrow> bool" where
  "cool_inv cfg s \<longleftrightarrow>
     remembered cfg s \<and> ordered_late cfg (od_events s) \<and> (\<forall>i. may_order (pcs s i) \<longrightarrow> elapsed cfg s)"

lemma may_order_owns: "may_order pc \<Longrightarrow> owns_lock pc"
  by (cases pc) auto

lemma remembered_none: "remembered cfg s \<Longrightarrow> od_cache s = None \<Longrightarrow> elapsed cfg s"
  by (auto simp: remembered_def elapsed_def)

lemma remembered_expired:
  assumes "remembered cfg s" "od_cache s = Some (Denied u) \<or> od_cache s = Some (Failed u)" "u \<le> od_clock s"
  shows "elapsed cfg s"
  using assms by (fastforce simp: remembered_def elapsed_def)

lemma elapsed_remembered: "elapsed cfg s \<Longrightarrow> od_events s' = od_events s \<Longrightarrow> od_clock s' = od_clock s \<Longrightarrow> remembered cfg s'"
  by (auto simp: elapsed_def remembered_def)

text \<open>Steps that change neither the entry nor the log, steps that store a leaf, and refusals.\<close>

lemma cool_inv_keep:
  assumes "cool_inv cfg s" "\<forall>j. j \<noteq> i \<longrightarrow> pcs s' j = pcs s j" "od_cache s' = od_cache s \<or> (\<exists>c m. od_cache s' = Some (Ready c m))"
    "od_events s' = od_events s" "od_clock s' = od_clock s" "may_order (pcs s' i) \<longrightarrow> may_order (pcs s i)"
  shows "cool_inv cfg s'"
proof -
  have "elapsed cfg s' = elapsed cfg s"
    using assms(4,5) by (simp add: elapsed_def)
  moreover have "remembered cfg s'"
    using assms(1,3,4,5) unfolding cool_inv_def remembered_def by auto
  ultimately show ?thesis
    using assms(1,2,4,6) unfolding cool_inv_def by metis
qed

lemma cool_inv_refuse:
  assumes "cool_inv cfg s" "lock_inv s" "may_order (pcs s i)" "e = Denied (od_clock s + cooldown cfg) \<or> e = Failed (od_clock s + cooldown cfg)"
  shows "cool_inv cfg (refuse i e s)"
proof -
  have el: "elapsed cfg s"
    using assms(1,3) by (auto simp: cool_inv_def)
  have "remembered cfg (refuse i e s)"
    using el assms(4) by (auto simp: remembered_def elapsed_def)
  moreover have "ordered_late cfg (od_events (refuse i e s))"
    using assms(1) by (auto simp: cool_inv_def ordered_late_def sorted_wrt_append split: od_event.split)
  moreover have "\<not> may_order (pcs (refuse i e s) j)" for j
    using lock_inv_owner [OF assms(2) may_order_owns [OF assms(3)]] may_order_owns by (cases "j = i") auto
  ultimately show ?thesis
    by (simp add: cool_inv_def)
qed

lemma cool_inv_order:
  assumes "cool_inv cfg s" "may_order (pcs s i)"
  shows "cool_inv cfg (od_goto i (Issuing False 0 fresh) (s\<lparr> od_events := od_events s @ [Ordered (od_clock s)] \<rparr>))"
proof -
  let ?s = "od_goto i (Issuing False 0 fresh) (s\<lparr> od_events := od_events s @ [Ordered (od_clock s)] \<rparr>)"
  have el: "elapsed cfg s"
    using assms by (auto simp: cool_inv_def)
  then have "elapsed cfg ?s"
    by (auto simp: elapsed_def)
  moreover have "ordered_late cfg (od_events ?s)"
    using assms(1) el by (auto simp: cool_inv_def ordered_late_def elapsed_def sorted_wrt_append split: od_event.split)
  ultimately show ?thesis
    using elapsed_remembered [of cfg ?s ?s] by (simp add: cool_inv_def)
qed

lemma cool_inv_load_failed:
  assumes "cool_inv cfg s" "lock_inv s" "w = ForDisk \<or> w = ForMint \<Longrightarrow> may_order (pcs s i)"
  shows "cool_inv cfg (load_failed cfg i w fresh s)"
proof (cases w)
  case ForDisk
  then show ?thesis
    using cool_inv_order [OF assms(1)] assms(3) by (simp add: load_failed_def)
next
  case ForMint
  then show ?thesis
    using cool_inv_refuse [OF assms(1,2)] assms(3) by (simp add: load_failed_def)
qed (use assms in \<open>auto simp: load_failed_def intro!: cool_inv_keep [OF assms(1), of i]\<close>)

lemma cool_inv_check:
  assumes "cool_inv cfg s" "pcs s i = Check guarded" "snapshot (od_clock s) guarded (od_cache s) = (entry, pc)"
  shows "cool_inv cfg (leave b (od_goto i pc (s\<lparr> od_cache := entry \<rparr>)))"
proof -
  let ?s = "leave b (od_goto i pc (s\<lparr> od_cache := entry \<rparr>))"
  have rem: "remembered cfg s"
    using assms(1) by (simp add: cool_inv_def)
  consider "entry = od_cache s" "\<not> may_order pc" | "elapsed cfg s"
    using assms(3) remembered_none [OF rem] remembered_expired [OF rem]
    by (fastforce simp: snapshot_def no_decision_def not_less split: option.splits od_entry.splits if_splits)
  then show ?thesis
  proof cases
    case 1
    then show ?thesis
      by (intro cool_inv_keep [OF assms(1), of i]) auto
  next
    case 2
    then have "elapsed cfg ?s" "remembered cfg ?s"
      using elapsed_remembered [OF 2, of ?s] by (simp_all add: elapsed_def)
    then show ?thesis
      using assms(1) by (simp add: cool_inv_def)
  qed
qed

lemma od_step_cool:
  assumes "od_step cfg s s'" "lock_inv s" "cool_inv cfg s"
  shows "cool_inv cfg s'"
  using assms(1)
proof cases
  case (check i guarded entry pc)
  then show ?thesis
    using cool_inv_check [OF assms(3)] by simp
next
  case (read_cert i w fresh)
  then show ?thesis
    using cool_inv_load_failed [OF assms(3,2), of w i fresh] cool_inv_keep [OF assms(3), of i] by (auto split: option.split)
next
  case (read_key i w d fresh)
  then show ?thesis
    using cool_inv_load_failed [OF assms(3,2), of w i fresh] cool_inv_keep [OF assms(3), of i] by (auto split: option.split)
next
  case (store i w cert mtime)
  then show ?thesis
    by (intro cool_inv_keep [OF assms(3), of i]) (auto simp: load_done_def split: load_for.split)
next
  case (ask_deny i)
  then show ?thesis
    using cool_inv_refuse [OF assms(3,2)] by simp
next
  case (ask_fail i)
  then show ?thesis
    using cool_inv_refuse [OF assms(3,2)] by simp
next
  case (issue_fail i swept n fresh)
  then show ?thesis
    using cool_inv_refuse [OF assms(3,2), of i] cool_inv_keep [OF assms(3), of i] by auto
next
  case passes
  then show ?thesis
    using assms(3) by (fastforce simp: cool_inv_def remembered_def elapsed_def)
qed (use cool_inv_keep [OF assms(3)] in auto)

lemma od_reachable_inv: "od_reachable cfg s \<Longrightarrow> lock_inv s \<and> cool_inv cfg s"
proof (induction rule: od_reachable.induct)
  case init
  then show ?case
    by (simp add: lock_inv_def cool_inv_def od_boot_def remembered_def ordered_late_def)
next
  case (step s s')
  then show ?case
    using od_step_lock od_step_cool by blast
qed

text \<open>A thread whose order for a certificate is in flight.\<close>

definition order_in_flight :: "ondemand \<Rightarrow> nat \<Rightarrow> bool" where
  "order_in_flight s i \<longleftrightarrow> (\<exists>n fresh. pcs s i = Issuing False n fresh)"

text \<open>
  C38: Issuance is single-flight and cooled down. In every interleaving of handshake threads, sweeps and the issuer, at
  most one handshake has an order for the name in flight, and after a refusal of the authorizer, an unreachable
  authorizer or a failed order no handshake starts an order before the cooldown has elapsed.
\<close>

theorem ondemand_single_flight:
  assumes "od_reachable cfg s"
  shows "(\<forall>i j. order_in_flight s i \<and> order_in_flight s j \<longrightarrow> i = j) \<and>
    sorted_wrt (\<lambda>a b. case (a, b) of (Refused t, Ordered t') \<Rightarrow> t + cooldown cfg \<le> t' | _ \<Rightarrow> True) (od_events s)"
proof -
  have inv: "lock_inv s" "cool_inv cfg s"
    using od_reachable_inv [OF assms] by auto
  have "i = j" if "order_in_flight s i" "order_in_flight s j" for i j
    using that lock_inv_owner [OF inv(1), of i j] by (auto simp: order_in_flight_def)
  then show ?thesis
    using inv(2) by (auto simp: cool_inv_def ordered_late_def)
qed

section \<open>A thread waits for itself\<close>

text \<open>
  The check under the lock calls \<open>serve_cached\<close>, which reloads a leaf that is newer on disk, and the reload takes
  the lock of the name again. The lock is not re-entrant.
\<close>

definition waits_for_itself :: "ondemand \<Rightarrow> nat \<Rightarrow> bool" where
  "waits_for_itself s i \<longleftrightarrow> (\<exists>cert. pcs s i = WaitReload (ForReload True cert)) \<and> od_lock s = Some i"

definition blocked :: "ondemand \<Rightarrow> nat \<Rightarrow> bool" where
  "blocked s j \<longleftrightarrow> pcs s j = WaitLock \<or> (\<exists>w. pcs s j = WaitReload w)"

inductive od_steps :: "od_cfg \<Rightarrow> ondemand \<Rightarrow> ondemand \<Rightarrow> bool" for cfg :: od_cfg where
  refl: "od_steps cfg s s"
| trans: "od_steps cfg s s' \<Longrightarrow> od_step cfg s' s'' \<Longrightarrow> od_steps cfg s s''"

lemma od_step_other_lock:
  assumes "od_step cfg s s'" "lock_inv s" "waits_for_itself s i" "blocked s j"
  shows "waits_for_itself s' i \<and> blocked s' j"
proof -
  obtain cert where i: "pcs s i = WaitReload (ForReload True cert)" "od_lock s = Some i"
    using assms(3) by (auto simp: waits_for_itself_def)
  have owner: "owns_lock (pcs s k) \<Longrightarrow> k = i" for k
    using assms(2) i(2) by (auto simp: lock_inv_def)
  have free: "\<not> owns_lock (pcs s k) \<or> pcs s k = WaitReload (ForReload True cert)" for k
    using owner i(1) by auto
  show ?thesis
    using assms(1)
  proof cases
    case (check k guarded entry pc)
    then show ?thesis
      using free [of k] i assms(4) by (auto simp: waits_for_itself_def blocked_def)
  next
    case (stat k guarded cert' stored)
    then show ?thesis
      using free [of k] i assms(4) by (auto simp: waits_for_itself_def blocked_def)
  next
    case (issue_fail k swept n fresh)
    then show ?thesis
      using free [of k] i assms(4) by (auto simp: waits_for_itself_def blocked_def)
  next
    case (issue_ok k swept n fresh)
    then show ?thesis
      using free [of k] i assms(4) by (auto simp: waits_for_itself_def blocked_def)
  next
    case (write_cert k swept fresh)
    then show ?thesis
      using i assms(4) by (auto simp: waits_for_itself_def blocked_def)
  next
    case (write_key k swept fresh)
    then show ?thesis
      using i assms(4) by (auto simp: waits_for_itself_def blocked_def)
  next
    case (resolve k)
    then show ?thesis
      using i assms(4) by (auto simp: waits_for_itself_def blocked_def)
  next
    case (sweep k fresh)
    then show ?thesis
      using i assms(4) by (auto simp: waits_for_itself_def blocked_def)
  next
    case passes
    then show ?thesis
      using i assms(4) by (auto simp: waits_for_itself_def blocked_def)
  next
    case (read_cert k w fresh)
    then show ?thesis using free [of k] by auto
  next
    case (read_key k w d fresh)
    then show ?thesis using free [of k] by auto
  next
    case (read_mtime k w c)
    then show ?thesis using free [of k] by auto
  next
    case (store k w c m)
    then show ?thesis using free [of k] by auto
  next
    case (ask_allow k)
    then show ?thesis using free [of k] by auto
  next
    case (ask_deny k)
    then show ?thesis using free [of k] by auto
  next
    case (ask_fail k)
    then show ?thesis using free [of k] by auto
  qed (use i in auto)
qed

lemma waiting_forever:
  assumes "od_steps cfg s s'" "lock_inv s" "waits_for_itself s i" "blocked s j"
  shows "waits_for_itself s' i \<and> blocked s' j \<and> lock_inv s'"
  using assms
proof (induction rule: od_steps.induct)
  case (trans s s' s'')
  then show ?case
    using od_step_other_lock od_step_lock by blast
qed auto

text \<open>The handshakes 1 and 2 arrive at once, 2 orders a leaf, the sweep 3 renews it, and 1 goes on.\<close>

definition leaf :: "byte \<Rightarrow> sni_cert" where
  "leaf b = \<lparr> cert_der = [b], priv_scalar = replicate 32 b \<rparr>"

definition allow_all :: od_cfg where
  "allow_all = \<lparr> ask_url = None, cooldown = 300 \<rparr>"

lemma od_reachable_goto:
  assumes "od_reachable cfg s" "od_step cfg s s''" "s'' = s'"
  shows "od_reachable cfg s'"
  using od_reachable.step [OF assms(1,2)] assms(3) by simp

definition first_leaf :: "ondemand" where
  "first_leaf = \<lparr> od_cache = Some (Ready (leaf 1) (Some 0)), od_lock = None, disk_cert = Some [1], disk_key = Some (replicate 32 1),
     key_mtime = Some 0, od_clock = 0, pcs = (\<lambda>_. Start)(1 := WaitLock, 2 := Resolved (Serve (leaf 1))),
     od_events = [Ordered 0], issued = [leaf 1] \<rparr>"

lemma first_leaf_reachable: "od_reachable allow_all first_leaf"
proof -
  let ?c = allow_all
  note st = od_reachable_goto [of ?c]
  note ev = snapshot_def no_decision_def leave_def od_goto_def load_failed_def load_done_def disk_is_newer_def fun_upd_def leaf_def
  let ?p = "\<lambda>pc1 pc2. (\<lambda>_. Start)(1 := pc1, 2 := pc2)"
  have "od_reachable ?c (od_boot None None None\<lparr> pcs := ?p (Check False) Start \<rparr>)"
    by (rule st [OF od_reachable.init od_step.resolve [of _ 1]]) (auto simp: od_boot_def ev)
  then have "od_reachable ?c (od_boot None None None\<lparr> pcs := ?p WaitLock Start \<rparr>)"
    by (rule st [OF _ od_step.check [of _ 1 False None WaitLock]]) (auto simp: od_boot_def ev)
  then have "od_reachable ?c (od_boot None None None\<lparr> pcs := ?p WaitLock (Check False) \<rparr>)"
    by (rule st [OF _ od_step.resolve [of _ 2]]) (auto simp: od_boot_def ev)
  then have "od_reachable ?c (od_boot None None None\<lparr> pcs := ?p WaitLock WaitLock \<rparr>)"
    by (rule st [OF _ od_step.check [of _ 2 False None WaitLock]]) (auto simp: od_boot_def ev)
  then have "od_reachable ?c (od_boot None None None\<lparr> pcs := ?p WaitLock (Check True), od_lock := Some 2 \<rparr>)"
    by (rule st [OF _ od_step.lock [of _ 2]]) (auto simp: od_boot_def ev)
  then have "od_reachable ?c (od_boot None None None\<lparr> pcs := ?p WaitLock Asking, od_lock := Some 2 \<rparr>)"
    by (rule st [OF _ od_step.check [of _ 2 True None Asking]]) (auto simp: od_boot_def ev)
  then have "od_reachable ?c (od_boot None None None\<lparr> pcs := ?p WaitLock (ReadCert ForDisk), od_lock := Some 2 \<rparr>)"
    by (rule st [OF _ od_step.ask_allow [of _ 2]]) (auto simp: od_boot_def ev)
  then have "od_reachable ?c (od_boot None None None\<lparr> pcs := ?p WaitLock (Issuing False 0 (leaf 1)), od_lock := Some 2, od_events := [Ordered 0] \<rparr>)"
    by (rule st [OF _ od_step.read_cert [of _ 2 ForDisk _ "leaf 1"]]) (auto simp: od_boot_def ev)
  then have "od_reachable ?c (od_boot None None None\<lparr> pcs := ?p WaitLock (Issuing False 1 (leaf 1)), od_lock := Some 2, od_events := [Ordered 0],
      disk_cert := Some [1], issued := [leaf 1] \<rparr>)"
    by (rule st [OF _ od_step.write_cert [of _ 2 False "leaf 1"]]) (auto simp: od_boot_def ev)
  then have "od_reachable ?c (od_boot None None None\<lparr> pcs := ?p WaitLock (Issuing False 2 (leaf 1)), od_lock := Some 2, od_events := [Ordered 0],
      disk_cert := Some [1], issued := [leaf 1], disk_key := Some (replicate 32 1), key_mtime := Some 0 \<rparr>)"
    by (rule st [OF _ od_step.write_key [of _ 2 False "leaf 1"]]) (auto simp: od_boot_def ev)
  then have "od_reachable ?c (od_boot None None None\<lparr> pcs := ?p WaitLock (ReadCert ForMint), od_lock := Some 2, od_events := [Ordered 0],
      disk_cert := Some [1], issued := [leaf 1], disk_key := Some (replicate 32 1), key_mtime := Some 0 \<rparr>)"
    by (rule st [OF _ od_step.issue_ok [of _ 2 False 2 "leaf 1"]]) (auto simp: od_boot_def ev)
  then have "od_reachable ?c (od_boot None None None\<lparr> pcs := ?p WaitLock (ReadKey ForMint [1]), od_lock := Some 2, od_events := [Ordered 0],
      disk_cert := Some [1], issued := [leaf 1], disk_key := Some (replicate 32 1), key_mtime := Some 0 \<rparr>)"
    by (rule st [OF _ od_step.read_cert [of _ 2 ForMint _ "leaf 1"]]) (auto simp: od_boot_def ev)
  then have "od_reachable ?c (od_boot None None None\<lparr> pcs := ?p WaitLock (ReadMtime ForMint (leaf 1)), od_lock := Some 2, od_events := [Ordered 0],
      disk_cert := Some [1], issued := [leaf 1], disk_key := Some (replicate 32 1), key_mtime := Some 0 \<rparr>)"
    by (rule st [OF _ od_step.read_key [of _ 2 ForMint "[1]" _ "leaf 1"]]) (auto simp: od_boot_def ev)
  then have "od_reachable ?c (od_boot None None None\<lparr> pcs := ?p WaitLock (Store ForMint (leaf 1) (Some 0)), od_lock := Some 2, od_events := [Ordered 0],
      disk_cert := Some [1], issued := [leaf 1], disk_key := Some (replicate 32 1), key_mtime := Some 0 \<rparr>)"
    by (rule st [OF _ od_step.read_mtime [of _ 2 ForMint "leaf 1"]]) (auto simp: od_boot_def ev)
  then show ?thesis
    by (rule st [OF _ od_step.store [of _ 2 ForMint "leaf 1" "Some 0"]]) (auto simp: od_boot_def first_leaf_def ev)
qed

definition renewed :: "od_pc \<Rightarrow> od_pc \<Rightarrow> nat option \<Rightarrow> ondemand" where
  "renewed pc1 pc3 owner = first_leaf\<lparr> od_clock := 1, disk_cert := Some [2], disk_key := Some (replicate 32 2), key_mtime := Some 1,
     issued := [leaf 1, leaf 2], pcs := (pcs first_leaf)(1 := pc1, 3 := pc3), od_lock := owner \<rparr>"

lemma deadlock_reachable: "od_reachable allow_all (renewed (WaitReload (ForReload True (leaf 1))) (WaitReload ForSweep) (Some 1))"
proof -
  let ?c = allow_all
  note st = od_reachable_goto [of ?c]
  note ev = snapshot_def no_decision_def leave_def od_goto_def disk_is_newer_def fun_upd_def leaf_def renewed_def first_leaf_def
  let ?p = "\<lambda>pc3. (pcs first_leaf)(3 := pc3)"
  have "od_reachable ?c (first_leaf\<lparr> od_clock := 1 \<rparr>)"
    by (rule st [OF first_leaf_reachable od_step.passes]) (auto simp: ev)
  then have "od_reachable ?c (first_leaf\<lparr> od_clock := 1, pcs := ?p (Issuing True 0 (leaf 2)) \<rparr>)"
    by (rule st [OF _ od_step.sweep [of _ 3 _ "leaf 2"]]) (auto simp: ev)
  then have "od_reachable ?c (first_leaf\<lparr> od_clock := 1, pcs := ?p (Issuing True 1 (leaf 2)), disk_cert := Some [2], issued := [leaf 1, leaf 2] \<rparr>)"
    by (rule st [OF _ od_step.write_cert [of _ 3 True "leaf 2"]]) (auto simp: ev)
  then have "od_reachable ?c (renewed WaitLock (Issuing True 2 (leaf 2)) None)"
    by (rule st [OF _ od_step.write_key [of _ 3 True "leaf 2"]]) (auto simp: ev)
  then have "od_reachable ?c (renewed WaitLock (WaitReload ForSweep) None)"
    by (rule st [OF _ od_step.issue_ok [of _ 3 True 2 "leaf 2"]]) (auto simp: ev)
  then have "od_reachable ?c (renewed (Check True) (WaitReload ForSweep) (Some 1))"
    by (rule st [OF _ od_step.lock [of _ 1]]) (auto simp: ev)
  then have "od_reachable ?c (renewed (Stat True (leaf 1) (Some 0)) (WaitReload ForSweep) (Some 1))"
    by (rule st [OF _ od_step.check [of _ 1 True "Some (Ready (leaf 1) (Some 0))" "Stat True (leaf 1) (Some 0)"]]) (auto simp: ev)
  then show ?thesis
    by (rule st [OF _ od_step.stat [of _ 1 True "leaf 1" "Some 0"]]) (auto simp: ev)
qed



theorem ondemand_single_flight_witness:
  "od_reachable allow_all first_leaf \<and> od_events first_leaf = [Ordered 0] \<and>
   \<not> (\<exists>i j. i \<noteq> j \<and> order_in_flight first_leaf i \<and> order_in_flight first_leaf j)"
  using first_leaf_reachable ondemand_single_flight [OF first_leaf_reachable] by (auto simp: first_leaf_def)

section \<open>A pair of two leaves\<close>

text \<open>
  The certificate is read before the key, and the issuer of a sweep does not take the lock. A handshake that loads the
  leaf of an earlier run while the sweep renews it serves the new certificate with the old key.
\<close>

lemma mixed_leaf_is_served:
  "\<exists>s. od_reachable allow_all s \<and> pcs s 1 = Resolved (Serve \<lparr> cert_der = [2], priv_scalar = replicate 32 1 \<rparr>) \<and>
     issued s = [leaf 2] \<and> od_cache s = Some (Ready \<lparr> cert_der = [2], priv_scalar = replicate 32 1 \<rparr> (Some 0))"
proof -
  let ?c = allow_all
  note st = od_reachable_goto [of ?c]
  note ev = snapshot_def no_decision_def leave_def od_goto_def fun_upd_def leaf_def od_boot_def load_done_def
  let ?s = "\<lambda>pc1. (od_boot (Some [2]) (Some (replicate 32 1)) (Some 0))\<lparr> issued := [leaf 2],
     pcs := (\<lambda>_. Start)(1 := pc1, 3 := Issuing True 1 (leaf 2)) \<rparr>"
  have "od_reachable ?c (od_boot (Some [1]) (Some (replicate 32 1)) (Some 0))"
    by (rule od_reachable.init)
  then have "od_reachable ?c ((od_boot (Some [1]) (Some (replicate 32 1)) (Some 0))\<lparr> pcs := (\<lambda>_. Start)(3 := Issuing True 0 (leaf 2)) \<rparr>)"
    by (rule st [OF _ od_step.sweep [of _ 3 _ "leaf 2"]]) (auto simp: ev)
  then have "od_reachable ?c (?s Start)"
    by (rule st [OF _ od_step.write_cert [of _ 3 True "leaf 2"]]) (auto simp: ev)
  then have "od_reachable ?c (?s (Check False))"
    by (rule st [OF _ od_step.resolve [of _ 1]]) (auto simp: ev)
  then have "od_reachable ?c (?s WaitLock)"
    by (rule st [OF _ od_step.check [of _ 1 False None WaitLock]]) (auto simp: ev)
  then have "od_reachable ?c ((?s (Check True))\<lparr> od_lock := Some 1 \<rparr>)"
    by (rule st [OF _ od_step.lock [of _ 1]]) (auto simp: ev)
  then have "od_reachable ?c ((?s Asking)\<lparr> od_lock := Some 1 \<rparr>)"
    by (rule st [OF _ od_step.check [of _ 1 True None Asking]]) (auto simp: ev)
  then have "od_reachable ?c ((?s (ReadCert ForDisk))\<lparr> od_lock := Some 1 \<rparr>)"
    by (rule st [OF _ od_step.ask_allow [of _ 1]]) (auto simp: ev)
  then have "od_reachable ?c ((?s (ReadKey ForDisk [2]))\<lparr> od_lock := Some 1 \<rparr>)"
    by (rule st [OF _ od_step.read_cert [of _ 1 ForDisk _ "leaf 2"]]) (auto simp: ev)
  then have "od_reachable ?c ((?s (ReadMtime ForDisk \<lparr> cert_der = [2], priv_scalar = replicate 32 1 \<rparr>))\<lparr> od_lock := Some 1 \<rparr>)"
    by (rule st [OF _ od_step.read_key [of _ 1 ForDisk "[2]" _ "leaf 2"]]) (auto simp: ev)
  then have "od_reachable ?c ((?s (Store ForDisk \<lparr> cert_der = [2], priv_scalar = replicate 32 1 \<rparr> (Some 0)))\<lparr> od_lock := Some 1 \<rparr>)"
    by (rule st [OF _ od_step.read_mtime [of _ 1 ForDisk "\<lparr> cert_der = [2], priv_scalar = replicate 32 1 \<rparr>"]]) (auto simp: ev)
  then have "od_reachable ?c ((?s (Resolved (Serve \<lparr> cert_der = [2], priv_scalar = replicate 32 1 \<rparr>)))\<lparr> od_lock := None,
      od_cache := Some (Ready \<lparr> cert_der = [2], priv_scalar = replicate 32 1 \<rparr> (Some 0)) \<rparr>)"
    by (rule st [OF _ od_step.store [of _ 1 ForDisk "\<lparr> cert_der = [2], priv_scalar = replicate 32 1 \<rparr>" "Some 0"]]) (auto simp: ev)
  then show ?thesis
    by - (intro exI conjI, assumption, simp_all add: od_boot_def)
qed

section \<open>An undisturbed load\<close>

text \<open>The load as one operation, which its three reads amount to when nothing writes in between.\<close>

definition load_from_disk :: "ondemand \<Rightarrow> (sni_cert \<times> nat option) option" where
  "load_from_disk s =
     do { d \<leftarrow> disk_cert s; k \<leftarrow> disk_key s;
          if d = [] \<or> length k \<noteq> 32 then None else Some (\<lparr> cert_der = d, priv_scalar = k \<rparr>, key_mtime s) }"

lemma undisturbed_load:
  assumes "pcs s i = ReadCert w" "load_from_disk s = Some (cert, mtime)"
  shows "od_steps cfg s (od_goto i (load_done w cert) (s\<lparr> od_cache := Some (Ready cert mtime), od_lock := None \<rparr>))"
proof -
  obtain d k where dk: "disk_cert s = Some d" "disk_key s = Some k" "d \<noteq> []" "length k = 32"
      "cert = \<lparr> cert_der = d, priv_scalar = k \<rparr>" "mtime = key_mtime s"
    using assms(2) by (auto simp: load_from_disk_def split: bind_splits if_splits)
  let ?s1 = "od_goto i (ReadKey w d) s" and ?s2 = "od_goto i (ReadMtime w cert) s" and ?s3 = "od_goto i (Store w cert mtime) s"
  have "od_step cfg s ?s1"
    using od_step.read_cert [OF assms(1), of cfg cert] dk(1) by simp
  moreover have "od_step cfg ?s1 ?s2"
    using od_step.read_key [of ?s1 i w d cfg cert] dk by (simp add: od_goto_def)
  moreover have "od_step cfg ?s2 ?s3"
    using od_step.read_mtime [of ?s2 i w cert cfg] dk(6) by (simp add: od_goto_def)
  moreover have "od_step cfg ?s3 (od_goto i (load_done w cert) (s\<lparr> od_cache := Some (Ready cert mtime), od_lock := None \<rparr>))"
    using od_step.store [of ?s3 i w cert mtime cfg] by (simp add: od_goto_def)
  ultimately show ?thesis
    by (meson od_steps.refl od_steps.trans)
qed

end
