(* ===== verification/Spec2Isabelle.thy ===== *)
theory Spec2Isabelle
  imports Slab Conn_Limit Output_Cursor Ring Wake Config_Publish Standing Http Proxy_Forward
    Ws_Cuts Ws_Handshake Control Interp Static_Serve Access_Log Metrics Ondemand
begin

text \<open>
  Verification of the Rust code of the repository.
\<close>

end
